(* ===== verification/Lob_Prelude.thy ===== *)
theory Lob_Prelude
  imports Main "HOL-Library.Word" "HOL-Library.AList" "HOL-Library.Multiset"
begin

text \<open>
  Shared vocabulary of the development: the machine integer types of the C++ sources, the model of
  the standard containers the sources rely on, and the generic lemmas the component theories share.

  \<^item> \<open>uint8_t\<close>, \<open>uint16_t\<close>, \<open>uint32_t\<close>, \<open>uint64_t\<close> (and \<open>size_t\<close>, 64 bits wide on the supported
    targets) are words of that width, so that every \<open>+\<close> and \<open>-\<close> wraps as the code's does.
  \<^item> \<open>int64_t\<close> prices are \<open>int\<close> with the range predicate \<open>is_i64\<close>: the sources compare prices and
    subtract them once (the spread); they never multiply or add them as signed values.
  \<^item> \<open>std::map\<close> is an association list kept in the order of its comparator; \<open>std::unordered_map\<close> is
    an association list with distinct keys (its iteration order is never used by the sources).
  \<^item> \<open>std::list<Order>\<close> is a list of cells, each a node and the order stored in it; a list iterator
    is the node it points to.
\<close>

type_synonym u8 = "8 word"
type_synonym u16 = "16 word"
type_synonym u32 = "32 word"
type_synonym u64 = "64 word"
type_synonym node = nat

definition is_i64 :: "int \<Rightarrow> bool" where
  "is_i64 x \<longleftrightarrow> - (2 ^ 63) \<le> x \<and> x < 2 ^ 63"

named_theorems lob_simps \<open>unfolding rules of the small accessors and observers\<close>
named_theorems inv_simps \<open>unfolding rules of the component invariants\<close>

section \<open>Ordered maps\<close>

text \<open>
  \<open>std::map::try_emplace\<close>: a new key is put at its place in the comparator's order, an existing one
  is left alone. \<open>find\<close>, \<open>erase\<close> and writing through an iterator are \<^const>\<open>map_of\<close>,
  \<^const>\<open>AList.delete\<close> and \<^const>\<open>AList.map_entry\<close>.
\<close>

fun try_emplace :: "('k \<Rightarrow> 'k \<Rightarrow> bool) \<Rightarrow> 'k \<Rightarrow> 'v \<Rightarrow> ('k \<times> 'v) list \<Rightarrow> ('k \<times> 'v) list" where
  "try_emplace ahead k v [] = [(k, v)]"
| "try_emplace ahead k v ((k', v') # m) =
     (if k = k' then (k', v') # m
      else if ahead k k' then (k, v) # (k', v') # m
      else (k', v') # try_emplace ahead k v m)"

section \<open>Association lists\<close>

lemma delete_Cons_eq [simp]:
  "AList.delete k ((k', v) # xs) = (if k = k' then AList.delete k xs else (k', v) # AList.delete k xs)"
  by (simp add: AList.delete_eq)

lemma delete_append [simp]: "AList.delete k (xs @ ys) = AList.delete k xs @ AList.delete k ys"
  by (simp add: AList.delete_eq)

lemma delete_filter: "AList.delete k xs = filter (\<lambda>c. fst c \<noteq> k) xs"
  by (induction xs) auto

lemma delete_absent: "k \<notin> fst ` set xs \<Longrightarrow> AList.delete k xs = xs"
  by (induction xs) auto

lemma map_of_split:
  assumes "map_of m k = Some v"
  shows "\<exists>xs ys. m = xs @ (k, v) # ys \<and> k \<notin> fst ` set xs"
  using assms
proof (induction m)
  case Nil
  then show ?case by simp
next
  case (Cons a m)
  show ?case
  proof (cases "fst a = k")
    case True
    with Cons.prems have "a # m = [] @ (k, v) # m" by (cases a) auto
    then show ?thesis by fastforce
  next
    case False
    with Cons obtain xs ys where "m = xs @ (k, v) # ys" "k \<notin> fst ` set xs"
      by (cases a) auto
    with False have "a # m = (a # xs) @ (k, v) # ys \<and> k \<notin> fst ` set (a # xs)" by auto
    then show ?thesis by blast
  qed
qed

lemma map_entry_notin: "k \<notin> fst ` set xs \<Longrightarrow> AList.map_entry k f xs = xs"
  by (induction xs) auto

lemma map_entry_split:
  "k \<notin> fst ` set xs \<Longrightarrow> AList.map_entry k f (xs @ (k, v) # ys) = xs @ (k, f v) # ys"
  by (induction xs) auto

lemma filter_mset_single_out:
  assumes "x \<in># M" and "\<And>y. y \<in># M - {#x#} \<Longrightarrow> P y" and "\<not> P x"
  shows "filter_mset P M = M - {#x#}"
proof -
  from assms(1) obtain N where N: "M = add_mset x N" by (metis insert_DiffM)
  with assms(2) have "filter_mset P N = N" by (intro filter_mset_eq_conv [THEN iffD2]) auto
  with N assms(3) show ?thesis by simp
qed

lemma distinct_map_add_mset:
  assumes "mset ys = add_mset x (mset xs)"
  shows "distinct (map f ys) \<longleftrightarrow> f x \<notin> f ` set xs \<and> distinct (map f xs)"
proof -
  have "mset (map f ys) = mset (map f (x # xs))" using assms by simp
  then have "distinct (map f ys) \<longleftrightarrow> distinct (map f (x # xs))"
    by (rule mset_eq_imp_distinct_iff)
  then show ?thesis by simp
qed

lemma set_add_mset: "mset ys = add_mset x (mset xs) \<Longrightarrow> set ys = insert x (set xs)"
  by (metis set_mset_add_mset_insert set_mset_mset)

lemma find_unique:
  assumes "x \<in> set xs" and "P x" and "\<And>y. y \<in> set xs \<Longrightarrow> P y \<Longrightarrow> y = x"
  shows "find P xs = Some x"
proof (cases "find P xs")
  case None
  with assms(1,2) show ?thesis by (auto simp: find_None_iff)
next
  case (Some y)
  then have "y \<in> set xs" "P y" by (auto simp: find_Some_iff)
  with assms(3) Some show ?thesis by blast
qed

section \<open>Words\<close>

lemma unat_u32_less [simp]: "unat (q :: u32) < 4294967296"
  using unsigned_less [of q] by simp

lemma unat_u64_less [simp]: "unat (q :: u64) < 18446744073709551616"
  using unsigned_less [of q] by simp

lemma unat_ucast_u32_u64 [simp]: "unat (ucast (q :: u32) :: u64) = unat q"
proof -
  have "unat q < 18446744073709551616" by (rule less_trans [OF unat_u32_less]) simp
  then show ?thesis by (simp add: unsigned_ucast_eq take_bit_nat_eq_self_iff)
qed

lemma unat_plus_one:
  "unat (x :: u64) + 1 < 2 ^ 64 \<Longrightarrow> unat (x + 1) = unat x + 1"
  by (simp add: unat_word_ariths)

lemma unat_add_le:
  fixes a b c :: "'a::len word"
  assumes "unat a + unat b \<le> unat c"
  shows "unat (a + b) = unat a + unat b"
proof -
  have "unat a + unat b < 2 ^ LENGTH('a)"
    using assms by (rule le_less_trans) (rule unsigned_less)
  then show ?thesis by (simp add: unat_word_ariths)
qed

lemma unat_min: "unat (min a b) = min (unat a) (unat (b :: 'a::len word))"
  by (simp add: min_def word_le_nat_alt)

lemma unat_sum_list_u64:
  assumes "(\<Sum>x\<leftarrow>xs. unat (f x)) < 2 ^ 64"
  shows "unat (sum_list (map f xs) :: u64) = (\<Sum>x\<leftarrow>xs. unat (f x))"
  using assms
proof (induction xs)
  case Nil
  then show ?case by simp
next
  case (Cons x xs)
  then have "unat (sum_list (map f xs) :: u64) = (\<Sum>x\<leftarrow>xs. unat (f x))" by simp
  with Cons.prems show ?case by (simp add: unat_word_ariths)
qed

lemma sum_list_unat_u32_bound:
  "sum_list (map (\<lambda>x. unat (f x :: u32)) xs) \<le> length xs * 4294967295"
proof (induction xs)
  case Nil
  then show ?case by simp
next
  case (Cons x xs)
  have "unat (f x) \<le> 4294967295" using unat_u32_less [of "f x"] by linarith
  with Cons show ?case by simp
qed

lemma sorted_wrt_mono_set:
  "sorted_wrt P xs \<Longrightarrow> (\<And>x y. x \<in> set xs \<Longrightarrow> y \<in> set xs \<Longrightarrow> P x y \<Longrightarrow> Q x y) \<Longrightarrow> sorted_wrt Q xs"
  by (induction xs) auto

lemma option_eq_if:
  assumes "\<And>r. f = Some r \<longleftrightarrow> C \<and> r = v"
  shows "f = (if C then Some v else None)"
  using assms by (cases f) auto

text \<open>Sums over a list when one element changes.\<close>

lemma sum_list_swap:
  fixes f :: "'a \<Rightarrow> 'b :: comm_monoid_add"
  shows "j < length xs \<Longrightarrow> sum_list (map f xs) + f y = sum_list (map f (xs[j := y])) + f (xs ! j)"
  by (induction xs arbitrary: j) (auto simp: ac_simps nth_Cons split: nat.splits)

lemma sum_list_all_zero:
  fixes f :: "'a \<Rightarrow> 'b :: comm_monoid_add"
  shows "(\<And>x. x \<in> set xs \<Longrightarrow> f x = 0) \<Longrightarrow> sum_list (map f xs) = 0"
  by (induction xs) auto

end
