(* ===== verification/Order_Types.thy ===== *)
theory Order_Types
  imports Lob_Prelude
begin

text \<open>
  The message types of the system: orders (\<open>include/order.hpp\<close>), trades (\<open>include/trade.hpp\<close>) and
  execution reports (\<open>include/execution_report.hpp\<close>, \<open>src/execution_report.cpp\<close>).

  A C++ enumeration with a fixed underlying type can hold any value of that type, and the journal
  and the shared memory region do produce such values by casting bytes. The enumerations the engine
  validates therefore have one extra constructor for a byte that is no enumerator. Flags are a bit
  set and stay a byte.
\<close>

unbundle bit_operations_syntax

section \<open>Orders\<close>

datatype Side = BUY | SELL | Side_Byte u8

datatype OrderType = LIMIT | MARKET | OrderType_Byte u8

datatype TimeInForce = GTC | IOC | FOK | TimeInForce_Byte u8

type_synonym OrderFlags = u8

definition flag_NONE :: OrderFlags where "flag_NONE = 0"

definition flag_POST_ONLY :: OrderFlags where "flag_POST_ONLY = push_bit 0 1"

definition flags_or :: "OrderFlags \<Rightarrow> OrderFlags \<Rightarrow> OrderFlags" where
  "flags_or lhs rhs = lhs OR rhs"

definition hasFlag :: "OrderFlags \<Rightarrow> OrderFlags \<Rightarrow> bool" where
  "hasFlag v flag \<longleftrightarrow> v AND flag \<noteq> 0"

definition isValidSide :: "Side \<Rightarrow> bool" where
  "isValidSide s \<longleftrightarrow> s = BUY \<or> s = SELL"

definition isValidOrderType :: "OrderType \<Rightarrow> bool" where
  "isValidOrderType t \<longleftrightarrow> t = LIMIT \<or> t = MARKET"

definition isValidTimeInForce :: "TimeInForce \<Rightarrow> bool" where
  "isValidTimeInForce t \<longleftrightarrow> t = GTC \<or> t = IOC \<or> t = FOK"

record Order =
  o_id :: u64
  o_side :: Side
  o_type :: OrderType
  o_time_in_force :: TimeInForce
  o_flags :: OrderFlags
  o_price :: int
  o_quantity :: u32
  o_sequence :: u64

definition default_order :: Order where
  "default_order = \<lparr>o_id = 0, o_side = BUY, o_type = LIMIT, o_time_in_force = GTC,
     o_flags = flag_NONE, o_price = 0, o_quantity = 0, o_sequence = 0\<rparr>"

section \<open>Trades\<close>

record Trade =
  t_trade_id :: u64
  t_buy_order_id :: u64
  t_sell_order_id :: u64
  t_price :: int
  t_quantity :: u32
  t_sequence :: u64

section \<open>Execution reports\<close>

datatype CommandType = NEW_ORDER | CANCEL_ORDER

datatype ExecutionStatus = REJECTED | RESTING | PARTIALLY_FILLED | FILLED | EXPIRED | CANCELED

datatype RejectReason =
    NO_REASON
  | INVALID_ORDER_ID
  | DUPLICATE_ORDER_ID
  | INVALID_SIDE
  | INVALID_ORDER_TYPE
  | INVALID_TIME_IN_FORCE
  | INVALID_ORDER_FLAGS
  | INVALID_QUANTITY
  | INVALID_LIMIT_PRICE
  | MARKET_ORDER_CANNOT_BE_GTC
  | POST_ONLY_REQUIRES_GTC_LIMIT
  | POST_ONLY_WOULD_TRADE
  | FOK_NOT_FILLABLE
  | RISK_KILL_SWITCH
  | RISK_MAX_ORDER_QUANTITY
  | RISK_PRICE_OUT_OF_RANGE
  | RISK_MAX_NOTIONAL
  | RISK_MAX_ACTIVE_ORDERS
  | ORDER_NOT_FOUND
  | INGRESS_QUEUE_FULL
  | ENGINE_SHUTTING_DOWN
  | JOURNAL_ERROR

record ExecutionReport =
  r_order_id :: u64
  r_sequence :: u64
  r_command :: CommandType
  r_status :: ExecutionStatus
  r_reject_reason :: RejectReason
  r_reserved :: u8
  r_requested_quantity :: u32
  r_executed_quantity :: u32
  r_remaining_quantity :: u32
  r_trade_count :: u32

definition default_report :: ExecutionReport where
  "default_report = \<lparr>r_order_id = 0, r_sequence = 0, r_command = NEW_ORDER, r_status = REJECTED,
     r_reject_reason = NO_REASON, r_reserved = 0, r_requested_quantity = 0,
     r_executed_quantity = 0, r_remaining_quantity = 0, r_trade_count = 0\<rparr>"

definition accepted :: "ExecutionReport \<Rightarrow> bool" where
  "accepted r \<longleftrightarrow> r_status r \<noteq> REJECTED"

section \<open>Names of the enumerators\<close>

text \<open>
  The three \<open>toString\<close> overloads switch on the stored byte and fall through to a default name for a
  byte that is no enumerator; they are modelled on the byte, with the code of each enumerator.
\<close>

primrec status_code :: "ExecutionStatus \<Rightarrow> u8" where
  "status_code REJECTED = 0"
| "status_code RESTING = 1"
| "status_code PARTIALLY_FILLED = 2"
| "status_code FILLED = 3"
| "status_code EXPIRED = 4"
| "status_code CANCELED = 5"

primrec reason_code :: "RejectReason \<Rightarrow> u8" where
  "reason_code NO_REASON = 0"
| "reason_code INVALID_ORDER_ID = 1"
| "reason_code DUPLICATE_ORDER_ID = 2"
| "reason_code INVALID_SIDE = 3"
| "reason_code INVALID_ORDER_TYPE = 4"
| "reason_code INVALID_TIME_IN_FORCE = 5"
| "reason_code INVALID_ORDER_FLAGS = 6"
| "reason_code INVALID_QUANTITY = 7"
| "reason_code INVALID_LIMIT_PRICE = 8"
| "reason_code MARKET_ORDER_CANNOT_BE_GTC = 9"
| "reason_code POST_ONLY_REQUIRES_GTC_LIMIT = 10"
| "reason_code POST_ONLY_WOULD_TRADE = 11"
| "reason_code FOK_NOT_FILLABLE = 12"
| "reason_code RISK_KILL_SWITCH = 13"
| "reason_code RISK_MAX_ORDER_QUANTITY = 14"
| "reason_code RISK_PRICE_OUT_OF_RANGE = 15"
| "reason_code RISK_MAX_NOTIONAL = 16"
| "reason_code RISK_MAX_ACTIVE_ORDERS = 17"
| "reason_code ORDER_NOT_FOUND = 18"
| "reason_code INGRESS_QUEUE_FULL = 19"
| "reason_code ENGINE_SHUTTING_DOWN = 20"
| "reason_code JOURNAL_ERROR = 21"

primrec command_code :: "CommandType \<Rightarrow> u8" where
  "command_code NEW_ORDER = 0"
| "command_code CANCEL_ORDER = 1"

definition toString_status :: "u8 \<Rightarrow> string" where
  "toString_status c =
     (if c = status_code REJECTED then ''REJECTED''
      else if c = status_code RESTING then ''RESTING''
      else if c = status_code PARTIALLY_FILLED then ''PARTIALLY_FILLED''
      else if c = status_code FILLED then ''FILLED''
      else if c = status_code EXPIRED then ''EXPIRED''
      else if c = status_code CANCELED then ''CANCELED''
      else ''UNKNOWN_STATUS'')"

definition toString_reason :: "u8 \<Rightarrow> string" where
  "toString_reason c =
     (if c = reason_code NO_REASON then ''NONE''
      else if c = reason_code INVALID_ORDER_ID then ''INVALID_ORDER_ID''
      else if c = reason_code DUPLICATE_ORDER_ID then ''DUPLICATE_ORDER_ID''
      else if c = reason_code INVALID_SIDE then ''INVALID_SIDE''
      else if c = reason_code INVALID_ORDER_TYPE then ''INVALID_ORDER_TYPE''
      else if c = reason_code INVALID_TIME_IN_FORCE then ''INVALID_TIME_IN_FORCE''
      else if c = reason_code INVALID_ORDER_FLAGS then ''INVALID_ORDER_FLAGS''
      else if c = reason_code INVALID_QUANTITY then ''INVALID_QUANTITY''
      else if c = reason_code INVALID_LIMIT_PRICE then ''INVALID_LIMIT_PRICE''
      else if c = reason_code MARKET_ORDER_CANNOT_BE_GTC then ''MARKET_ORDER_CANNOT_BE_GTC''
      else if c = reason_code POST_ONLY_REQUIRES_GTC_LIMIT then ''POST_ONLY_REQUIRES_GTC_LIMIT''
      else if c = reason_code POST_ONLY_WOULD_TRADE then ''POST_ONLY_WOULD_TRADE''
      else if c = reason_code FOK_NOT_FILLABLE then ''FOK_NOT_FILLABLE''
      else if c = reason_code RISK_KILL_SWITCH then ''RISK_KILL_SWITCH''
      else if c = reason_code RISK_MAX_ORDER_QUANTITY then ''RISK_MAX_ORDER_QUANTITY''
      else if c = reason_code RISK_PRICE_OUT_OF_RANGE then ''RISK_PRICE_OUT_OF_RANGE''
      else if c = reason_code RISK_MAX_NOTIONAL then ''RISK_MAX_NOTIONAL''
      else if c = reason_code RISK_MAX_ACTIVE_ORDERS then ''RISK_MAX_ACTIVE_ORDERS''
      else if c = reason_code ORDER_NOT_FOUND then ''ORDER_NOT_FOUND''
      else if c = reason_code INGRESS_QUEUE_FULL then ''INGRESS_QUEUE_FULL''
      else if c = reason_code ENGINE_SHUTTING_DOWN then ''ENGINE_SHUTTING_DOWN''
      else if c = reason_code JOURNAL_ERROR then ''JOURNAL_ERROR''
      else ''UNKNOWN_REJECT_REASON'')"

definition toString_command :: "u8 \<Rightarrow> string" where
  "toString_command c =
     (if c = command_code NEW_ORDER then ''NEW_ORDER''
      else if c = command_code CANCEL_ORDER then ''CANCEL_ORDER''
      else ''UNKNOWN_COMMAND'')"

section \<open>Flags\<close>

lemma hasFlag_NONE [simp]: "\<not> hasFlag flag_NONE f"
  by (simp add: hasFlag_def flag_NONE_def)

lemma hasFlag_or: "hasFlag (flags_or a b) f \<longleftrightarrow> hasFlag a f \<or> hasFlag b f"
proof -
  have "(a OR b) AND f = 0 \<longleftrightarrow> a AND f = 0 \<and> b AND f = 0"
    by (simp only: word_ao_dist) (auto simp: or_eq_0_iff)
  then show ?thesis by (auto simp: hasFlag_def flags_or_def)
qed

lemma known_flags_cases:
  fixes f :: OrderFlags
  assumes "f AND NOT flag_POST_ONLY = 0"
  shows "f = flag_NONE \<or> f = flag_POST_ONLY"
proof -
  have "bit f n \<Longrightarrow> n = 0" for n
    using arg_cong [OF assms, where f = "\<lambda>w. bit w n"] bit_imp_le_length [of f n]
    by (auto simp: flag_POST_ONLY_def bit_simps)
  then have "f = f AND 1"
    by (intro bit_eqI) (auto simp: bit_simps)
  then have "f = 0 \<or> f = 1" by (metis and_one_eq odd_iff_mod_2_eq_one even_iff_mod_2_eq_zero)
  then show ?thesis by (auto simp: flag_NONE_def flag_POST_ONLY_def)
qed

end
