(* ===== verification/Price_Levels.thy ===== *)
theory Price_Levels
  imports Order_Types
begin

text \<open>
  One side of the order book: the price levels of \<open>include/order_book.hpp\<close> and the operations on
  them that \<open>src/order_book.cpp\<close> writes out once for the buy map and once for the sell map.

  The two maps differ only in their comparator (\<open>std::greater\<close> and \<open>std::less\<close>), so the lemmas are
  proved once, in the locale \<open>price_order\<close> over an arbitrary strict total order on prices, and
  interpreted for both comparators.
\<close>

section \<open>Levels and cells\<close>

type_synonym cell = "node \<times> Order"

record PriceLevel =
  orders :: "cell list"
  total_quantity :: u64

definition empty_level :: PriceLevel where
  "empty_level = \<lparr>orders = [], total_quantity = 0\<rparr>"

type_synonym levels = "(int \<times> PriceLevel) list"

text \<open>All cells of a side, best price first and oldest first within a price.\<close>

definition cells :: "levels \<Rightarrow> cell list" where
  "cells m = concat (map (orders \<circ> snd) m)"

section \<open>Operations on a side\<close>

definition push_back_order :: "node \<Rightarrow> Order \<Rightarrow> PriceLevel \<Rightarrow> PriceLevel" where
  "push_back_order n ord lv =
     lv\<lparr>orders := orders lv @ [(n, ord)],
        total_quantity := total_quantity lv + ucast (o_quantity ord)\<rparr>"

definition add_to_levels :: "(int \<Rightarrow> int \<Rightarrow> bool) \<Rightarrow> node \<Rightarrow> Order \<Rightarrow> levels \<Rightarrow> levels" where
  "add_to_levels ahead n ord m =
     AList.map_entry (o_price ord) (push_back_order n ord)
       (try_emplace ahead (o_price ord) empty_level m)"

definition eraseLevelIfEmpty :: "levels \<Rightarrow> int \<Rightarrow> levels" where
  "eraseLevelIfEmpty m p =
     (case map_of m p of
        None \<Rightarrow> m
      | Some lv \<Rightarrow> if orders lv = [] then AList.delete p m else m)"

definition erase_cell :: "node \<Rightarrow> Order \<Rightarrow> PriceLevel \<Rightarrow> PriceLevel" where
  "erase_cell n ord lv =
     lv\<lparr>orders := AList.delete n (orders lv),
        total_quantity := total_quantity lv - ucast (o_quantity ord)\<rparr>"

text \<open>
  The part of \<open>cancelOrder\<close> done on one map. \<^const>\<open>None\<close> is undefined behaviour: the level is not
  there (the assertion), or the iterator does not point into the level's list.
\<close>

definition cancel_in_levels :: "int \<Rightarrow> node \<Rightarrow> levels \<Rightarrow> levels option" where
  "cancel_in_levels p n m =
     (case map_of m p of
        None \<Rightarrow> None
      | Some lv \<Rightarrow>
          (case map_of (orders lv) n of
             None \<Rightarrow> None
           | Some ord \<Rightarrow> Some (eraseLevelIfEmpty (AList.map_entry p (erase_cell n ord) m) p)))"

text \<open>
  The part of \<open>reduceFront\<close> done on one map: the new levels and the id of the order that was removed
  because its quantity reached zero. \<^const>\<open>None\<close> is undefined behaviour: an empty side, a level with
  no order, or a quantity above the front order's (the assertions).
\<close>

definition reduce_front_levels :: "u32 \<Rightarrow> levels \<Rightarrow> (levels \<times> u64 option) option" where
  "reduce_front_levels qty m =
     (case m of
        [] \<Rightarrow> None
      | (p, lv) # _ \<Rightarrow>
          (case orders lv of
             [] \<Rightarrow> None
           | (n, ord) # cs \<Rightarrow>
               if \<not> qty \<le> o_quantity ord then None
               else
                 let ord' = ord\<lparr>o_quantity := o_quantity ord - qty\<rparr>;
                     m' = AList.map_entry p
                            (\<lambda>lv. lv\<lparr>orders := (n, ord') # cs,
                                     total_quantity := total_quantity lv - ucast qty\<rparr>) m
                 in if o_quantity ord' = 0
                    then Some (eraseLevelIfEmpty
                                 (AList.map_entry p (\<lambda>lv. lv\<lparr>orders := cs\<rparr>) m') p,
                               Some (o_id ord'))
                    else Some (m', None)))"

text \<open>The loop of \<open>executableQuantity\<close> over one map; \<open>stop\<close> is the price test that breaks it.\<close>

fun executable_levels :: "(int \<Rightarrow> bool) \<Rightarrow> u64 \<Rightarrow> u64 \<Rightarrow> levels \<Rightarrow> u64" where
  "executable_levels stop cap tot [] = tot"
| "executable_levels stop cap tot ((p, lv) # m) =
     (if stop p then tot
      else
        let tot' = tot + min (total_quantity lv) (cap - tot)
        in if tot' = cap then tot' else executable_levels stop cap tot' m)"

section \<open>The invariant of a side\<close>

definition order_ok :: "Side \<Rightarrow> int \<Rightarrow> Order \<Rightarrow> bool" where
  "order_ok s p ord \<longleftrightarrow> o_id ord \<noteq> 0 \<and> o_quantity ord \<noteq> 0 \<and> o_price ord = p \<and> 0 < p \<and>
     o_side ord = s \<and> o_type ord = LIMIT"

definition level_sum :: "cell list \<Rightarrow> u64" where
  "level_sum cs = sum_list (map (\<lambda>c. ucast (o_quantity (snd c))) cs)"

definition level_ok :: "Side \<Rightarrow> int \<Rightarrow> PriceLevel \<Rightarrow> bool" where
  "level_ok s p lv \<longleftrightarrow> orders lv \<noteq> [] \<and> (\<forall>c \<in> set (orders lv). order_ok s p (snd c)) \<and>
     total_quantity lv = level_sum (orders lv) \<and>
     sorted (map (o_sequence \<circ> snd) (orders lv))"

definition levels_ok :: "(int \<Rightarrow> int \<Rightarrow> bool) \<Rightarrow> Side \<Rightarrow> levels \<Rightarrow> bool" where
  "levels_ok ahead s m \<longleftrightarrow> sorted_wrt ahead (map fst m) \<and> (\<forall>(p, lv) \<in> set m. level_ok s p lv)"

section \<open>Facts that hold for any comparator\<close>

lemma cells_simps [simp]:
  "cells [] = []"
  "cells (pl # m) = orders (snd pl) @ cells m"
  "cells (m @ m') = cells m @ cells m'"
  by (simp_all add: cells_def)

lemma level_sum_simps [simp]:
  "level_sum [] = 0"
  "level_sum (c # cs) = ucast (o_quantity (snd c)) + level_sum cs"
  "level_sum (cs @ ds) = level_sum cs + level_sum ds"
  by (simp_all add: level_sum_def)

text \<open>The quantity resting in a list of cells, as a natural number.\<close>

definition qsum :: "cell list \<Rightarrow> nat" where
  "qsum cs = (\<Sum>c\<leftarrow>cs. unat (o_quantity (snd c)))"

lemma qsum_simps [simp]:
  "qsum [] = 0"
  "qsum (c # cs) = unat (o_quantity (snd c)) + qsum cs"
  "qsum (cs @ ds) = qsum cs + qsum ds"
  by (simp_all add: qsum_def)

lemma unat_level_sum: "qsum cs < 2 ^ 64 \<Longrightarrow> unat (level_sum cs) = qsum cs"
  unfolding level_sum_def qsum_def by (subst unat_sum_list_u64) simp_all

lemma qsum_bound: "length cs \<le> 2 ^ 32 \<Longrightarrow> qsum cs < 2 ^ 64"
  using sum_list_unat_u32_bound [of "\<lambda>c. o_quantity (snd c)" cs] by (simp add: qsum_def)

lemma levels_ok_Nil [simp]: "levels_ok ahead s []"
  by (simp add: levels_ok_def)

lemma levels_ok_Cons:
  "levels_ok ahead s ((p, lv) # m) \<longleftrightarrow>
     level_ok s p lv \<and> (\<forall>q \<in> fst ` set m. ahead p q) \<and> levels_ok ahead s m"
  by (auto simp: levels_ok_def)

lemma levels_ok_append:
  "levels_ok ahead s (m @ m') \<longleftrightarrow>
     levels_ok ahead s m \<and> levels_ok ahead s m' \<and>
     (\<forall>p \<in> fst ` set m. \<forall>q \<in> fst ` set m'. ahead p q)"
  by (auto simp: levels_ok_def sorted_wrt_append)

lemma levels_ok_cell:
  assumes "levels_ok ahead s m" and "c \<in> set (cells m)"
  shows "order_ok s (o_price (snd c)) (snd c)" and "o_price (snd c) \<in> fst ` set m"
proof -
  from assms obtain p lv where "(p, lv) \<in> set m" "c \<in> set (orders lv)" "level_ok s p lv"
    by (auto simp: cells_def levels_ok_def)
  then show "order_ok s (o_price (snd c)) (snd c)" and "o_price (snd c) \<in> fst ` set m"
    by (auto simp: level_ok_def order_ok_def image_iff) force
qed

lemma levels_ok_key_cell:
  assumes "levels_ok ahead s m" and "p \<in> fst ` set m"
  shows "\<exists>c \<in> set (cells m). o_price (snd c) = p"
proof -
  from assms obtain lv where lv: "(p, lv) \<in> set m" "level_ok s p lv"
    by (auto simp: levels_ok_def)
  then have "hd (orders lv) \<in> set (orders lv)" "o_price (snd (hd (orders lv))) = p"
    by (auto simp: level_ok_def order_ok_def)
  then obtain c where "c \<in> set (orders lv)" "o_price (snd c) = p" by blast
  with lv show ?thesis by (auto simp: cells_def intro!: bexI [of _ c] bexI [of _ "(p, lv)"])
qed

lemma levels_ok_Nil_iff: "levels_ok ahead s m \<Longrightarrow> cells m = [] \<longleftrightarrow> m = []"
  by (cases m) (auto simp: levels_ok_Cons level_ok_def)

lemma level_ok_push_back:
  assumes "level_ok s p lv \<or> lv = empty_level" and "order_ok s p ord"
    and "\<forall>c \<in> set (orders lv). o_sequence (snd c) \<le> o_sequence ord"
  shows "level_ok s p (push_back_order n ord lv)"
  using assms by (auto simp: level_ok_def push_back_order_def empty_level_def sorted_append)

lemma level_sum_delete:
  assumes "distinct (map fst cs)" and "map_of cs n = Some ord"
  shows "level_sum (AList.delete n cs) = level_sum cs - ucast (o_quantity ord)"
proof -
  from map_of_split [OF assms(2)] obtain xs ys
    where "cs = xs @ (n, ord) # ys" "n \<notin> fst ` set xs" by blast
  with assms(1) show ?thesis by (simp add: delete_absent)
qed

lemma level_ok_erase_cell:
  assumes "level_ok s p lv" and "distinct (map fst (orders lv))"
    and "map_of (orders lv) n = Some ord" and "AList.delete n (orders lv) \<noteq> []"
  shows "level_ok s p (erase_cell n ord lv)"
proof -
  have "sorted (map (o_sequence \<circ> snd) (AList.delete n (orders lv)))"
    using assms(1) by (simp add: level_ok_def delete_filter sorted_filter)
  with assms show ?thesis
    by (simp add: level_ok_def erase_cell_def level_sum_delete) (auto simp: delete_filter)
qed

section \<open>Price orders\<close>

locale price_order =
  fixes ahead :: "int \<Rightarrow> int \<Rightarrow> bool"
  assumes ahead_irrefl: "\<not> ahead p p"
    and ahead_trans: "ahead p q \<Longrightarrow> ahead q r \<Longrightarrow> ahead p r"
    and ahead_total: "p \<noteq> q \<Longrightarrow> ahead p q \<or> ahead q p"
begin

lemma ahead_asym: "ahead p q \<Longrightarrow> \<not> ahead q p"
  using ahead_irrefl ahead_trans by blast

lemma levels_distinct: "levels_ok ahead s m \<Longrightarrow> distinct (map fst m)"
  by (induction m) (force simp: levels_ok_Cons ahead_irrefl)+

lemma level_at:
  assumes "levels_ok ahead s m" and "map_of m p = Some lv"
  shows "\<exists>xs ys. m = xs @ (p, lv) # ys \<and> (\<forall>q \<in> fst ` set xs. ahead q p) \<and>
           (\<forall>q \<in> fst ` set ys. ahead p q) \<and> p \<notin> fst ` set xs \<and> p \<notin> fst ` set ys"
proof -
  from map_of_split [OF assms(2)] obtain xs ys where m: "m = xs @ (p, lv) # ys" by blast
  with assms(1) show ?thesis
    by (intro exI [of _ xs] exI [of _ ys])
      (auto simp: levels_ok_append levels_ok_Cons ahead_irrefl image_iff; metis ahead_irrefl fst_conv)
qed

text \<open>Every cell is at or ahead of the level of a later cell.\<close>

lemma cells_sorted:
  assumes "levels_ok ahead s m"
  shows "sorted_wrt (\<lambda>c d. \<not> ahead (o_price (snd d)) (o_price (snd c))) (cells m)"
  using assms
proof (induction m)
  case Nil
  then show ?case by simp
next
  case (Cons pl m)
  obtain p lv where pl: "pl = (p, lv)" by (cases pl)
  with Cons.prems have ok: "level_ok s p lv" "\<forall>q \<in> fst ` set m. ahead p q" "levels_ok ahead s m"
    by (auto simp: levels_ok_Cons)
  then have "\<forall>c \<in> set (orders lv). o_price (snd c) = p"
    by (auto simp: level_ok_def order_ok_def)
  moreover have "\<forall>c \<in> set (cells m). ahead p (o_price (snd c))"
    using ok levels_ok_cell(2) [OF ok(3)] by blast
  moreover have "sorted_wrt (\<lambda>c d. \<not> ahead (o_price (snd d)) (o_price (snd c))) cs"
    if "\<forall>c \<in> set cs. o_price (snd c) = p" for cs
    using that by (induction cs) (auto simp: ahead_irrefl)
  ultimately show ?case using Cons.IH [OF ok(3)] pl
    by (auto simp: sorted_wrt_append dest: ahead_asym)
qed

lemma add_to_levels_cells:
  assumes "levels_ok ahead s m"
  shows "cells (add_to_levels ahead n ord m) =
     filter (\<lambda>c. \<not> ahead (o_price ord) (o_price (snd c))) (cells m) @ (n, ord) #
     filter (\<lambda>c. ahead (o_price ord) (o_price (snd c))) (cells m)"
  using assms
proof (induction m)
  case Nil
  then show ?case by (simp add: add_to_levels_def push_back_order_def empty_level_def)
next
  case (Cons pl m)
  obtain p lv where pl: "pl = (p, lv)" by (cases pl)
  with Cons.prems have ok: "level_ok s p lv" "\<forall>q \<in> fst ` set m. ahead p q" "levels_ok ahead s m"
    by (auto simp: levels_ok_Cons)
  then have own: "\<forall>c \<in> set (orders lv). o_price (snd c) = p"
    by (auto simp: level_ok_def order_ok_def)
  have rest: "\<forall>c \<in> set (cells m). ahead p (o_price (snd c))"
    using ok levels_ok_cell(2) [OF ok(3)] by blast
  consider "o_price ord = p" | "ahead (o_price ord) p" "o_price ord \<noteq> p"
    | "ahead p (o_price ord)" "o_price ord \<noteq> p" "\<not> ahead (o_price ord) p"
    using ahead_total ahead_asym by blast
  then show ?case
  proof cases
    case 1
    with own rest pl show ?thesis
      by (simp add: add_to_levels_def push_back_order_def ahead_irrefl filter_empty_conv
          filter_id_conv ahead_asym)
  next
    case 2
    then have "\<forall>c \<in> set (cells m). ahead (o_price ord) (o_price (snd c))"
      using rest ahead_trans by blast
    with 2 own pl show ?thesis
      by (simp add: add_to_levels_def push_back_order_def empty_level_def filter_empty_conv
          filter_id_conv)
  next
    case 3
    with Cons.IH [OF ok(3)] own pl show ?thesis
      by (simp add: add_to_levels_def filter_empty_conv filter_id_conv)
  qed
qed

lemma add_to_levels_mset:
  assumes "levels_ok ahead s m"
  shows "mset (cells (add_to_levels ahead n ord m)) = add_mset (n, ord) (mset (cells m))"
  using multiset_partition [of "mset (cells m)" "\<lambda>c. ahead (o_price ord) (o_price (snd c))"]
  by (simp add: add_to_levels_cells [OF assms] add.commute)

lemma add_to_levels_ok:
  assumes "levels_ok ahead s m" and "order_ok s (o_price ord) ord"
    and "\<forall>c \<in> set (cells m). o_sequence (snd c) \<le> o_sequence ord"
  shows "levels_ok ahead s (add_to_levels ahead n ord m) \<and>
    fst ` set (add_to_levels ahead n ord m) = insert (o_price ord) (fst ` set m)"
  using assms
proof (induction m)
  case Nil
  then show ?case
    by (auto simp: add_to_levels_def levels_ok_Cons empty_level_def intro!: level_ok_push_back)
next
  case (Cons pl m)
  obtain p lv where pl: "pl = (p, lv)" by (cases pl)
  with Cons.prems have ok: "level_ok s p lv" "\<forall>q \<in> fst ` set m. ahead p q" "levels_ok ahead s m"
    by (auto simp: levels_ok_Cons)
  have IH: "levels_ok ahead s (add_to_levels ahead n ord m) \<and>
    fst ` set (add_to_levels ahead n ord m) = insert (o_price ord) (fst ` set m)"
    using Cons.IH [OF ok(3) Cons.prems(2)] Cons.prems(3) by simp
  consider "o_price ord = p" | "ahead (o_price ord) p" "o_price ord \<noteq> p"
    | "ahead p (o_price ord)" "o_price ord \<noteq> p" "\<not> ahead (o_price ord) p"
    using ahead_total ahead_asym by blast
  then show ?case
  proof cases
    case 1
    then have "level_ok s p (push_back_order n ord lv)"
      using ok(1) Cons.prems(2,3) pl by (intro level_ok_push_back) auto
    with 1 ok pl show ?thesis by (simp add: add_to_levels_def levels_ok_Cons)
  next
    case 2
    have "level_ok s (o_price ord) (push_back_order n ord empty_level)"
      using Cons.prems(2) by (intro level_ok_push_back) (auto simp: empty_level_def)
    moreover have "\<forall>q \<in> insert p (fst ` set m). ahead (o_price ord) q"
      using 2 ok(2) ahead_trans by blast
    ultimately show ?thesis using 2 ok pl
      by (simp add: add_to_levels_def levels_ok_Cons)
  next
    case 3
    then have "add_to_levels ahead n ord (pl # m) = pl # add_to_levels ahead n ord m"
      using pl by (simp add: add_to_levels_def)
    with IH 3 ok pl show ?thesis by (auto simp: levels_ok_Cons)
  qed
qed

text \<open>Cancelling the order in a cell removes exactly that cell.\<close>

lemma cancel_in_levels_ok:
  assumes ok: "levels_ok ahead s m" and nodes: "distinct (map fst (cells m))"
    and c: "(n, ord) \<in> set (cells m)"
  shows "\<exists>m'. cancel_in_levels (o_price ord) n m = Some m' \<and> levels_ok ahead s m' \<and>
    cells m' = filter (\<lambda>d. fst d \<noteq> n) (cells m)"
proof -
  define p where "p = o_price ord"
  from levels_ok_cell(2) [OF ok c] have "p \<in> fst ` set m" by (simp add: p_def)
  then obtain lv where lv: "map_of m p = Some lv"
    by (metis domIff dom_map_of_conv_image_fst option.exhaust)
  from level_at [OF ok lv] obtain xs ys where m: "m = xs @ (p, lv) # ys"
    and bx: "\<forall>q \<in> fst ` set xs. ahead q p" and by': "\<forall>q \<in> fst ` set ys. ahead p q"
    and nx: "p \<notin> fst ` set xs" and ny: "p \<notin> fst ` set ys" by blast
  from ok m have okx: "levels_ok ahead s xs" and oky: "levels_ok ahead s ys"
    and okl: "level_ok s p lv"
    and xy: "\<forall>q \<in> fst ` set xs. \<forall>r \<in> fst ` set ys. ahead q r"
    by (auto simp: levels_ok_append levels_ok_Cons)
  have "(n, ord) \<notin> set (cells xs)" "(n, ord) \<notin> set (cells ys)"
    using levels_ok_cell(2) [OF okx, of "(n, ord)"] levels_ok_cell(2) [OF oky, of "(n, ord)"] nx ny
    by (auto simp: p_def)
  with c m have mem: "(n, ord) \<in> set (orders lv)" by simp
  have dl: "distinct (map fst (orders lv))" using nodes m by simp
  with mem have look: "map_of (orders lv) n = Some ord" by simp
  have "n \<in> fst ` set (orders lv)" using mem by force
  with nodes m have "n \<notin> fst ` set (cells xs)" "n \<notin> fst ` set (cells ys)" by auto
  then have fx: "filter (\<lambda>d. fst d \<noteq> n) (cells xs) = cells xs"
    and fy: "filter (\<lambda>d. fst d \<noteq> n) (cells ys) = cells ys"
    by (simp_all add: delete_absent flip: delete_filter)
  have upd: "AList.map_entry p (erase_cell n ord) m = xs @ (p, erase_cell n ord lv) # ys"
    using m nx by (simp add: map_entry_split)
  have find: "map_of (xs @ (p, erase_cell n ord lv) # ys) p = Some (erase_cell n ord lv)"
    using nx by (simp add: map_add_Some_iff map_of_eq_None_iff)
  show ?thesis
  proof (cases "AList.delete n (orders lv) = []")
    case True
    then have "cancel_in_levels p n m = Some (xs @ ys)"
      using lv look upd find nx ny
      by (simp add: cancel_in_levels_def eraseLevelIfEmpty_def erase_cell_def delete_absent)
    moreover have "levels_ok ahead s (xs @ ys)"
      using okx oky xy by (simp add: levels_ok_append)
    moreover have "cells (xs @ ys) = filter (\<lambda>d. fst d \<noteq> n) (cells m)"
      using True m fx fy by (simp add: delete_filter)
    ultimately show ?thesis by (auto simp: p_def)
  next
    case False
    then have "cancel_in_levels p n m = Some (xs @ (p, erase_cell n ord lv) # ys)"
      using lv look upd find
      by (simp add: cancel_in_levels_def eraseLevelIfEmpty_def erase_cell_def)
    moreover have "levels_ok ahead s (xs @ (p, erase_cell n ord lv) # ys)"
      using okx oky xy bx by' level_ok_erase_cell [OF okl dl look False]
      by (auto simp: levels_ok_append levels_ok_Cons)
    moreover have "cells (xs @ (p, erase_cell n ord lv) # ys) = filter (\<lambda>d. fst d \<noteq> n) (cells m)"
      using m fx fy by (simp add: delete_filter erase_cell_def)
    ultimately show ?thesis by (auto simp: p_def)
  qed
qed

text \<open>Reducing the front order touches the first cell only.\<close>

lemma reduce_front_levels_ok:
  assumes ok: "levels_ok ahead s m" and c: "cells m = (n, ord) # cs" and q: "qty \<le> o_quantity ord"
  shows "\<exists>m'. reduce_front_levels qty m =
      Some (m', if qty = o_quantity ord then Some (o_id ord) else None) \<and>
    levels_ok ahead s m' \<and>
    cells m' = (if qty = o_quantity ord then cs
                else (n, ord\<lparr>o_quantity := o_quantity ord - qty\<rparr>) # cs)"
proof -
  from c obtain p lv ms where m: "m = (p, lv) # ms" by (cases m) auto
  with ok have okl: "level_ok s p lv" and okm: "levels_ok ahead s ms"
    and bp: "\<forall>r \<in> fst ` set ms. ahead p r" by (auto simp: levels_ok_Cons)
  then have "orders lv \<noteq> []" by (simp add: level_ok_def)
  with c m obtain ds where ds: "orders lv = (n, ord) # ds" "cs = ds @ cells ms"
    by (cases "orders lv") auto
  have pm: "p \<notin> fst ` set ms" using bp ahead_irrefl by auto
  show ?thesis
  proof (cases "qty = o_quantity ord")
    case True
    with okl ds have lok: "ds \<noteq> [] \<Longrightarrow>
        level_ok s p (lv\<lparr>total_quantity := total_quantity lv - ucast qty, orders := ds\<rparr>)"
      by (auto simp: level_ok_def)
    show ?thesis using True m ds okm bp pm lok
      by (simp add: reduce_front_levels_def Let_def eraseLevelIfEmpty_def levels_ok_Cons
          delete_absent)
  next
    case False
    with q have "o_quantity ord - qty \<noteq> 0" by simp
    moreover have "(ucast (o_quantity ord - qty) :: u64) = ucast (o_quantity ord) - ucast qty"
      using q by (intro word_unat_eq_iff [THEN iffD2]) (simp add: unat_sub word_le_nat_alt)
    ultimately have "level_ok s p (lv\<lparr>orders := (n, ord\<lparr>o_quantity := o_quantity ord - qty\<rparr>) # ds,
        total_quantity := total_quantity lv - ucast qty\<rparr>)"
      using okl ds by (auto simp: level_ok_def order_ok_def)
    then show ?thesis using False q m ds okm bp
      by (simp add: reduce_front_levels_def Let_def levels_ok_Cons)
  qed
qed

text \<open>
  The capped sum of \<open>executableQuantity\<close> is exact when the quantities of the side do not overflow
  64 bits and the break test selects a tail of the levels.
\<close>

lemma executable_levels_exact:
  assumes "levels_ok ahead s m" and "\<And>p q. stop p \<Longrightarrow> ahead p q \<Longrightarrow> stop q"
    and "qsum (cells m) < 2 ^ 64" and "tot < cap"
  shows "unat (executable_levels stop cap tot m) =
    min (unat cap) (unat tot + qsum (filter (\<lambda>c. \<not> stop (o_price (snd c))) (cells m)))"
  using assms(1,3,4)
proof (induction m arbitrary: tot)
  case Nil
  then show ?case by (simp add: word_less_nat_alt)
next
  case (Cons pl m)
  obtain p lv where pl: "pl = (p, lv)" by (cases pl)
  with Cons.prems(1) have ok: "level_ok s p lv" "\<forall>q \<in> fst ` set m. ahead p q"
    "levels_ok ahead s m" by (auto simp: levels_ok_Cons)
  then have own: "\<forall>c \<in> set (orders lv). o_price (snd c) = p"
    by (auto simp: level_ok_def order_ok_def)
  have rest: "\<forall>c \<in> set (cells m). ahead p (o_price (snd c))"
    using ok levels_ok_cell(2) [OF ok(3)] by blast
  have small: "qsum (orders lv) < 2 ^ 64" "qsum (cells m) < 2 ^ 64" using Cons.prems(2) pl by auto
  then have lvt: "unat (total_quantity lv) = qsum (orders lv)"
    using ok(1) by (simp add: level_ok_def unat_level_sum)
  show ?case
  proof (cases "stop p")
    case True
    then have "filter (\<lambda>c. \<not> stop (o_price (snd c))) (cells (pl # m)) = []"
      using own rest pl assms(2) by (auto simp: filter_empty_conv)
    with True pl Cons.prems(3) show ?thesis by (simp add: word_less_nat_alt)
  next
    case False
    define tot' where "tot' = tot + min (total_quantity lv) (cap - tot)"
    have lt: "unat tot < unat cap" using Cons.prems(3) by (simp add: word_less_nat_alt)
    have "unat (cap - tot) = unat cap - unat tot"
      using lt by (simp add: unat_sub word_le_nat_alt)
    then have "unat tot + unat (min (total_quantity lv) (cap - tot)) \<le> unat cap"
      using lt by (simp add: unat_min)
    then have "unat tot' = unat tot + unat (min (total_quantity lv) (cap - tot))"
      unfolding tot'_def by (intro unat_add_le [where c = cap])
    then have tot': "unat tot' = min (unat cap) (unat tot + qsum (orders lv))"
      using lt \<open>unat (cap - tot) = _\<close> by (simp add: unat_min lvt)
    have fl: "filter (\<lambda>c. \<not> stop (o_price (snd c))) (cells (pl # m)) =
        orders lv @ filter (\<lambda>c. \<not> stop (o_price (snd c))) (cells m)"
      using False own pl by (simp add: filter_id_conv)
    show ?thesis
    proof (cases "tot' = cap")
      case True
      with tot' fl False pl show ?thesis by (simp add: Let_def flip: tot'_def)
    next
      case neq: False
      with tot' have "tot' < cap" "unat tot' = unat tot + qsum (orders lv)"
        by (auto simp: word_less_nat_alt word_unat_eq_iff min_def split: if_splits)
      with Cons.IH [OF ok(3) small(2), of tot'] fl False neq pl show ?thesis
        by (simp add: Let_def flip: tot'_def)
    qed
  qed
qed

end

text \<open>The comparator of a side's map: \<open>std::greater\<close> for \<open>BUY\<close>, \<open>std::less\<close> otherwise.\<close>

definition ahead_of :: "Side \<Rightarrow> int \<Rightarrow> int \<Rightarrow> bool" where
  "ahead_of s = (if s = BUY then (>) else (<))"

lemma ahead_of_simps [simp]: "ahead_of BUY = (>)" "ahead_of SELL = (<)"
  by (simp_all add: ahead_of_def)

interpretation side_order: price_order "ahead_of s" for s
  by unfold_locales (auto simp: ahead_of_def)

end
