(* ===== verification/Order_Book.thy ===== *)
theory Order_Book
  imports Price_Levels
begin

text \<open>
  The limit order book of \<open>include/order_book.hpp\<close> and \<open>src/order_book.cpp\<close>: the record
  \<open>OrderBook\<close> holds the two price maps and the id index, and there is one function per member
  function. \<^const>\<open>None\<close> as the outcome of an operation is undefined behaviour of the code: a failed
  \<open>assert\<close>, a dangling list iterator, or \<open>front()\<close> of an empty list. The invariant \<open>book_ok\<close> rules
  all of them out, and every operation keeps it.

  \<open>next_node\<close> numbers the list nodes: \<open>push_back\<close> makes a new node, and an iterator is its node.
  Container sizes are natural numbers.
\<close>

section \<open>State\<close>

record OrderLocation =
  loc_side :: Side
  loc_price :: int
  loc_order_it :: node

record OrderBook =
  buy_levels :: levels
  sell_levels :: levels
  locations :: "(u64 \<times> OrderLocation) list"
  next_node :: node

record LevelSnapshot =
  ls_price :: int
  ls_total_quantity :: u64
  ls_order_count :: nat

definition empty_book :: OrderBook where
  "empty_book = \<lparr>buy_levels = [], sell_levels = [], locations = [], next_node = 0\<rparr>"

definition all_cells :: "OrderBook \<Rightarrow> cell list" where
  "all_cells b = cells (buy_levels b) @ cells (sell_levels b)"

section \<open>Operations\<close>

definition contains :: "OrderBook \<Rightarrow> u64 \<Rightarrow> bool" where
  "contains b i \<longleftrightarrow> map_of (locations b) i \<noteq> None"

text \<open>\<open>emplace\<close> into the id index; a present key makes the assertion after it fail.\<close>

definition emplace_location :: "u64 \<Rightarrow> OrderLocation \<Rightarrow> OrderBook \<Rightarrow> OrderBook option" where
  "emplace_location i loc b =
     (if map_of (locations b) i = None then Some (b\<lparr>locations := (i, loc) # locations b\<rparr>)
      else None)"

definition addOrder :: "OrderBook \<Rightarrow> Order \<Rightarrow> (bool \<times> OrderBook) option" where
  "addOrder b ord =
     (if o_id ord = 0 \<or> o_quantity ord = 0 \<or> o_price ord \<le> 0 \<or> o_type ord \<noteq> LIMIT \<or>
         contains b (o_id ord)
      then Some (False, b)
      else if o_side ord = BUY then
        let n = next_node b;
            b' = b\<lparr>buy_levels := add_to_levels (>) n ord (buy_levels b), next_node := n + 1\<rparr>;
            loc = \<lparr>loc_side = BUY, loc_price = o_price ord, loc_order_it = n\<rparr>
        in map_option (Pair True) (emplace_location (o_id ord) loc b')
      else if o_side ord = SELL then
        let n = next_node b;
            b' = b\<lparr>sell_levels := add_to_levels (<) n ord (sell_levels b), next_node := n + 1\<rparr>;
            loc = \<lparr>loc_side = SELL, loc_price = o_price ord, loc_order_it = n\<rparr>
        in map_option (Pair True) (emplace_location (o_id ord) loc b')
      else Some (False, b))"

text \<open>
  \<open>cancelOrder(order_id, canceled_order)\<close>: the outcome holds the cancelled order (what the code
  writes through the pointer) when it returns true.
\<close>

definition cancelOrder :: "OrderBook \<Rightarrow> u64 \<Rightarrow> (Order option \<times> OrderBook) option" where
  "cancelOrder b i =
     (case map_of (locations b) i of
        None \<Rightarrow> Some (None, b)
      | Some loc \<Rightarrow>
          (case map_of (all_cells b) (loc_order_it loc) of
             None \<Rightarrow> None
           | Some canceled \<Rightarrow>
               let b' = b\<lparr>locations := AList.delete i (locations b)\<rparr>
               in if loc_side loc = BUY
                  then (case cancel_in_levels (loc_price loc) (loc_order_it loc) (buy_levels b') of
                          None \<Rightarrow> None
                        | Some m \<Rightarrow> Some (Some canceled, b'\<lparr>buy_levels := m\<rparr>))
                  else (case cancel_in_levels (loc_price loc) (loc_order_it loc) (sell_levels b') of
                          None \<Rightarrow> None
                        | Some m \<Rightarrow> Some (Some canceled, b'\<lparr>sell_levels := m\<rparr>))))"

definition cancelOrder_bool :: "OrderBook \<Rightarrow> u64 \<Rightarrow> (bool \<times> OrderBook) option" where
  "cancelOrder_bool b i = map_option (\<lambda>(c, b'). (c \<noteq> None, b')) (cancelOrder b i)"

definition bestBid :: "OrderBook \<Rightarrow> int option" where
  "bestBid b = (case buy_levels b of [] \<Rightarrow> None | (p, _) # _ \<Rightarrow> Some p)"

definition bestAsk :: "OrderBook \<Rightarrow> int option" where
  "bestAsk b = (case sell_levels b of [] \<Rightarrow> None | (p, _) # _ \<Rightarrow> Some p)"

definition spread :: "OrderBook \<Rightarrow> int option" where
  "spread b =
     (case (bestBid b, bestAsk b) of
        (Some bid, Some ask) \<Rightarrow> Some (ask - bid)
      | _ \<Rightarrow> None)"

definition depth :: "OrderBook \<Rightarrow> Side \<Rightarrow> nat" where
  "depth b s = (if s = BUY then length (buy_levels b) else length (sell_levels b))"

definition empty :: "OrderBook \<Rightarrow> bool" where
  "empty b \<longleftrightarrow> buy_levels b = [] \<and> sell_levels b = []"

definition emptySide :: "OrderBook \<Rightarrow> Side \<Rightarrow> bool" where
  "emptySide b s \<longleftrightarrow> (if s = BUY then buy_levels b = [] else sell_levels b = [])"

definition orderCount :: "OrderBook \<Rightarrow> nat" where
  "orderCount b = length (locations b)"

text \<open>\<open>Some None\<close> is the null pointer of an empty side, \<open>None\<close> the \<open>front()\<close> of an empty list.\<close>

definition front_of_levels :: "levels \<Rightarrow> Order option option" where
  "front_of_levels m =
     (case m of
        [] \<Rightarrow> Some None
      | (p, lv) # _ \<Rightarrow> (case orders lv of [] \<Rightarrow> None | (n, ord) # _ \<Rightarrow> Some (Some ord)))"

definition frontOfBest :: "OrderBook \<Rightarrow> Side \<Rightarrow> Order option option" where
  "frontOfBest b s =
     (if s = BUY then front_of_levels (buy_levels b) else front_of_levels (sell_levels b))"

definition erase_location :: "u64 option \<Rightarrow> OrderBook \<Rightarrow> OrderBook" where
  "erase_location gone b =
     (case gone of None \<Rightarrow> b | Some i \<Rightarrow> b\<lparr>locations := AList.delete i (locations b)\<rparr>)"

definition reduceFront :: "OrderBook \<Rightarrow> Side \<Rightarrow> u32 \<Rightarrow> OrderBook option" where
  "reduceFront b s qty =
     (if s = BUY
      then (case reduce_front_levels qty (buy_levels b) of
              None \<Rightarrow> None
            | Some (m, gone) \<Rightarrow> Some (erase_location gone (b\<lparr>buy_levels := m\<rparr>)))
      else (case reduce_front_levels qty (sell_levels b) of
              None \<Rightarrow> None
            | Some (m, gone) \<Rightarrow> Some (erase_location gone (b\<lparr>sell_levels := m\<rparr>))))"

definition opposite :: "Side \<Rightarrow> Side" where
  "opposite s = (if s = BUY then SELL else BUY)"

definition wouldCross :: "OrderBook \<Rightarrow> Order \<Rightarrow> bool option" where
  "wouldCross b inc =
     (if \<not> isValidSide (o_side inc) \<or> \<not> isValidOrderType (o_type inc) then Some False
      else
        (case frontOfBest b (opposite (o_side inc)) of
           None \<Rightarrow> None
         | Some None \<Rightarrow> Some False
         | Some (Some best) \<Rightarrow>
             if o_type inc = MARKET then Some True
             else Some (if o_side inc = BUY then o_price best \<le> o_price inc
                        else o_price inc \<le> o_price best)))"

definition executableQuantity :: "OrderBook \<Rightarrow> Order \<Rightarrow> u64 \<Rightarrow> u64" where
  "executableQuantity b inc cap =
     (if cap = 0 \<or> \<not> isValidSide (o_side inc) \<or> \<not> isValidOrderType (o_type inc) then 0
      else if o_side inc = BUY
      then executable_levels (\<lambda>p. o_type inc = LIMIT \<and> o_price inc < p) cap 0 (sell_levels b)
      else executable_levels (\<lambda>p. o_type inc = LIMIT \<and> p < o_price inc) cap 0 (buy_levels b))"

fun top_levels_loop :: "nat \<Rightarrow> LevelSnapshot list \<Rightarrow> levels \<Rightarrow> LevelSnapshot list" where
  "top_levels_loop max_levels out [] = out"
| "top_levels_loop max_levels out ((p, lv) # m) =
     (if length out = max_levels then out
      else top_levels_loop max_levels
             (out @ [\<lparr>ls_price = p, ls_total_quantity = total_quantity lv,
                      ls_order_count = length (orders lv)\<rparr>]) m)"

definition topLevels :: "OrderBook \<Rightarrow> Side \<Rightarrow> nat \<Rightarrow> LevelSnapshot list" where
  "topLevels b s max_levels =
     (if s = BUY then top_levels_loop max_levels [] (buy_levels b)
      else top_levels_loop max_levels [] (sell_levels b))"

section \<open>The self-check\<close>

text \<open>
  \<open>checkInvariants\<close>: its lambda \<open>check_level\<close> updates the count and the set of ids seen so far, which
  are threaded through here; \<^const>\<open>None\<close> is the early \<open>return false\<close>.
\<close>

type_synonym seen = "u64 \<times> u64 set"

fun check_orders ::
  "OrderBook \<Rightarrow> Side \<Rightarrow> int \<Rightarrow> bool \<Rightarrow> u64 \<Rightarrow> u64 \<Rightarrow> seen \<Rightarrow> cell list \<Rightarrow> (u64 \<times> seen) option" where
  "check_orders b s p first previous_sequence tot seen [] = Some (tot, seen)"
| "check_orders b s p first previous_sequence tot (seen_orders, seen_ids) ((n, ord) # cs) =
     (if o_id ord = 0 \<or> o_quantity ord = 0 \<or> o_price ord \<noteq> p \<or> o_side ord \<noteq> s \<or> o_type ord \<noteq> LIMIT
      then None
      else if \<not> first \<and> o_sequence ord < previous_sequence then None
      else if o_id ord \<in> seen_ids then None
      else
        (case map_of (locations b) (o_id ord) of
           None \<Rightarrow> None
         | Some loc \<Rightarrow>
             if loc_side loc \<noteq> s \<or> loc_price loc \<noteq> p \<or> loc_order_it loc \<noteq> n then None
             else check_orders b s p False (o_sequence ord) (tot + ucast (o_quantity ord))
                    (seen_orders + 1, insert (o_id ord) seen_ids) cs))"

definition check_level :: "OrderBook \<Rightarrow> Side \<Rightarrow> int \<Rightarrow> PriceLevel \<Rightarrow> seen \<Rightarrow> seen option" where
  "check_level b s p lv seen =
     (if orders lv = [] then None
      else
        (case check_orders b s p True 0 0 seen (orders lv) of
           None \<Rightarrow> None
         | Some (tot, seen') \<Rightarrow> if tot = total_quantity lv then Some seen' else None))"

fun check_levels ::
  "OrderBook \<Rightarrow> Side \<Rightarrow> (int \<Rightarrow> int \<Rightarrow> bool) \<Rightarrow> bool \<Rightarrow> int \<Rightarrow> seen \<Rightarrow> levels \<Rightarrow> (int \<times> seen) option" where
  "check_levels b s misplaced first_level previous_price seen [] = Some (previous_price, seen)"
| "check_levels b s misplaced first_level previous_price seen ((p, lv) # m) =
     (if \<not> first_level \<and> misplaced p previous_price then None
      else
        (case check_level b s p lv seen of
           None \<Rightarrow> None
         | Some seen' \<Rightarrow> check_levels b s misplaced False p seen' m))"

definition checkInvariants :: "OrderBook \<Rightarrow> bool" where
  "checkInvariants b =
     (if (case spread b of None \<Rightarrow> False | Some s \<Rightarrow> s \<le> 0) then False
      else
        (case check_levels b BUY (\<lambda>p q. q \<le> p) True 0 (0, {}) (buy_levels b) of
           None \<Rightarrow> False
         | Some (previous_price, seen) \<Rightarrow>
             (case check_levels b SELL (\<lambda>p q. p \<le> q) True previous_price seen (sell_levels b) of
                None \<Rightarrow> False
              | Some (_, (seen_orders, _)) \<Rightarrow> seen_orders = of_nat (length (locations b)))))"

section \<open>The invariant\<close>

definition loc_entry :: "cell \<Rightarrow> u64 \<times> OrderLocation" where
  "loc_entry c = (o_id (snd c),
     \<lparr>loc_side = o_side (snd c), loc_price = o_price (snd c), loc_order_it = fst c\<rparr>)"

definition index_ok :: "OrderBook \<Rightarrow> bool" where
  "index_ok b \<longleftrightarrow>
     mset (locations b) = image_mset loc_entry (mset (all_cells b)) \<and>
     distinct (map (o_id \<circ> snd) (all_cells b)) \<and>
     distinct (map fst (all_cells b)) \<and>
     (\<forall>c \<in> set (all_cells b). fst c < next_node b)"

definition book_ok :: "OrderBook \<Rightarrow> bool" where
  "book_ok b \<longleftrightarrow>
     levels_ok (ahead_of BUY) BUY (buy_levels b) \<and>
     levels_ok (ahead_of SELL) SELL (sell_levels b) \<and> index_ok b"

text \<open>The book is not crossed: every resting bid is below every resting ask.\<close>

definition uncrossed :: "OrderBook \<Rightarrow> bool" where
  "uncrossed b \<longleftrightarrow> (\<forall>x \<in> set (cells (buy_levels b)). \<forall>y \<in> set (cells (sell_levels b)).
     o_price (snd x) < o_price (snd y))"

text \<open>One side of the book, chosen the way the code chooses it.\<close>

definition levels_of :: "OrderBook \<Rightarrow> Side \<Rightarrow> levels" where
  "levels_of b s = (if s = BUY then buy_levels b else sell_levels b)"

definition with_levels :: "OrderBook \<Rightarrow> Side \<Rightarrow> levels \<Rightarrow> OrderBook" where
  "with_levels b s m = (if s = BUY then b\<lparr>buy_levels := m\<rparr> else b\<lparr>sell_levels := m\<rparr>)"

definition side_cells :: "OrderBook \<Rightarrow> Side \<Rightarrow> cell list" where
  "side_cells b s = cells (levels_of b s)"

lemma opposite_simps [simp]:
  "opposite BUY = SELL" "opposite SELL = BUY"
  "isValidSide (opposite s)" "isValidSide BUY" "isValidSide SELL"
  by (simp_all add: opposite_def isValidSide_def)

lemma isValidSide_cases [consumes 1, case_names BUY SELL]:
  "isValidSide s \<Longrightarrow> (s = BUY \<Longrightarrow> P) \<Longrightarrow> (s = SELL \<Longrightarrow> P) \<Longrightarrow> P"
  by (auto simp: isValidSide_def)

section \<open>The id index\<close>

lemma fst_loc_entry [simp]: "fst (loc_entry c) = o_id (snd c)"
  by (simp add: loc_entry_def)

lemma index_ok_locations:
  assumes "index_ok b"
  shows "set (locations b) = loc_entry ` set (all_cells b)" and "distinct (map fst (locations b))"
proof -
  from assms have m: "mset (locations b) = mset (map loc_entry (all_cells b))"
    by (simp add: index_ok_def)
  then show "set (locations b) = loc_entry ` set (all_cells b)" by (metis set_map set_mset_mset)
  from m have "mset (map fst (locations b)) = mset (map (o_id \<circ> snd) (all_cells b))"
    by (simp add: multiset.map_comp comp_def)
  then show "distinct (map fst (locations b))"
    using assms by (metis index_ok_def mset_eq_imp_distinct_iff)
qed

lemma index_ok_lookup:
  assumes "index_ok b"
  shows "map_of (locations b) i = Some loc \<longleftrightarrow> (\<exists>c \<in> set (all_cells b). loc_entry c = (i, loc))"
  using index_ok_locations [OF assms] by (simp add: map_of_eq_Some_iff image_iff) metis

lemma index_ok_contains:
  assumes "index_ok b"
  shows "contains b i \<longleftrightarrow> i \<in> (o_id \<circ> snd) ` set (all_cells b)"
proof -
  have "contains b i \<longleftrightarrow> i \<in> fst ` set (locations b)"
    by (simp add: contains_def map_of_eq_None_iff)
  also have "\<dots> \<longleftrightarrow> i \<in> (o_id \<circ> snd) ` set (all_cells b)"
    by (simp add: index_ok_locations(1) [OF assms] image_image)
  finally show ?thesis .
qed

lemma index_ok_orderCount: "index_ok b \<Longrightarrow> orderCount b = length (all_cells b)"
  by (metis index_ok_def orderCount_def size_image_mset size_mset)

lemma index_ok_add:
  assumes ok: "index_ok b" and new: "\<not> contains b (o_id ord)"
    and c': "mset (all_cells b') = add_mset (next_node b, ord) (mset (all_cells b))"
    and l': "locations b' = loc_entry (next_node b, ord) # locations b"
    and n': "next_node b' = next_node b + 1"
  shows "index_ok b'"
proof -
  from new ok have "o_id ord \<notin> (o_id \<circ> snd) ` set (all_cells b)" by (simp add: index_ok_contains)
  moreover have "next_node b \<notin> fst ` set (all_cells b)" using ok by (auto simp: index_ok_def)
  ultimately show ?thesis
    using ok l' n' set_add_mset [OF c'] unfolding index_ok_def
    by (auto simp: distinct_map_add_mset [OF c'] c' less_Suc_eq)
qed

lemma index_ok_remove:
  assumes ok: "index_ok b" and c: "mset (all_cells b) = add_mset c (mset (all_cells b'))"
    and l': "locations b' = AList.delete (o_id (snd c)) (locations b)"
    and n': "next_node b' = next_node b"
  shows "index_ok b'"
proof -
  have E: "mset (locations b) = add_mset (loc_entry c) (image_mset loc_entry (mset (all_cells b')))"
    using ok c by (simp add: index_ok_def)
  have "o_id (snd c) \<notin> (o_id \<circ> snd) ` set (all_cells b')"
    using ok distinct_map_add_mset [OF c, of "o_id \<circ> snd"] by (simp add: index_ok_def)
  then have "filter_mset (\<lambda>e. fst e \<noteq> o_id (snd c)) (image_mset loc_entry (mset (all_cells b'))) =
      image_mset loc_entry (mset (all_cells b'))"
    by (auto simp: filter_mset_eq_conv image_iff)
  then have "mset (locations b') = image_mset loc_entry (mset (all_cells b'))"
    using E by (simp add: l' delete_filter)
  then show ?thesis
    using ok n' set_add_mset [OF c] distinct_map_add_mset [OF c, of "o_id \<circ> snd"]
      distinct_map_add_mset [OF c, of fst] by (simp add: index_ok_def)
qed

lemma index_ok_same_entries:
  assumes ok: "index_ok b" and c: "map loc_entry (all_cells b') = map loc_entry (all_cells b)"
    and l': "locations b' = locations b" and n': "next_node b' = next_node b"
  shows "index_ok b'"
proof -
  have ids: "map (o_id \<circ> snd) (all_cells d) = map fst (map loc_entry (all_cells d))" for d
    by (simp add: comp_def)
  have nodes: "map fst (all_cells d) = map (loc_order_it \<circ> snd) (map loc_entry (all_cells d))" for d
    by (simp add: comp_def loc_entry_def)
  have n: "map fst (all_cells b') = map fst (all_cells b)" by (simp only: nodes c)
  moreover have "map (o_id \<circ> snd) (all_cells b') = map (o_id \<circ> snd) (all_cells b)"
    by (simp only: ids c)
  moreover have "fst ` set (all_cells b') = fst ` set (all_cells b)" by (metis n set_map)
  moreover have "image_mset loc_entry (mset (all_cells b')) = image_mset loc_entry (mset (all_cells b))"
    by (metis c mset_map)
  ultimately show ?thesis using ok l' n' unfolding index_ok_def by (metis image_iff)
qed

section \<open>Both sides at once\<close>

lemma levels_of_with_levels [simp]:
  "levels_of (with_levels b s m) s = m"
  "levels_of (with_levels b s m) (opposite s) = levels_of b (opposite s)"
  "locations (with_levels b s m) = locations b"
  "next_node (with_levels b s m) = next_node b"
  by (simp_all add: levels_of_def with_levels_def opposite_def)

lemma levels_of_update [simp]:
  "levels_of (b\<lparr>locations := l\<rparr>) s = levels_of b s"
  "levels_of (b\<lparr>next_node := n\<rparr>) s = levels_of b s"
  by (simp_all add: levels_of_def)

lemma all_cells_update [simp]:
  "all_cells (b\<lparr>locations := l\<rparr>) = all_cells b"
  "all_cells (b\<lparr>next_node := n\<rparr>) = all_cells b"
  by (simp_all add: all_cells_def)

lemma mset_all_cells: "mset (all_cells b) = mset (side_cells b s) + mset (side_cells b (opposite s))"
  by (simp add: all_cells_def side_cells_def levels_of_def opposite_def add.commute)

lemma set_all_cells: "set (all_cells b) = set (side_cells b s) \<union> set (side_cells b (opposite s))"
  by (auto simp: all_cells_def side_cells_def levels_of_def opposite_def)

lemma book_ok_iff:
  assumes "isValidSide s"
  shows "book_ok b \<longleftrightarrow> levels_ok (ahead_of s) s (levels_of b s) \<and>
    levels_ok (ahead_of (opposite s)) (opposite s) (levels_of b (opposite s)) \<and> index_ok b"
  using assms by (cases rule: isValidSide_cases) (auto simp: book_ok_def levels_of_def)

lemma book_ok_side: "book_ok b \<Longrightarrow> isValidSide s \<Longrightarrow> levels_ok (ahead_of s) s (levels_of b s)"
  by (simp add: book_ok_iff)

lemma book_ok_index: "book_ok b \<Longrightarrow> index_ok b"
  by (simp add: book_ok_def)

lemma book_ok_cell:
  assumes "book_ok b" and "isValidSide s" and "c \<in> set (side_cells b s)"
  shows "order_ok s (o_price (snd c)) (snd c)"
  using levels_ok_cell(1) [OF book_ok_side [OF assms(1,2)]] assms(3) by (simp add: side_cells_def)

lemma empty_book_ok: "book_ok empty_book"
  by (simp add: book_ok_def index_ok_def empty_book_def all_cells_def)

section \<open>Every operation keeps the invariant\<close>

definition insert_cell :: "Side \<Rightarrow> node \<Rightarrow> Order \<Rightarrow> cell list \<Rightarrow> cell list" where
  "insert_cell s n ord cs =
     filter (\<lambda>c. \<not> ahead_of s (o_price ord) (o_price (snd c))) cs @ (n, ord) #
     filter (\<lambda>c. ahead_of s (o_price ord) (o_price (snd c))) cs"

lemma addOrder_valid:
  assumes "order_ok s (o_price ord) ord" and "isValidSide s" and "\<not> contains b (o_id ord)"
  shows "addOrder b ord = Some (True,
    (with_levels b s (add_to_levels (ahead_of s) (next_node b) ord (levels_of b s)))
      \<lparr>next_node := next_node b + 1,
       locations := loc_entry (next_node b, ord) # locations b\<rparr>)"
  using assms(2)
  by (cases rule: isValidSide_cases)
    (use assms in \<open>auto simp: addOrder_def order_ok_def contains_def emplace_location_def
      loc_entry_def Let_def levels_of_def with_levels_def\<close>)

lemma addOrder_ok:
  assumes ok: "book_ok b" and ord: "order_ok s (o_price ord) ord" and v: "isValidSide s"
    and new: "\<not> contains b (o_id ord)"
    and sq: "\<forall>c \<in> set (all_cells b). o_sequence (snd c) \<le> o_sequence ord"
  shows "\<exists>b'. addOrder b ord = Some (True, b') \<and> book_ok b' \<and>
    side_cells b' s = insert_cell s (next_node b) ord (side_cells b s) \<and>
    side_cells b' (opposite s) = side_cells b (opposite s)"
proof -
  let ?m = "add_to_levels (ahead_of s) (next_node b) ord (levels_of b s)"
  define b' where "b' = (with_levels b s ?m)\<lparr>next_node := next_node b + 1,
    locations := loc_entry (next_node b, ord) # locations b\<rparr>"
  note lv = book_ok_side [OF ok v]
  have "mset (all_cells b') = add_mset (next_node b, ord) (mset (all_cells b))"
    using side_order.add_to_levels_mset [OF lv]
    by (simp add: mset_all_cells [of _ s] side_cells_def b'_def)
  then have "index_ok b'"
    by (intro index_ok_add [OF book_ok_index [OF ok] new]) (simp_all add: b'_def)
  moreover have "levels_ok (ahead_of s) s ?m"
    using side_order.add_to_levels_ok [OF lv ord] sq
    by (auto simp: set_all_cells [of _ s] side_cells_def)
  ultimately have "book_ok b'"
    using ok v by (simp add: book_ok_iff [OF v] b'_def)
  then show ?thesis
    using addOrder_valid [OF ord v new] side_order.add_to_levels_cells [OF lv]
    by (simp add: b'_def insert_cell_def side_cells_def)
qed

lemma cancelOrder_absent: "\<not> contains b i \<Longrightarrow> cancelOrder b i = Some (None, b)"
  by (simp add: cancelOrder_def contains_def)

lemma filter_out_node:
  assumes "distinct (map fst cs)" and "c \<in> set cs"
  shows "mset cs = add_mset c (mset (filter (\<lambda>d. fst d \<noteq> fst c) cs))"
proof -
  obtain n ord where c: "c = (n, ord)" by (cases c)
  with assms have "map_of cs n = Some ord" by simp
  from map_of_split [OF this] obtain xs ys where cs: "cs = xs @ (n, ord) # ys" by blast
  with assms(1) have "n \<notin> fst ` set xs" "n \<notin> fst ` set ys" by auto
  then show ?thesis by (simp add: c cs delete_absent flip: delete_filter)
qed

lemma cancelOrder_present:
  assumes ok: "book_ok b" and v: "isValidSide s" and c: "c \<in> set (side_cells b s)"
    and m: "cancel_in_levels (o_price (snd c)) (fst c) (levels_of b s) = Some m"
  shows "cancelOrder b (o_id (snd c)) = Some (Some (snd c),
    with_levels (b\<lparr>locations := AList.delete (o_id (snd c)) (locations b)\<rparr>) s m)"
proof -
  have mem: "c \<in> set (all_cells b)" using c by (simp add: set_all_cells [of _ s])
  have "distinct (map fst (all_cells b))" using ok by (simp add: book_ok_def index_ok_def)
  with mem have deref: "map_of (all_cells b) (fst c) = Some (snd c)" by simp
  have look: "map_of (locations b) (o_id (snd c)) = Some (snd (loc_entry c))"
    using index_ok_lookup [OF book_ok_index [OF ok]] mem
    by (metis fst_loc_entry prod.collapse)
  have "o_side (snd c) = s" using book_ok_cell [OF ok v c] by (simp add: order_ok_def)
  with v look deref m show ?thesis
    by (cases rule: isValidSide_cases)
      (auto simp: cancelOrder_def loc_entry_def Let_def levels_of_def with_levels_def)
qed

lemma cancelOrder_ok:
  assumes ok: "book_ok b" and v: "isValidSide s" and c: "c \<in> set (side_cells b s)"
  shows "\<exists>b'. cancelOrder b (o_id (snd c)) = Some (Some (snd c), b') \<and> book_ok b' \<and>
    side_cells b' s = filter (\<lambda>d. fst d \<noteq> fst c) (side_cells b s) \<and>
    side_cells b' (opposite s) = side_cells b (opposite s)"
proof -
  note lv = book_ok_side [OF ok v]
  have "distinct (map fst (all_cells b))" using ok by (simp add: book_ok_def index_ok_def)
  then have nodes: "distinct (map fst (side_cells b s))"
    by (auto simp: all_cells_def side_cells_def levels_of_def)
  with side_order.cancel_in_levels_ok [OF lv, of "fst c" "snd c"] c obtain m
    where m: "cancel_in_levels (o_price (snd c)) (fst c) (levels_of b s) = Some m"
      "levels_ok (ahead_of s) s m" "cells m = filter (\<lambda>d. fst d \<noteq> fst c) (side_cells b s)"
    by (auto simp: side_cells_def)
  define b' where "b' = with_levels (b\<lparr>locations := AList.delete (o_id (snd c)) (locations b)\<rparr>) s m"
  have "mset (all_cells b) = add_mset c (mset (all_cells b'))"
    using filter_out_node [OF nodes c] m(3)
    by (simp add: mset_all_cells [of _ s] side_cells_def b'_def)
  then have "index_ok b'"
    by (intro index_ok_remove [OF book_ok_index [OF ok]]) (simp_all add: b'_def)
  then have "book_ok b'" using ok m(2) by (simp add: book_ok_iff [OF v] b'_def)
  then show ?thesis
    using cancelOrder_present [OF ok v c m(1)] m(3) by (simp add: b'_def side_cells_def)
qed

lemma reduceFront_side:
  "isValidSide s \<Longrightarrow> reduceFront b s qty =
     (case reduce_front_levels qty (levels_of b s) of
        None \<Rightarrow> None
      | Some (m, gone) \<Rightarrow> Some (erase_location gone (with_levels b s m)))"
  by (auto simp: reduceFront_def levels_of_def with_levels_def split: option.splits)

lemma reduceFront_ok:
  assumes ok: "book_ok b" and v: "isValidSide s" and c: "side_cells b s = (n, ord) # cs"
    and q: "qty \<le> o_quantity ord"
  shows "\<exists>b'. reduceFront b s qty = Some b' \<and> book_ok b' \<and>
    side_cells b' s = (if qty = o_quantity ord then cs
                       else (n, ord\<lparr>o_quantity := o_quantity ord - qty\<rparr>) # cs) \<and>
    side_cells b' (opposite s) = side_cells b (opposite s)"
proof -
  note lv = book_ok_side [OF ok v]
  from side_order.reduce_front_levels_ok [OF lv c [unfolded side_cells_def] q] obtain m
    where m: "reduce_front_levels qty (levels_of b s) =
        Some (m, if qty = o_quantity ord then Some (o_id ord) else None)"
      "levels_ok (ahead_of s) s m"
      "cells m = (if qty = o_quantity ord then cs
                  else (n, ord\<lparr>o_quantity := o_quantity ord - qty\<rparr>) # cs)" by blast
  define b' where "b' = erase_location (if qty = o_quantity ord then Some (o_id ord) else None)
    (with_levels b s m)"
  have side: "levels_of b' s = m" "levels_of b' (opposite s) = levels_of b (opposite s)"
    by (simp_all add: b'_def erase_location_def)
  have "index_ok b'"
  proof (cases "qty = o_quantity ord")
    case True
    then have "mset (all_cells b) = add_mset (n, ord) (mset (all_cells b'))"
      using side m(3) c by (simp add: mset_all_cells [of _ s] side_cells_def)
    from index_ok_remove [OF book_ok_index [OF ok] this] True show ?thesis
      by (simp add: b'_def erase_location_def)
  next
    case False
    then have "map loc_entry (all_cells b') = map loc_entry (all_cells b)"
      using side m(3) c
      by (auto simp: all_cells_def side_cells_def levels_of_def loc_entry_def opposite_def
          split: if_splits)
    then show ?thesis using False
      by (intro index_ok_same_entries [OF book_ok_index [OF ok]]) (simp_all add: b'_def erase_location_def)
  qed
  then have "book_ok b'" using ok m(2) side by (simp add: book_ok_iff [OF v])
  then show ?thesis
    using m side by (simp add: reduceFront_side [OF v] side_cells_def flip: b'_def)
qed

lemma frontOfBest_ok:
  assumes "book_ok b" and "isValidSide s"
  shows "frontOfBest b s =
    Some (case side_cells b s of [] \<Rightarrow> None | (n, ord) # _ \<Rightarrow> Some ord)"
    and "emptySide b s \<longleftrightarrow> side_cells b s = []"
proof -
  have f: "frontOfBest b s = front_of_levels (levels_of b s)"
    and e: "emptySide b s \<longleftrightarrow> levels_of b s = []"
    by (simp_all add: frontOfBest_def emptySide_def levels_of_def)
  note lv = book_ok_side [OF assms]
  show "emptySide b s \<longleftrightarrow> side_cells b s = []"
    using levels_ok_Nil_iff [OF lv] e by (simp add: side_cells_def)
  show "frontOfBest b s = Some (case side_cells b s of [] \<Rightarrow> None | (n, ord) # _ \<Rightarrow> Some ord)"
    using lv f by (auto simp: side_cells_def front_of_levels_def levels_ok_Cons level_ok_def
        split: list.splits)
qed

end
