(* ===== verification/Risk_Manager.thy ===== *)
theory Risk_Manager
  imports Order_Types
begin

text \<open>
  The pre-trade risk layer of \<open>include/risk_manager.hpp\<close> and \<open>src/risk_manager.cpp\<close>. The kill switch
  is an atomic flag of its own; the limits are plain data.
\<close>

record RiskLimits =
  max_order_quantity :: u32
  min_limit_price :: int
  max_limit_price :: int
  max_order_notional :: u64
  max_active_orders :: u64

definition default_limits :: RiskLimits where
  "default_limits = \<lparr>max_order_quantity = - 1, min_limit_price = 1,
     max_limit_price = 2 ^ 63 - 1, max_order_notional = - 1, max_active_orders = - 1\<rparr>"

record RiskManager =
  limits :: RiskLimits
  kill_switch :: bool

definition init_risk :: "RiskLimits \<Rightarrow> RiskManager" where
  "init_risk l = \<lparr>limits = l, kill_switch = False\<rparr>"

definition setKillSwitch :: "bool \<Rightarrow> RiskManager \<Rightarrow> RiskManager" where
  "setKillSwitch enabled rm = rm\<lparr>kill_switch := enabled\<rparr>"

definition killSwitch :: "RiskManager \<Rightarrow> bool" where
  "killSwitch rm = kill_switch rm"

definition setLimits :: "RiskLimits \<Rightarrow> RiskManager \<Rightarrow> RiskManager" where
  "setLimits l rm = rm\<lparr>limits := l\<rparr>"

definition validate :: "RiskManager \<Rightarrow> Order \<Rightarrow> u64 \<Rightarrow> bool \<Rightarrow> RejectReason" where
  "validate rm ord active_orders may_add_active_order =
     (if killSwitch rm then RISK_KILL_SWITCH
      else if max_order_quantity (limits rm) < o_quantity ord then RISK_MAX_ORDER_QUANTITY
      else if o_type ord = LIMIT \<and>
              (o_price ord < min_limit_price (limits rm) \<or> max_limit_price (limits rm) < o_price ord)
      then RISK_PRICE_OUT_OF_RANGE
      else if o_type ord = LIMIT \<and> o_quantity ord \<noteq> 0 \<and>
              max_order_notional (limits rm) div ucast (o_quantity ord) < (word_of_int (o_price ord) :: u64)
      then RISK_MAX_NOTIONAL
      else if may_add_active_order \<and> max_active_orders (limits rm) \<le> active_orders
      then RISK_MAX_ACTIVE_ORDERS
      else NO_REASON)"

section \<open>What an accepted order satisfies\<close>

lemma unat_word_of_int_price:
  assumes "0 \<le> p" and "is_i64 p"
  shows "unat (word_of_int p :: u64) = nat p"
  using assms by (simp add: is_i64_def unsigned_of_int take_bit_int_eq_self nat_take_bit_eq)

text \<open>
  The notional test divides instead of multiplying: it cannot overflow, and it decides exactly
  whether price times quantity, computed over the natural numbers, is above the limit.
\<close>

lemma notional_test:
  assumes "0 \<le> p" and "is_i64 p" and "q \<noteq> 0"
  shows "(lim div ucast (q :: u32) < (word_of_int p :: u64)) \<longleftrightarrow> unat lim < nat p * unat q"
proof -
  have "0 < unat q" using assms(3) by (simp add: unat_gt_0)
  then have "unat lim div unat q < nat p \<longleftrightarrow> unat lim < nat p * unat q"
    by (rule div_less_iff_less_mult)
  then show ?thesis
    using unat_word_of_int_price [OF assms(1,2)] by (simp add: word_less_nat_alt unat_div)
qed

lemma validate_accepts_iff:
  assumes "is_i64 (o_price ord)" and "o_type ord = LIMIT \<Longrightarrow> 0 < o_price ord" and "o_quantity ord \<noteq> 0"
  shows "validate rm ord active may_add = NO_REASON \<longleftrightarrow>
    \<not> kill_switch rm \<and> o_quantity ord \<le> max_order_quantity (limits rm) \<and>
    (o_type ord = LIMIT \<longrightarrow>
       min_limit_price (limits rm) \<le> o_price ord \<and> o_price ord \<le> max_limit_price (limits rm) \<and>
       nat (o_price ord) * unat (o_quantity ord) \<le> unat (max_order_notional (limits rm))) \<and>
    (may_add \<longrightarrow> active < max_active_orders (limits rm))"
  using assms notional_test [of "o_price ord" "o_quantity ord" "max_order_notional (limits rm)"]
  by (auto simp: validate_def killSwitch_def not_less not_le)

end
