(* ===== verification/Matching_Engine.thy ===== *)
theory Matching_Engine
  imports Order_Book Risk_Manager
begin

text \<open>
  The matching engine of \<open>include/matching_engine.hpp\<close> and \<open>src/matching_engine.cpp\<close>, as functions on
  the record \<open>MatchingEngine\<close>. \<open>processOrder\<close> is cut where the code accepts the command: \<open>admission\<close>
  is the chain of checks that may reject it, \<open>execute_accepted\<close> what follows. As in the order book,
  \<^const>\<open>None\<close> is undefined behaviour (a failed assertion). The matching loop is a total function:
  every round either removes a resting order or uses up the incoming one.
\<close>

record MatchingEngine =
  book :: OrderBook
  risk :: RiskManager
  seen_order_ids :: "u64 set"
  sequence :: u64
  next_trade_id :: u64
  accepted_orders :: u64
  rejected_orders :: u64
  canceled_orders :: u64

definition init_engine :: "RiskLimits \<Rightarrow> MatchingEngine" where
  "init_engine l = \<lparr>book = empty_book, risk = init_risk l, seen_order_ids = {}, sequence = 0,
     next_trade_id = 1, accepted_orders = 0, rejected_orders = 0, canceled_orders = 0\<rparr>"

definition tradeCount :: "MatchingEngine \<Rightarrow> u64" where
  "tradeCount e = next_trade_id e - 1"

section \<open>Static validation and rejection\<close>

definition kKnownFlags :: u8 where
  "kKnownFlags = flag_POST_ONLY"

definition validateStatic :: "Order \<Rightarrow> RejectReason" where
  "validateStatic ord =
     (if o_id ord = 0 then INVALID_ORDER_ID
      else if \<not> isValidSide (o_side ord) then INVALID_SIDE
      else if \<not> isValidOrderType (o_type ord) then INVALID_ORDER_TYPE
      else if \<not> isValidTimeInForce (o_time_in_force ord) then INVALID_TIME_IN_FORCE
      else if and (o_flags ord) (not kKnownFlags) \<noteq> 0 then INVALID_ORDER_FLAGS
      else if o_quantity ord = 0 then INVALID_QUANTITY
      else if o_type ord = LIMIT \<and> o_price ord \<le> 0 then INVALID_LIMIT_PRICE
      else if o_type ord = MARKET \<and> o_time_in_force ord = GTC then MARKET_ORDER_CANNOT_BE_GTC
      else if hasFlag (o_flags ord) flag_POST_ONLY \<and>
              (o_type ord \<noteq> LIMIT \<or> o_time_in_force ord \<noteq> GTC)
      then POST_ONLY_REQUIRES_GTC_LIMIT
      else NO_REASON)"

definition rejectedReport ::
  "MatchingEngine \<Rightarrow> Order \<Rightarrow> u64 \<Rightarrow> RejectReason \<Rightarrow> ExecutionReport \<times> MatchingEngine" where
  "rejectedReport e ord seq reason =
     (default_report\<lparr>r_order_id := o_id ord, r_sequence := seq, r_command := NEW_ORDER,
        r_status := REJECTED, r_reject_reason := reason,
        r_requested_quantity := o_quantity ord, r_remaining_quantity := o_quantity ord\<rparr>,
      e\<lparr>rejected_orders := rejected_orders e + 1\<rparr>)"

text \<open>
  The checks between the allocation of the sequence number and the point of acceptance, in the
  code's order; the first that fails gives the reason.
\<close>

definition admission :: "MatchingEngine \<Rightarrow> Order \<Rightarrow> RejectReason option" where
  "admission e ord =
     (if validateStatic ord \<noteq> NO_REASON then Some (validateStatic ord)
      else if o_id ord \<in> seen_order_ids e then Some DUPLICATE_ORDER_ID
      else
        let executable = executableQuantity (book e) ord (ucast (o_quantity ord));
            may_add_active_order =
              (o_type ord = LIMIT \<and> o_time_in_force ord = GTC \<and> executable < ucast (o_quantity ord));
            reason = validate (risk e) ord (of_nat (orderCount (book e))) may_add_active_order
        in if reason \<noteq> NO_REASON then Some reason
           else
             (case (if hasFlag (o_flags ord) flag_POST_ONLY then wouldCross (book e) ord
                    else Some False) of
                None \<Rightarrow> None
              | Some True \<Rightarrow> Some POST_ONLY_WOULD_TRADE
              | Some False \<Rightarrow>
                  if o_time_in_force ord = FOK \<and> executable < ucast (o_quantity ord)
                  then Some FOK_NOT_FILLABLE
                  else Some NO_REASON))"

section \<open>The matching loop\<close>

definition crosses :: "Order \<Rightarrow> Order \<Rightarrow> bool" where
  "crosses ord best \<longleftrightarrow> o_type ord = MARKET \<or>
     (if o_side ord = BUY then o_price best \<le> o_price ord else o_price ord \<le> o_price best)"

definition make_trade :: "Order \<Rightarrow> Order \<Rightarrow> u64 \<Rightarrow> u32 \<Rightarrow> Trade" where
  "make_trade ord best tid traded_quantity =
     \<lparr>t_trade_id = tid,
      t_buy_order_id = (if o_side ord = BUY then o_id ord else o_id best),
      t_sell_order_id = (if o_side ord = BUY then o_id best else o_id ord),
      t_price = o_price best,
      t_quantity = traded_quantity,
      t_sequence = o_sequence ord\<rparr>"

lemma length_cells_delete: "length (cells (AList.delete p m)) \<le> length (cells m)"
  by (induction m) auto

lemma reduce_front_levels_shrinks:
  assumes "front_of_levels m = Some (Some best)"
    and "reduce_front_levels qty m = Some (m', gone)"
  shows "length (cells m') \<le> length (cells m)"
    and "qty = o_quantity best \<Longrightarrow> length (cells m') < length (cells m)"
proof -
  from assms(1) obtain p lv ms n cs where m: "m = (p, lv) # ms" "orders lv = (n, best) # cs"
    by (auto simp: front_of_levels_def split: list.splits prod.splits)
  with assms(2) have "length (cells m') \<le> length (cells m) \<and>
      (qty = o_quantity best \<longrightarrow> length (cells m') < length (cells m))"
    using length_cells_delete [of p ms]
    by (auto simp: reduce_front_levels_def Let_def eraseLevelIfEmpty_def less_Suc_eq_le
        split: if_splits)
  then show "length (cells m') \<le> length (cells m)"
    and "qty = o_quantity best \<Longrightarrow> length (cells m') < length (cells m)" by auto
qed

lemma reduceFront_shrinks:
  assumes f: "frontOfBest b s = Some (Some best)" and q: "0 < q"
    and r: "reduceFront b s (min q (o_quantity best)) = Some b'"
  shows "unat (q - min q (o_quantity best)) + length (all_cells b') < unat q + length (all_cells b)"
proof -
  let ?t = "min q (o_quantity best)"
  from f have f': "front_of_levels (levels_of b s) = Some (Some best)"
    by (simp add: frontOfBest_def levels_of_def split: if_splits)
  from r obtain m gone where m: "reduce_front_levels ?t (levels_of b s) = Some (m, gone)"
    and b': "all_cells b' = all_cells (with_levels b s m)"
    by (auto simp: reduceFront_def levels_of_def with_levels_def erase_location_def all_cells_def
        split: if_splits option.splits)
  have len: "length (all_cells b') = length (cells m) + length (side_cells b (opposite s))"
    "length (all_cells b) = length (cells (levels_of b s)) + length (side_cells b (opposite s))"
    unfolding b'
    by (simp_all add: all_cells_def with_levels_def levels_of_def side_cells_def opposite_def)
  show ?thesis
  proof (cases "o_quantity best \<le> q")
    case True
    then have "?t = o_quantity best" by simp
    moreover from this have "length (cells m) < length (cells (levels_of b s))"
      using reduce_front_levels_shrinks(2) [OF f' m] by simp
    moreover have "unat (q - o_quantity best) \<le> unat q" using True by (simp add: unat_sub)
    ultimately show ?thesis using len by simp
  next
    case False
    then have "?t = q" by simp
    moreover have "length (cells m) \<le> length (cells (levels_of b s))"
      by (rule reduce_front_levels_shrinks(1) [OF f' m])
    moreover have "0 < unat q" using q by (simp add: unat_gt_0)
    ultimately show ?thesis using len by simp
  qed
qed

function match_loop ::
  "Order \<Rightarrow> OrderBook \<Rightarrow> u64 \<Rightarrow> Trade list \<Rightarrow> (Order \<times> OrderBook \<times> u64 \<times> Trade list) option" where
  "match_loop ord b tid out =
     (if 0 < o_quantity ord \<and> \<not> emptySide b (opposite (o_side ord)) then
        (case frontOfBest b (opposite (o_side ord)) of
           None \<Rightarrow> None
         | Some None \<Rightarrow> None
         | Some (Some best) \<Rightarrow>
             if \<not> crosses ord best then Some (ord, b, tid, out)
             else
               (case reduceFront b (opposite (o_side ord)) (min (o_quantity ord) (o_quantity best)) of
                  None \<Rightarrow> None
                | Some b' \<Rightarrow>
                    match_loop
                      (ord\<lparr>o_quantity := o_quantity ord - min (o_quantity ord) (o_quantity best)\<rparr>)
                      b' (tid + 1)
                      (out @ [make_trade ord best tid (min (o_quantity ord) (o_quantity best))])))
      else Some (ord, b, tid, out))"
  by pat_completeness auto
termination
  by (relation "measure (\<lambda>(ord, b, tid, out). unat (o_quantity ord) + length (all_cells b))")
    (auto intro: reduceFront_shrinks)

declare match_loop.simps [simp del]

section \<open>Accepted commands\<close>

definition accepted_report ::
  "Order \<Rightarrow> u64 \<Rightarrow> u32 \<Rightarrow> bool \<Rightarrow> nat \<Rightarrow> ExecutionReport" where
  "accepted_report ord event_sequence requested_quantity should_rest new_trades =
     (let executed_quantity = requested_quantity - o_quantity ord
      in default_report\<lparr>
           r_order_id := o_id ord, r_sequence := event_sequence, r_command := NEW_ORDER,
           r_reject_reason := NO_REASON,
           r_requested_quantity := requested_quantity,
           r_executed_quantity := executed_quantity,
           r_remaining_quantity := o_quantity ord,
           r_trade_count := of_nat new_trades,
           r_status :=
             (if o_quantity ord = 0 then FILLED
              else if should_rest
              then (if executed_quantity = 0 then RESTING else PARTIALLY_FILLED)
              else (if executed_quantity = 0 then EXPIRED else PARTIALLY_FILLED))\<rparr>)"

definition execute_accepted ::
  "MatchingEngine \<Rightarrow> Order \<Rightarrow> Trade list \<Rightarrow> (ExecutionReport \<times> MatchingEngine \<times> Trade list) option" where
  "execute_accepted e ord out =
     (let e1 = e\<lparr>seen_order_ids := insert (o_id ord) (seen_order_ids e),
                 accepted_orders := accepted_orders e + 1\<rparr>
      in (case match_loop (ord\<lparr>o_sequence := sequence e\<rparr>) (book e1) (next_trade_id e1) out of
            None \<Rightarrow> None
          | Some (ord', b, tid, out') \<Rightarrow>
              let should_rest = (0 < o_quantity ord' \<and> o_type ord' = LIMIT \<and>
                                 o_time_in_force ord' = GTC);
                  rep = accepted_report ord' (sequence e) (o_quantity ord) should_rest
                          (length out' - length out)
              in if should_rest
                 then (case addOrder b ord' of
                         None \<Rightarrow> None
                       | Some (inserted, b') \<Rightarrow>
                           if inserted then Some (rep, e1\<lparr>book := b', next_trade_id := tid\<rparr>, out')
                           else None)
                 else Some (rep, e1\<lparr>book := b, next_trade_id := tid\<rparr>, out')))"

definition processOrder ::
  "MatchingEngine \<Rightarrow> Order \<Rightarrow> Trade list \<Rightarrow> (ExecutionReport \<times> MatchingEngine \<times> Trade list) option" where
  "processOrder e0 ord out =
     (let e = e0\<lparr>sequence := sequence e0 + 1\<rparr>
      in (case admission e ord of
            None \<Rightarrow> None
          | Some reason \<Rightarrow>
              if reason \<noteq> NO_REASON
              then let (rep, e') = rejectedReport e ord (sequence e) reason in Some (rep, e', out)
              else execute_accepted e ord out))"

definition cancel :: "MatchingEngine \<Rightarrow> u64 \<Rightarrow> (ExecutionReport \<times> MatchingEngine) option" where
  "cancel e0 i =
     (let e = e0\<lparr>sequence := sequence e0 + 1\<rparr>;
          rep = default_report\<lparr>r_order_id := i, r_sequence := sequence e, r_command := CANCEL_ORDER\<rparr>
      in if i = 0
         then Some (rep\<lparr>r_status := REJECTED, r_reject_reason := INVALID_ORDER_ID\<rparr>, e)
         else
           (case cancelOrder (book e) i of
              None \<Rightarrow> None
            | Some (None, b) \<Rightarrow>
                Some (rep\<lparr>r_status := REJECTED, r_reject_reason := ORDER_NOT_FOUND\<rparr>, e\<lparr>book := b\<rparr>)
            | Some (Some canceled, b) \<Rightarrow>
                Some (rep\<lparr>r_status := CANCELED, r_reject_reason := NO_REASON,
                          r_requested_quantity := o_quantity canceled,
                          r_remaining_quantity := 0\<rparr>,
                      e\<lparr>book := b, canceled_orders := canceled_orders e + 1\<rparr>)))"

definition submitOrder ::
  "MatchingEngine \<Rightarrow> Order \<Rightarrow> Trade list \<Rightarrow> (u32 \<times> MatchingEngine \<times> Trade list) option" where
  "submitOrder e ord out = map_option (\<lambda>(rep, e', out'). (r_trade_count rep, e', out')) (processOrder e ord out)"

definition cancelOrder_engine :: "MatchingEngine \<Rightarrow> u64 \<Rightarrow> (bool \<times> MatchingEngine) option" where
  "cancelOrder_engine e i = map_option (\<lambda>(rep, e'). (r_status rep = CANCELED, e')) (cancel e i)"

end
