(* ===== verification/Priority_Spec.thy ===== *)
theory Priority_Spec
  imports Price_Levels
begin

text \<open>
  What the order book promises, without its data structures: one side of the book is the list of its
  orders, best price first and oldest first within a price (price-time priority). Three operations
  suffice: an order is put behind every order that is at its price or better, an order is taken out
  by its id, and an incoming quantity is filled from the front of the list for as long as the front
  order is acceptable. The refinement lemmas of the engine show that the price maps, the node lists,
  the cached totals and the id index implement exactly these operations.
\<close>

section \<open>The abstract operations\<close>

definition spec_insert :: "Side \<Rightarrow> Order \<Rightarrow> Order list \<Rightarrow> Order list" where
  "spec_insert s ord xs =
     filter (\<lambda>x. \<not> ahead_of s (o_price ord) (o_price x)) xs @ ord #
     filter (\<lambda>x. ahead_of s (o_price ord) (o_price x)) xs"

definition spec_cancel :: "u64 \<Rightarrow> Order list \<Rightarrow> Order list" where
  "spec_cancel i xs = filter (\<lambda>x. o_id x \<noteq> i) xs"

text \<open>
  Filling quantity \<open>q\<close> from the list: the fills (resting order and executed quantity), the quantity
  left over, and the orders left resting.
\<close>

fun spec_fill :: "(Order \<Rightarrow> bool) \<Rightarrow> u32 \<Rightarrow> Order list \<Rightarrow> (Order \<times> u32) list \<times> u32 \<times> Order list" where
  "spec_fill ok q [] = ([], q, [])"
| "spec_fill ok q (x # xs) =
     (if q = 0 \<or> \<not> ok x then ([], q, x # xs)
      else if q < o_quantity x then ([(x, q)], 0, x\<lparr>o_quantity := o_quantity x - q\<rparr> # xs)
      else let (fs, q', xs') = spec_fill ok (q - o_quantity x) xs
           in ((x, o_quantity x) # fs, q', xs'))"

definition fill_total :: "(Order \<times> u32) list \<Rightarrow> nat" where
  "fill_total fs = (\<Sum>f\<leftarrow>fs. unat (snd f))"

definition resting_total :: "Order list \<Rightarrow> nat" where
  "resting_total xs = (\<Sum>x\<leftarrow>xs. unat (o_quantity x))"

lemma fill_total_simps [simp]:
  "fill_total [] = 0" "fill_total (f # fs) = unat (snd f) + fill_total fs"
  by (simp_all add: fill_total_def)

lemma resting_total_simps [simp]:
  "resting_total [] = 0" "resting_total (x # xs) = unat (o_quantity x) + resting_total xs"
  "resting_total (xs @ ys) = resting_total xs + resting_total ys"
  by (simp_all add: resting_total_def)

lemma resting_total_map_snd: "resting_total (map snd cs) = qsum cs"
  by (induction cs) auto

section \<open>Insertion\<close>

lemma set_spec_insert: "set (spec_insert s ord xs) = insert ord (set xs)"
  by (auto simp: spec_insert_def)

lemma mset_spec_insert: "mset (spec_insert s ord xs) = add_mset ord (mset xs)"
  using multiset_partition [of "mset xs" "\<lambda>x. ahead_of s (o_price ord) (o_price x)"]
  by (simp add: spec_insert_def add.commute)

text \<open>Inserting keeps the list in priority order.\<close>

lemma spec_insert_sorted:
  assumes "sorted_wrt (\<lambda>x y. \<not> ahead_of s (o_price y) (o_price x)) xs"
  shows "sorted_wrt (\<lambda>x y. \<not> ahead_of s (o_price y) (o_price x)) (spec_insert s ord xs)"
  using assms
  by (auto simp: spec_insert_def sorted_wrt_append ahead_of_def intro!: sorted_wrt_filter
      split: if_splits)

text \<open>Taking an inserted order out again gives the list back.\<close>

lemma filter_split_sorted:
  assumes "sorted_wrt (\<lambda>x y. \<not> ahead_of s (o_price y) (o_price x)) xs"
  shows "filter (\<lambda>x. \<not> ahead_of s p (o_price x)) xs @ filter (\<lambda>x. ahead_of s p (o_price x)) xs = xs"
  using assms
proof (induction xs)
  case Nil
  then show ?case by simp
next
  case (Cons x xs)
  then have "ahead_of s p (o_price x) \<Longrightarrow> filter (\<lambda>x. \<not> ahead_of s p (o_price x)) xs = []"
    by (auto simp: filter_empty_conv ahead_of_def split: if_splits)
  with Cons show ?case by auto
qed

lemma spec_cancel_insert:
  assumes "sorted_wrt (\<lambda>x y. \<not> ahead_of s (o_price y) (o_price x)) xs"
    and "o_id ord = i" and "\<forall>x \<in> set xs. o_id x \<noteq> i"
  shows "spec_cancel i (spec_insert s ord xs) = xs"
proof -
  have "filter (\<lambda>x. o_id x \<noteq> i) (filter P xs) = filter P xs" for P
    using assms(3) by (auto intro: filter_cong)
  with filter_split_sorted [OF assms(1)] assms(2) show ?thesis
    by (simp add: spec_cancel_def spec_insert_def del: filter_filter)
qed

section \<open>Filling\<close>

lemma spec_fill_conserves:
  "spec_fill ok q xs = (fs, q', xs') \<Longrightarrow>
   unat q = fill_total fs + unat q' \<and> resting_total xs = fill_total fs + resting_total xs'"
proof (induction xs arbitrary: q fs q' xs')
  case Nil
  then show ?case by simp
next
  case (Cons x xs)
  show ?case
  proof (cases "q = 0 \<or> \<not> ok x \<or> q < o_quantity x")
    case True
    with Cons.prems show ?thesis
      by (auto simp: unat_sub word_less_nat_alt word_le_nat_alt split: if_splits)
  next
    case False
    obtain gs r ys where rec: "spec_fill ok (q - o_quantity x) xs = (gs, r, ys)"
      by (metis prod_cases3)
    with False Cons.prems have res: "fs = (x, o_quantity x) # gs" "q' = r" "xs' = ys" by auto
    from False have "unat (q - o_quantity x) = unat q - unat (o_quantity x)"
      and "unat (o_quantity x) \<le> unat q"
      by (simp_all add: unat_sub word_le_nat_alt not_less)
    with Cons.IH [OF rec] res show ?thesis by auto
  qed
qed

text \<open>
  Time and price priority: the orders filled are a prefix of the list, all of them acceptable, and
  all but the last are filled completely; if the last one is not, nothing of the incoming quantity
  is left. What rests afterwards is the rest of the list.
\<close>

lemma spec_fill_prefix:
  "spec_fill ok q xs = (fs, q', xs') \<Longrightarrow>
   \<exists>n \<le> length xs. map fst fs = take n xs \<and> (\<forall>x \<in> set (take n xs). ok x) \<and>
     (fs = map (\<lambda>x. (x, o_quantity x)) (take n xs) \<and> xs' = drop n xs \<or>
      q' = 0 \<and> (\<exists>x r. 0 < n \<and> x = xs ! (n - 1) \<and> 0 < r \<and> r < o_quantity x \<and>
        fs = map (\<lambda>x. (x, o_quantity x)) (take (n - 1) xs) @ [(x, r)] \<and>
        xs' = x\<lparr>o_quantity := o_quantity x - r\<rparr> # drop n xs))"
proof (induction xs arbitrary: q fs q' xs')
  case Nil
  then show ?case by simp
next
  case (Cons x xs)
  show ?case
  proof (cases "q = 0 \<or> \<not> ok x")
    case True
    with Cons.prems show ?thesis by (intro exI [of _ 0]) auto
  next
    case ok: False
    show ?thesis
    proof (cases "q < o_quantity x")
      case True
      with ok Cons.prems show ?thesis
        by (intro exI [of _ 1]) (auto simp: word_gt_0)
    next
      case False
      obtain gs r ys where rec: "spec_fill ok (q - o_quantity x) xs = (gs, r, ys)"
        by (metis prod_cases3)
      with ok False Cons.prems have res: "fs = (x, o_quantity x) # gs" "q' = r" "xs' = ys" by auto
      from Cons.IH [OF rec] obtain n where n: "n \<le> length xs" "map fst gs = take n xs"
        "\<forall>x \<in> set (take n xs). ok x"
        and alt: "gs = map (\<lambda>x. (x, o_quantity x)) (take n xs) \<and> ys = drop n xs \<or>
          r = 0 \<and> (\<exists>x t. 0 < n \<and> x = xs ! (n - 1) \<and> 0 < t \<and> t < o_quantity x \<and>
            gs = map (\<lambda>x. (x, o_quantity x)) (take (n - 1) xs) @ [(x, t)] \<and>
            ys = x\<lparr>o_quantity := o_quantity x - t\<rparr> # drop n xs)" by blast
      show ?thesis
      proof (rule exI [of _ "Suc n"], intro conjI)
        show "fs = map (\<lambda>x. (x, o_quantity x)) (take (Suc n) (x # xs)) \<and> xs' = drop (Suc n) (x # xs) \<or>
          q' = 0 \<and> (\<exists>z t. 0 < Suc n \<and> z = (x # xs) ! (Suc n - 1) \<and> 0 < t \<and> t < o_quantity z \<and>
            fs = map (\<lambda>x. (x, o_quantity x)) (take (Suc n - 1) (x # xs)) @ [(z, t)] \<and>
            xs' = z\<lparr>o_quantity := o_quantity z - t\<rparr> # drop (Suc n) (x # xs))"
          using alt res by (auto simp: take_Cons' nth_Cons')
      qed (use n res ok in auto)
    qed
  qed
qed

text \<open>Filling stops only when the quantity is used up or the front order is not acceptable.\<close>

lemma spec_fill_stops:
  "spec_fill ok q xs = (fs, q', xs') \<Longrightarrow> q' \<noteq> 0 \<Longrightarrow> xs' = [] \<or> \<not> ok (hd xs')"
proof (induction xs arbitrary: q fs)
  case Nil
  then show ?case by simp
next
  case (Cons x xs)
  then show ?case by (auto split: if_splits prod.splits)
qed

text \<open>The executed quantity is what the acceptable front of the list offers, up to the request.\<close>

lemma spec_fill_total:
  assumes "spec_fill ok q xs = (fs, q', xs')"
  shows "fill_total fs = min (unat q) (resting_total (takeWhile ok xs))"
  using assms
proof (induction xs arbitrary: q fs)
  case Nil
  then show ?case by simp
next
  case (Cons x xs)
  show ?case
  proof (cases "q = 0 \<or> \<not> ok x \<or> q < o_quantity x")
    case True
    with Cons.prems show ?thesis
      by (auto simp: word_less_nat_alt split: if_splits)
  next
    case False
    obtain gs r ys where rec: "spec_fill ok (q - o_quantity x) xs = (gs, r, ys)"
      by (metis prod_cases3)
    with False Cons.prems have res: "fs = (x, o_quantity x) # gs" "q' = r" "xs' = ys" by auto
    from False have "unat (q - o_quantity x) = unat q - unat (o_quantity x)"
      and "unat (o_quantity x) \<le> unat q"
      by (simp_all add: unat_sub word_le_nat_alt not_less)
    with Cons.IH [of "q - o_quantity x" gs] rec res False show ?thesis by auto
  qed
qed

lemma spec_fill_fill_bounds:
  assumes "spec_fill ok q xs = (fs, q', xs')" and "\<forall>x \<in> set xs. o_quantity x \<noteq> 0"
    and "(x, t) \<in> set fs"
  shows "x \<in> set xs \<and> ok x \<and> t \<noteq> 0 \<and> t \<le> o_quantity x"
  using assms
proof (induction xs arbitrary: q fs)
  case Nil
  then show ?case by simp
next
  case (Cons y xs)
  then show ?case by (fastforce split: if_splits prod.splits)
qed

lemma spec_fill_rest:
  assumes "spec_fill ok q xs = (fs, q', xs')" and "y \<in> set xs'"
  shows "\<exists>x \<in> set xs. \<exists>r. y = x\<lparr>o_quantity := r\<rparr>"
  using assms
proof (induction xs arbitrary: q fs)
  case Nil
  then show ?case by simp
next
  case (Cons x xs)
  have same: "z = z\<lparr>o_quantity := o_quantity z\<rparr>" for z :: Order by simp
  from Cons show ?case
    by (auto split: if_splits prod.splits) (metis same | blast)+
qed

text \<open>Whatever is left resting comes after everything that was filled, or is the same order.\<close>

lemma spec_fill_before:
  assumes "spec_fill ok q xs = (fs, q', xs')"
    and "sorted_wrt (\<lambda>x y. \<not> ahead_of s (o_price y) (o_price x)) xs"
    and "(x, k) \<in> set fs" and "y \<in> set xs'"
  shows "\<not> ahead_of s (o_price y) (o_price x)"
  using assms
proof (induction xs arbitrary: q fs)
  case Nil
  then show ?case by simp
next
  case (Cons z zs)
  show ?case
  proof (cases "q = 0 \<or> \<not> ok z \<or> q < o_quantity z")
    case True
    with Cons.prems show ?thesis by (auto simp: ahead_of_def split: if_splits)
  next
    case False
    obtain gs r ys where rec: "spec_fill ok (q - o_quantity z) zs = (gs, r, ys)"
      by (metis prod_cases3)
    with False Cons.prems have res: "fs = (z, o_quantity z) # gs" "q' = r" "xs' = ys" by auto
    with spec_fill_rest [OF rec] Cons.prems(4) obtain w where "w \<in> set zs" "o_price y = o_price w"
      by fastforce
    with Cons.IH [of "q - o_quantity z" gs] rec res Cons.prems show ?thesis by auto
  qed
qed

lemma spec_fill_length:
  assumes "spec_fill ok q xs = (fs, q', xs')"
  shows "length xs' \<le> length xs"
proof -
  from spec_fill_prefix [OF assms] obtain n where "n \<le> length xs"
    "xs' = drop n xs \<or> 0 < n \<and> length xs' = Suc (length (drop n xs))" by auto
  then show ?thesis by auto
qed

lemma length_fills_le:
  assumes "\<forall>f \<in> set fs. snd f \<noteq> 0"
  shows "length fs \<le> fill_total fs"
  using assms
proof (induction fs)
  case Nil
  then show ?case by simp
next
  case (Cons f fs)
  then have "0 < unat (snd f)" by (simp add: unat_gt_0)
  with Cons show ?case by simp
qed

end
