(* ===== verification/Engine_Refinement.thy ===== *)
theory Engine_Refinement
  imports Matching_Engine Priority_Spec
begin

text \<open>
  The order book and the matching loop implement the price-time priority specification: the
  abstraction \<open>resting\<close> maps a side of the book to the list of its orders, and every operation on
  the book is the abstract operation on that list.
\<close>

definition resting :: "OrderBook \<Rightarrow> Side \<Rightarrow> Order list" where
  "resting b s = map snd (side_cells b s)"

fun fill_trades :: "Order \<Rightarrow> u64 \<Rightarrow> (Order \<times> u32) list \<Rightarrow> Trade list" where
  "fill_trades ord tid [] = []"
| "fill_trades ord tid ((x, q) # fs) = make_trade ord x tid q # fill_trades ord (tid + 1) fs"

section \<open>Observers\<close>

lemma resting_order_ok:
  assumes "book_ok b" and "isValidSide s" and "x \<in> set (resting b s)"
  shows "order_ok s (o_price x) x"
  using book_ok_cell [OF assms(1,2)] assms(3) by (auto simp: resting_def)

lemma resting_sorted:
  assumes "book_ok b" and "isValidSide s"
  shows "sorted_wrt (\<lambda>x y. \<not> ahead_of s (o_price y) (o_price x)) (resting b s)"
  using side_order.cells_sorted [OF book_ok_side [OF assms]]
  by (simp add: resting_def side_cells_def sorted_wrt_map)

lemma levels_head_price:
  assumes "levels_ok ah s m"
  shows "(case m of [] \<Rightarrow> None | (p, _) # _ \<Rightarrow> Some p) =
    (case map snd (cells m) of [] \<Rightarrow> None | x # _ \<Rightarrow> Some (o_price x))"
proof (cases m)
  case (Cons pl m')
  obtain p lv where "pl = (p, lv)" by (cases pl)
  with Cons assms show ?thesis
    by (cases "orders lv") (auto simp: levels_ok_Cons level_ok_def order_ok_def)
qed simp

lemma best_price_resting:
  assumes "book_ok b"
  shows "bestBid b = (case resting b BUY of [] \<Rightarrow> None | x # _ \<Rightarrow> Some (o_price x))"
    and "bestAsk b = (case resting b SELL of [] \<Rightarrow> None | x # _ \<Rightarrow> Some (o_price x))"
  using assms
  by (auto simp: book_ok_def bestBid_def bestAsk_def resting_def side_cells_def levels_of_def
      dest!: levels_head_price)

lemma contains_resting:
  assumes "book_ok b"
  shows "contains b i \<longleftrightarrow> (\<exists>x \<in> set (resting b BUY) \<union> set (resting b SELL). o_id x = i)"
  using index_ok_contains [OF book_ok_index [OF assms]]
  by (auto simp: resting_def set_all_cells [of _ BUY] image_iff)

lemma orderCount_resting:
  assumes "book_ok b"
  shows "orderCount b = length (resting b BUY) + length (resting b SELL)"
  using index_ok_orderCount [OF book_ok_index [OF assms]]
  by (simp add: resting_def all_cells_def side_cells_def levels_of_def)

lemma resting_distinct_ids:
  assumes "book_ok b"
  shows "distinct (map o_id (resting b BUY @ resting b SELL))"
proof -
  have "map (o_id \<circ> snd) (all_cells b) = map o_id (resting b BUY @ resting b SELL)"
    by (simp add: resting_def all_cells_def side_cells_def levels_of_def)
  with book_ok_index [OF assms] show ?thesis by (metis index_ok_def)
qed

lemma uncrossed_resting:
  "uncrossed b \<longleftrightarrow> (\<forall>x \<in> set (resting b BUY). \<forall>y \<in> set (resting b SELL). o_price x < o_price y)"
  by (auto simp: uncrossed_def resting_def side_cells_def levels_of_def)

section \<open>Adding and cancelling\<close>

lemma addOrder_refines:
  assumes "book_ok b" and "order_ok s (o_price ord) ord" and "isValidSide s"
    and "\<not> contains b (o_id ord)"
    and "\<forall>x \<in> set (resting b BUY) \<union> set (resting b SELL). o_sequence x \<le> o_sequence ord"
  shows "\<exists>b'. addOrder b ord = Some (True, b') \<and> book_ok b' \<and>
    resting b' s = spec_insert s ord (resting b s) \<and>
    resting b' (opposite s) = resting b (opposite s)"
proof -
  have "\<forall>c \<in> set (all_cells b). o_sequence (snd c) \<le> o_sequence ord"
    using assms(5) by (auto simp: resting_def set_all_cells [of _ BUY])
  from addOrder_ok [OF assms(1-4) this] obtain b' where b': "addOrder b ord = Some (True, b')"
    "book_ok b'" "side_cells b' s = insert_cell s (next_node b) ord (side_cells b s)"
    "side_cells b' (opposite s) = side_cells b (opposite s)" by blast
  then have "resting b' s = spec_insert s ord (resting b s)"
    by (simp add: resting_def insert_cell_def spec_insert_def filter_map comp_def)
  with b' show ?thesis by (auto simp: resting_def)
qed

lemma filter_node_filter_id:
  assumes "distinct (map fst cs)" and "distinct (map (o_id \<circ> snd) cs)" and "c \<in> set cs"
  shows "filter (\<lambda>d. fst d \<noteq> fst c) cs = filter (\<lambda>d. o_id (snd d) \<noteq> o_id (snd c)) cs"
proof (rule filter_cong [OF refl])
  fix d assume "d \<in> set cs"
  with assms have "fst d = fst c \<longleftrightarrow> d = c" and "o_id (snd d) = o_id (snd c) \<longleftrightarrow> d = c"
    by (auto simp: distinct_map inj_on_def)
  then show "(fst d \<noteq> fst c) = (o_id (snd d) \<noteq> o_id (snd c))" by simp
qed

lemma spec_cancel_absent: "(\<forall>x \<in> set xs. o_id x \<noteq> i) \<Longrightarrow> spec_cancel i xs = xs"
  by (simp add: spec_cancel_def filter_id_conv)

lemma cancelOrder_refines:
  assumes ok: "book_ok b"
  shows "\<exists>b'. cancelOrder b i =
      Some (find (\<lambda>x. o_id x = i) (resting b BUY @ resting b SELL), b') \<and> book_ok b' \<and>
    resting b' BUY = spec_cancel i (resting b BUY) \<and> resting b' SELL = spec_cancel i (resting b SELL)"
proof (cases "contains b i")
  case False
  then have none: "\<forall>x \<in> set (resting b BUY) \<union> set (resting b SELL). o_id x \<noteq> i"
    using contains_resting [OF ok] by blast
  then have "find (\<lambda>x. o_id x = i) (resting b BUY @ resting b SELL) = None"
    by (auto simp: find_None_iff)
  with none ok show ?thesis by (simp add: cancelOrder_absent [OF False] spec_cancel_absent)
next
  case True
  then obtain c where c: "c \<in> set (all_cells b)" "o_id (snd c) = i"
    using index_ok_contains [OF book_ok_index [OF ok]] by auto
  then obtain s where s: "isValidSide s" "c \<in> set (side_cells b s)"
    using opposite_simps by (metis UnE set_all_cells [of b BUY])
  from cancelOrder_ok [OF ok s] c(2) obtain b' where b': "cancelOrder b i = Some (Some (snd c), b')"
    "book_ok b'" "side_cells b' s = filter (\<lambda>d. fst d \<noteq> fst c) (side_cells b s)"
    "side_cells b' (opposite s) = side_cells b (opposite s)" by blast
  have dist: "distinct (map o_id (resting b s @ resting b (opposite s)))"
    using s(1)
  proof (cases rule: isValidSide_cases)
    case BUY
    with resting_distinct_ids [OF ok] show ?thesis by simp
  next
    case SELL
    with resting_distinct_ids [OF ok] show ?thesis by (simp add: Int_commute)
  qed
  have "distinct (map fst (side_cells b s))"
    using book_ok_index [OF ok] by (auto simp: index_ok_def all_cells_def side_cells_def levels_of_def)
  moreover have "distinct (map (o_id \<circ> snd) (side_cells b s))"
    using dist by (simp add: resting_def)
  ultimately have own: "resting b' s = spec_cancel i (resting b s)"
    using filter_node_filter_id [OF _ _ s(2)] b'(3) c(2)
    by (simp add: resting_def spec_cancel_def filter_map comp_def)
  have mem: "snd c \<in> set (resting b s)" using s(2) by (simp add: resting_def)
  then have "i \<notin> o_id ` set (resting b (opposite s))" using dist c(2) by auto
  then have other: "resting b' (opposite s) = spec_cancel i (resting b (opposite s))"
    using b'(4) by (subst spec_cancel_absent) (auto simp: resting_def)
  have found: "find (\<lambda>x. o_id x = i) (resting b BUY @ resting b SELL) = Some (snd c)"
  proof -
    have "snd c \<in> set (resting b BUY @ resting b SELL)"
      using s(1) mem by (cases rule: isValidSide_cases) auto
    moreover from this have "x = snd c" if "x \<in> set (resting b BUY @ resting b SELL)" "o_id x = i" for x
      using resting_distinct_ids [OF ok] that c(2) unfolding distinct_map inj_on_def by metis
    ultimately show ?thesis using c(2) by (intro find_unique)
  qed
  from s(1) b' own other found show ?thesis by (cases rule: isValidSide_cases) auto
qed

section \<open>The matching loop\<close>

lemma crosses_quantity [simp]: "crosses (ord\<lparr>o_quantity := q\<rparr>) = crosses ord"
  by (simp add: crosses_def fun_eq_iff)

lemma make_trade_quantity [simp]: "make_trade (ord\<lparr>o_quantity := q\<rparr>) = make_trade ord"
  by (simp add: make_trade_def fun_eq_iff)

lemma fill_trades_quantity [simp]: "fill_trades (ord\<lparr>o_quantity := q\<rparr>) tid fs = fill_trades ord tid fs"
  by (induction fs arbitrary: tid) auto

lemma length_fill_trades [simp]: "length (fill_trades ord tid fs) = length fs"
  by (induction ord tid fs rule: fill_trades.induct) auto

lemma match_loop_done:
  "o_quantity ord = 0 \<Longrightarrow> match_loop ord b tid out = Some (ord, b, tid, out)"
  by (simp add: match_loop.simps)

lemma match_loop_step:
  assumes ok: "book_ok b" and x: "side_cells b (opposite (o_side ord)) = (n, x) # cs"
    and q: "0 < o_quantity ord" and c: "crosses ord x"
    and r: "reduceFront b (opposite (o_side ord)) (min (o_quantity ord) (o_quantity x)) = Some b'"
  shows "match_loop ord b tid out =
    match_loop (ord\<lparr>o_quantity := o_quantity ord - min (o_quantity ord) (o_quantity x)\<rparr>) b' (tid + 1)
      (out @ [make_trade ord x tid (min (o_quantity ord) (o_quantity x))])"
  using frontOfBest_ok [OF ok opposite_simps(3), of "o_side ord"] x q c r
  by (subst match_loop.simps) simp

lemma match_loop_refines:
  assumes "book_ok b" and "isValidSide (o_side ord)"
    and "resting b (opposite (o_side ord)) = xs"
    and "spec_fill (crosses ord) (o_quantity ord) xs = (fs, q', xs')"
  shows "\<exists>b'. match_loop ord b tid out =
      Some (ord\<lparr>o_quantity := q'\<rparr>, b', tid + of_nat (length fs), out @ fill_trades ord tid fs) \<and>
    book_ok b' \<and> resting b' (opposite (o_side ord)) = xs' \<and>
    resting b' (o_side ord) = resting b (o_side ord)"
  using assms
proof (induction xs arbitrary: b ord tid out fs)
  case Nil
  then have "emptySide b (opposite (o_side ord))"
    using frontOfBest_ok(2) [OF Nil.prems(1) opposite_simps(3)] by (simp add: resting_def)
  with Nil.prems show ?case by (simp add: match_loop.simps)
next
  case (Cons x xs)
  let ?s = "opposite (o_side ord)"
  note ok = Cons.prems(1) and v = Cons.prems(2)
  have opp: "opposite ?s = o_side ord" using v by (cases rule: isValidSide_cases) auto
  obtain n cs where c: "side_cells b ?s = (n, x) # cs" and xs: "xs = map snd cs"
    using Cons.prems(3) by (auto simp: resting_def)
  note front = frontOfBest_ok [OF ok opposite_simps(3), of "o_side ord", unfolded c]
  consider (stop) "o_quantity ord = 0 \<or> \<not> crosses ord x"
    | (partial) "0 < o_quantity ord" "crosses ord x" "o_quantity ord < o_quantity x"
    | (full) "0 < o_quantity ord" "crosses ord x" "o_quantity x \<le> o_quantity ord"
    by (metis linorder_not_less word_gt_0)
  then show ?case
  proof cases
    case stop
    then have "match_loop ord b tid out = Some (ord, b, tid, out)"
      using front by (subst match_loop.simps) auto
    with stop Cons.prems show ?thesis by auto
  next
    case partial
    let ?q = "o_quantity ord"
    from reduceFront_ok [OF ok opposite_simps(3) c, of ?q] partial obtain b'
      where b': "reduceFront b ?s ?q = Some b'" "book_ok b'"
        "side_cells b' ?s = (n, x\<lparr>o_quantity := o_quantity x - ?q\<rparr>) # cs"
        "side_cells b' (opposite ?s) = side_cells b (opposite ?s)"
      by (auto simp: order.strict_iff_order)
    have "match_loop ord b tid out =
        Some (ord\<lparr>o_quantity := 0\<rparr>, b', tid + 1, out @ [make_trade ord x tid ?q])"
      using match_loop_step [OF ok c, of b' tid out] partial b'(1) by (simp add: match_loop_done)
    moreover have "fs = [(x, ?q)]" "q' = 0" "xs' = x\<lparr>o_quantity := o_quantity x - ?q\<rparr> # xs"
      using partial Cons.prems(4) by (auto simp: word_gt_0)
    ultimately show ?thesis using b' xs by (auto simp: resting_def opp)
  next
    case full
    let ?q = "o_quantity x" and ?ord = "ord\<lparr>o_quantity := o_quantity ord - o_quantity x\<rparr>"
    obtain gs r ys where rec: "spec_fill (crosses ord) (o_quantity ord - ?q) xs = (gs, r, ys)"
      by (metis prod_cases3)
    with full leD [OF full(3)] Cons.prems(4) have res: "fs = (x, ?q) # gs" "q' = r" "xs' = ys"
      by (auto simp: word_gt_0)
    from reduceFront_ok [OF ok opposite_simps(3) c, of ?q] obtain b'
      where b': "reduceFront b ?s ?q = Some b'" "book_ok b'" "side_cells b' ?s = cs"
        "side_cells b' (opposite ?s) = side_cells b (opposite ?s)" by auto
    have step: "match_loop ord b tid out =
        match_loop ?ord b' (tid + 1) (out @ [make_trade ord x tid ?q])"
      using match_loop_step [OF ok c, of b' tid out] full b'(1) by (simp add: min.absorb2)
    from Cons.IH [of b' ?ord gs "tid + 1" "out @ [make_trade ord x tid ?q]"] rec b' xs v res
    obtain b'' where "match_loop ?ord b' (tid + 1) (out @ [make_trade ord x tid ?q]) =
        Some (?ord\<lparr>o_quantity := q'\<rparr>, b'', tid + 1 + of_nat (length gs),
          out @ [make_trade ord x tid ?q] @ fill_trades ord (tid + 1) gs)"
      "book_ok b''" "resting b'' ?s = xs'" "resting b'' (o_side ord) = resting b' (o_side ord)"
      by (auto simp: resting_def)
    with step res b'(4) show ?thesis by (auto simp: resting_def opp algebra_simps)
  qed
qed

section \<open>Executable quantity\<close>

lemma filter_eq_takeWhile_sorted:
  assumes "sorted_wrt R xs" and "\<And>x y. R x y \<Longrightarrow> P y \<Longrightarrow> P x"
  shows "filter P xs = takeWhile P xs"
  using assms(1)
proof (induction xs)
  case Nil
  then show ?case by simp
next
  case (Cons x xs)
  then have "\<not> P x \<Longrightarrow> \<forall>y \<in> set xs. \<not> P y" using assms(2) by auto
  with Cons show ?case by (auto simp: filter_empty_conv)
qed

lemma resting_filter_crosses:
  assumes "book_ok b" and "isValidSide (o_side ord)"
  shows "filter (crosses ord) (resting b (opposite (o_side ord))) =
    takeWhile (crosses ord) (resting b (opposite (o_side ord)))"
  using assms(2) resting_sorted [OF assms(1) opposite_simps(3), of "o_side ord"]
  by (cases rule: isValidSide_cases) (auto simp: crosses_def intro!: filter_eq_takeWhile_sorted)

lemma executableQuantity_exact:
  assumes ok: "book_ok b" and v: "isValidSide (o_side ord)" "isValidOrderType (o_type ord)"
    and small: "orderCount b \<le> 2 ^ 32" and q: "o_quantity ord \<noteq> 0"
  shows "unat (executableQuantity b ord (ucast (o_quantity ord))) =
    min (unat (o_quantity ord))
      (resting_total (takeWhile (crosses ord) (resting b (opposite (o_side ord)))))"
proof -
  let ?s = "opposite (o_side ord)" and ?cap = "ucast (o_quantity ord) :: u64"
  let ?stop = "\<lambda>p. o_type ord = LIMIT \<and> (if o_side ord = BUY then o_price ord < p else p < o_price ord)"
  have "0 < unat ?cap" using q by (simp add: unat_gt_0)
  then have cap: "0 < ?cap" by (simp add: word_less_nat_alt)
  note lv = book_ok_side [OF ok opposite_simps(3), of "o_side ord"]
  have len: "length (side_cells b ?s) \<le> 2 ^ 32"
    using small index_ok_orderCount [OF book_ok_index [OF ok]] mset_all_cells [of b ?s]
    by (metis add_leE size_mset size_union)
  have stop: "(\<not> ?stop (o_price (snd c))) = crosses ord (snd c)" for c :: cell
    using v by (auto simp: crosses_def isValidOrderType_def)
  have "executableQuantity b ord ?cap = executable_levels ?stop ?cap 0 (levels_of b ?s)"
    using v(1) v(2) cap by (cases rule: isValidSide_cases) (auto simp: executableQuantity_def levels_of_def)
  also have "unat \<dots> = min (unat ?cap) (unat (0 :: u64) +
      qsum (filter (\<lambda>c. \<not> ?stop (o_price (snd c))) (cells (levels_of b ?s))))"
  proof (rule side_order.executable_levels_exact [OF lv _ _ cap])
    show "?stop p \<Longrightarrow> ahead_of ?s p r \<Longrightarrow> ?stop r" for p r
      using v(1) by (cases rule: isValidSide_cases) auto
    show "qsum (cells (levels_of b ?s)) < 2 ^ 64"
      using qsum_bound [OF len] by (simp add: side_cells_def)
  qed
  also have "qsum (filter (\<lambda>c. \<not> ?stop (o_price (snd c))) (cells (levels_of b ?s))) =
      resting_total (filter (crosses ord) (resting b ?s))"
    by (simp only: stop resting_def filter_map resting_total_map_snd side_cells_def comp_def)
  finally show ?thesis by (simp add: resting_filter_crosses [OF ok v(1)])
qed

end
