(* ===== verification/Engine_Correct.thy ===== *)
theory Engine_Correct
  imports Engine_Refinement
begin

text \<open>
  Correctness of the matching engine: the invariant of the engine state, the exact outcome of
  \<open>processOrder\<close> and \<open>cancel\<close> in terms of the priority specification, and the shared lemmas the
  properties of the engine rest on.
\<close>

section \<open>The invariant of the engine\<close>

definition book_orders :: "OrderBook \<Rightarrow> Order set" where
  "book_orders b = set (resting b BUY) \<union> set (resting b SELL)"

text \<open>
  The book is well formed and not crossed, every resting order was accepted by this engine (its id is
  consumed, its sequence number was issued) and its price is an \<open>int64_t\<close>.
\<close>

definition engine_ok :: "MatchingEngine \<Rightarrow> bool" where
  "engine_ok e \<longleftrightarrow> book_ok (book e) \<and> uncrossed (book e) \<and>
     (\<forall>x \<in> book_orders (book e). o_id x \<in> seen_order_ids e \<and> o_sequence x \<le> sequence e \<and>
        is_i64 (o_price x))"

text \<open>
  Room for \<open>n\<close> more commands: the 64-bit sequence counter does not wrap, and no more than
  \<open>2\<^sup>3\<^sup>2\<close> orders rest at once, so that the 64-bit totals of 32-bit quantities do not wrap either.
\<close>

definition headroom :: "nat \<Rightarrow> MatchingEngine \<Rightarrow> bool" where
  "headroom n e \<longleftrightarrow> unat (sequence e) + n < 2 ^ 64 \<and> orderCount (book e) + n \<le> 2 ^ 32"

lemma book_orders_side: "book_orders b = set (resting b s) \<union> set (resting b (opposite s))"
  by (auto simp: book_orders_def opposite_def resting_def side_cells_def levels_of_def)

lemma init_engine_ok: "engine_ok (init_engine l)"
  using empty_book_ok
  by (simp add: engine_ok_def init_engine_def uncrossed_def book_orders_def resting_def
      side_cells_def levels_of_def empty_book_def)

lemma init_engine_headroom: "n \<le> 2 ^ 32 \<Longrightarrow> headroom n (init_engine l)"
  by (simp add: headroom_def init_engine_def orderCount_def empty_book_def)

section \<open>Admission\<close>

lemma validateStatic_accepts_iff:
  "validateStatic ord = NO_REASON \<longleftrightarrow>
     o_id ord \<noteq> 0 \<and> isValidSide (o_side ord) \<and> isValidOrderType (o_type ord) \<and>
     isValidTimeInForce (o_time_in_force ord) \<and> and (o_flags ord) (not kKnownFlags) = 0 \<and>
     o_quantity ord \<noteq> 0 \<and> (o_type ord = LIMIT \<longrightarrow> 0 < o_price ord) \<and>
     (o_type ord = MARKET \<longrightarrow> o_time_in_force ord \<noteq> GTC) \<and>
     (hasFlag (o_flags ord) flag_POST_ONLY \<longrightarrow> o_type ord = LIMIT \<and> o_time_in_force ord = GTC)"
  by (auto simp: validateStatic_def)

lemma wouldCross_resting:
  assumes "book_ok b"
  shows "wouldCross b inc = Some (isValidSide (o_side inc) \<and> isValidOrderType (o_type inc) \<and>
    resting b (opposite (o_side inc)) \<noteq> [] \<and> crosses inc (hd (resting b (opposite (o_side inc)))))"
  using frontOfBest_ok(1) [OF assms opposite_simps(3), of "o_side inc"]
  by (auto simp: wouldCross_def crosses_def resting_def split: list.splits)

text \<open>The facts an accepted command has passed.\<close>

definition admitted :: "MatchingEngine \<Rightarrow> Order \<Rightarrow> bool" where
  "admitted e ord \<longleftrightarrow>
     validateStatic ord = NO_REASON \<and> o_id ord \<notin> seen_order_ids e \<and>
     validate (risk e) ord (of_nat (orderCount (book e)))
       (o_type ord = LIMIT \<and> o_time_in_force ord = GTC \<and>
        executableQuantity (book e) ord (ucast (o_quantity ord)) < ucast (o_quantity ord)) = NO_REASON \<and>
     (hasFlag (o_flags ord) flag_POST_ONLY \<longrightarrow>
        resting (book e) (opposite (o_side ord)) = [] \<or>
        \<not> crosses ord (hd (resting (book e) (opposite (o_side ord))))) \<and>
     (o_time_in_force ord = FOK \<longrightarrow>
        \<not> executableQuantity (book e) ord (ucast (o_quantity ord)) < ucast (o_quantity ord))"

lemma admission_decides:
  assumes "book_ok (book e)"
  shows "\<exists>r. admission e ord = Some r \<and> (r = NO_REASON \<longleftrightarrow> admitted e ord)"
  using validateStatic_accepts_iff [of ord]
  by (auto simp: admission_def admitted_def Let_def wouldCross_resting [OF assms] split: bool.splits)

lemma admitted_valid:
  assumes "admitted e ord"
  shows "isValidSide (o_side ord)" "isValidOrderType (o_type ord)" "o_id ord \<noteq> 0"
    "o_quantity ord \<noteq> 0" "o_type ord = LIMIT \<Longrightarrow> 0 < o_price ord"
    "o_id ord \<notin> seen_order_ids e" "o_type ord = MARKET \<Longrightarrow> o_time_in_force ord \<noteq> GTC"
  using assms by (auto simp: admitted_def validateStatic_accepts_iff)

section \<open>The outcome of an accepted command\<close>

definition stamped :: "MatchingEngine \<Rightarrow> Order \<Rightarrow> Order" where
  "stamped e ord = ord\<lparr>o_sequence := sequence e\<rparr>"

lemma stamped_simps [simp]:
  "o_id (stamped e ord) = o_id ord" "o_side (stamped e ord) = o_side ord"
  "o_type (stamped e ord) = o_type ord" "o_time_in_force (stamped e ord) = o_time_in_force ord"
  "o_flags (stamped e ord) = o_flags ord" "o_price (stamped e ord) = o_price ord"
  "o_quantity (stamped e ord) = o_quantity ord" "o_sequence (stamped e ord) = sequence e"
  by (simp_all add: stamped_def)

lemma crosses_stamped [simp]: "crosses (stamped e ord) = crosses ord"
  by (simp add: crosses_def fun_eq_iff)

lemma spec_fill_origin:
  assumes "spec_fill ok q xs = (fs, q', xs')" and "y \<in> set xs'"
  shows "\<exists>x \<in> set xs. o_id y = o_id x \<and> o_price y = o_price x \<and> o_sequence y = o_sequence x"
  using spec_fill_rest [OF assms] by auto

definition rests :: "Order \<Rightarrow> u32 \<Rightarrow> bool" where
  "rests ord q' \<longleftrightarrow> q' \<noteq> 0 \<and> o_type ord = LIMIT \<and> o_time_in_force ord = GTC"

definition after_accept :: "MatchingEngine \<Rightarrow> Order \<Rightarrow> OrderBook \<Rightarrow> nat \<Rightarrow> MatchingEngine" where
  "after_accept e ord b n = e\<lparr>seen_order_ids := insert (o_id ord) (seen_order_ids e),
     accepted_orders := accepted_orders e + 1, book := b,
     next_trade_id := next_trade_id e + of_nat n\<rparr>"

lemma execute_accepted_outcome:
  assumes ok: "book_ok (book e)"
    and old: "\<forall>x \<in> book_orders (book e). o_id x \<in> seen_order_ids e \<and> o_sequence x \<le> sequence e"
    and adm: "admitted e ord"
    and fill: "spec_fill (crosses ord) (o_quantity ord) (resting (book e) (opposite (o_side ord))) =
      (fs, q', xs')"
  shows "\<exists>b'. execute_accepted e ord out =
      Some (accepted_report (stamped e ord\<lparr>o_quantity := q'\<rparr>) (sequence e) (o_quantity ord)
              (rests ord q') (length fs),
            after_accept e ord b' (length fs),
            out @ fill_trades (stamped e ord) (next_trade_id e) fs) \<and>
    book_ok b' \<and> resting b' (opposite (o_side ord)) = xs' \<and>
    resting b' (o_side ord) =
      (if rests ord q' then spec_insert (o_side ord) (stamped e ord\<lparr>o_quantity := q'\<rparr>)
                              (resting (book e) (o_side ord))
       else resting (book e) (o_side ord))"
proof -
  let ?s = "o_side ord" and ?ord = "stamped e ord\<lparr>o_quantity := q'\<rparr>"
  note v = admitted_valid [OF adm]
  from match_loop_refines [OF ok, of "stamped e ord" _ fs q' xs' "next_trade_id e" out] v(1) fill
  obtain b1
    where b1: "match_loop (stamped e ord) (book e) (next_trade_id e) out =
        Some (?ord, b1, next_trade_id e + of_nat (length fs),
          out @ fill_trades (stamped e ord) (next_trade_id e) fs)"
      "book_ok b1" "resting b1 (opposite ?s) = xs'" "resting b1 ?s = resting (book e) ?s"
    by auto
  show ?thesis
  proof (cases "rests ord q'")
    case False
    then have "\<not> (0 < q' \<and> o_type ord = LIMIT \<and> o_time_in_force ord = GTC)"
      by (auto simp: rests_def)
    with b1 False show ?thesis
      by (intro exI [of _ b1])
        (auto simp: execute_accepted_def Let_def stamped_def [symmetric] after_accept_def)
  next
    case True
    have kept: "o_id x \<in> seen_order_ids e \<and> o_sequence x \<le> sequence e" if "x \<in> book_orders b1" for x
    proof -
      have "\<exists>y \<in> book_orders (book e). o_id x = o_id y \<and> o_sequence x = o_sequence y"
        using that b1(3,4) spec_fill_origin [OF fill, of x]
        by (auto simp: book_orders_side [of _ ?s])
      with old show ?thesis by auto
    qed
    have "\<not> contains b1 (o_id ?ord)"
      using contains_resting [OF b1(2), of "o_id ord"] kept v(6) by (fastforce simp: book_orders_def)
    moreover have "order_ok ?s (o_price ?ord) ?ord"
      using True v by (simp add: order_ok_def rests_def)
    moreover have "\<forall>x \<in> set (resting b1 BUY) \<union> set (resting b1 SELL). o_sequence x \<le> o_sequence ?ord"
      using kept by (auto simp: book_orders_def)
    ultimately obtain b' where b': "addOrder b1 ?ord = Some (True, b')" "book_ok b'"
        "resting b' ?s = spec_insert ?s ?ord (resting b1 ?s)"
        "resting b' (opposite ?s) = resting b1 (opposite ?s)"
      using addOrder_refines [OF b1(2), of ?s ?ord] v(1) by auto
    from True have "0 < q' \<and> o_type ord = LIMIT \<and> o_time_in_force ord = GTC"
      by (auto simp: rests_def word_gt_0)
    with b1 b' True show ?thesis
      by (intro exI [of _ b'])
        (auto simp: execute_accepted_def Let_def stamped_def [symmetric] after_accept_def)
  qed
qed

section \<open>The outcome of a command\<close>

definition bump :: "MatchingEngine \<Rightarrow> MatchingEngine" where
  "bump e = e\<lparr>sequence := sequence e + 1\<rparr>"

lemma bump_simps [simp]:
  "book (bump e) = book e" "risk (bump e) = risk e" "seen_order_ids (bump e) = seen_order_ids e"
  "sequence (bump e) = sequence e + 1" "next_trade_id (bump e) = next_trade_id e"
  "accepted_orders (bump e) = accepted_orders e" "rejected_orders (bump e) = rejected_orders e"
  "canceled_orders (bump e) = canceled_orders e"
  by (simp_all add: bump_def)

lemma after_accept_simps [simp]:
  "book (after_accept e ord b n) = b" "risk (after_accept e ord b n) = risk e"
  "seen_order_ids (after_accept e ord b n) = insert (o_id ord) (seen_order_ids e)"
  "sequence (after_accept e ord b n) = sequence e"
  "next_trade_id (after_accept e ord b n) = next_trade_id e + of_nat n"
  "accepted_orders (after_accept e ord b n) = accepted_orders e + 1"
  "rejected_orders (after_accept e ord b n) = rejected_orders e"
  "canceled_orders (after_accept e ord b n) = canceled_orders e"
  by (simp_all add: after_accept_def)

lemma headroom_sequence:
  "headroom (Suc n) e \<Longrightarrow> unat (sequence e + 1) = unat (sequence e) + 1"
  "headroom (Suc n) e \<Longrightarrow> sequence e \<le> sequence e + 1"
  by (auto simp: headroom_def unat_plus_one word_le_nat_alt)

text \<open>Every command is either rejected, and only the counters move, or executed as specified.\<close>

lemma processOrder_outcome:
  assumes ok: "engine_ok e" and room: "headroom (Suc n) e"
  obtains (rejected) r where "r \<noteq> NO_REASON" "admission (bump e) ord = Some r" "\<not> admitted (bump e) ord"
      "processOrder e ord out =
        Some (fst (rejectedReport (bump e) ord (sequence e + 1) r),
              snd (rejectedReport (bump e) ord (sequence e + 1) r), out)"
  | (accepted) fs q' xs' b' where "admitted (bump e) ord"
      "spec_fill (crosses ord) (o_quantity ord) (resting (book e) (opposite (o_side ord))) = (fs, q', xs')"
      "processOrder e ord out =
        Some (accepted_report (stamped (bump e) ord\<lparr>o_quantity := q'\<rparr>) (sequence e + 1) (o_quantity ord)
                (rests ord q') (length fs),
              after_accept (bump e) ord b' (length fs),
              out @ fill_trades (stamped (bump e) ord) (next_trade_id e) fs)"
      "book_ok b'" "resting b' (opposite (o_side ord)) = xs'"
      "resting b' (o_side ord) =
        (if rests ord q' then spec_insert (o_side ord) (stamped (bump e) ord\<lparr>o_quantity := q'\<rparr>)
                                (resting (book e) (o_side ord))
         else resting (book e) (o_side ord))"
proof -
  have bok: "book_ok (book (bump e))" using ok by (simp add: engine_ok_def)
  from admission_decides [OF this] obtain r
    where r: "admission (bump e) ord = Some r" "r = NO_REASON \<longleftrightarrow> admitted (bump e) ord" by blast
  show thesis
  proof (cases "r = NO_REASON")
    case False
    with r show thesis
      by (intro rejected [of r])
        (auto simp: processOrder_def Let_def bump_def [symmetric] split: prod.splits)
  next
    case True
    with r have adm: "admitted (bump e) ord" by simp
    have old: "\<forall>x \<in> book_orders (book (bump e)).
        o_id x \<in> seen_order_ids (bump e) \<and> o_sequence x \<le> sequence (bump e)"
      using ok headroom_sequence(2) [OF room] by (auto simp: engine_ok_def)
    obtain fs q' xs' where fill: "spec_fill (crosses ord) (o_quantity ord)
        (resting (book (bump e)) (opposite (o_side ord))) = (fs, q', xs')" by (metis prod_cases3)
    have "processOrder e ord out = execute_accepted (bump e) ord out"
      using True r(1) by (simp add: processOrder_def Let_def bump_def [symmetric])
    with execute_accepted_outcome [OF bok old adm fill, of out] adm fill show thesis
      by (auto intro: accepted)
  qed
qed

section \<open>Every command returns and keeps the invariant\<close>

text \<open>After a fill that leaves some quantity, no order of the other side is acceptable any more.\<close>

lemma no_cross_left:
  assumes "book_ok b'" and "isValidSide (o_side ord)" and "isValidOrderType (o_type ord)"
    and "resting b' (opposite (o_side ord)) = xs'"
    and "spec_fill (crosses ord) q xs = (fs, q', xs')" and "q' \<noteq> 0" and "y \<in> set xs'"
  shows "\<not> crosses ord y"
proof (cases xs')
  case Nil
  with assms(7) show ?thesis by simp
next
  case (Cons z zs)
  have "\<not> crosses ord z" using spec_fill_stops [OF assms(5,6)] Cons by simp
  moreover have "\<forall>y \<in> set zs. \<not> ahead_of (opposite (o_side ord)) (o_price y) (o_price z)"
    using resting_sorted [OF assms(1) opposite_simps(3), of "o_side ord"] assms(4) Cons by simp
  ultimately show ?thesis
    using assms(7) Cons by (auto simp: crosses_def ahead_of_def opposite_def split: if_splits)
qed

lemma accepted_uncrossed:
  assumes old: "uncrossed b" and ok: "book_ok b'"
    and v: "isValidSide (o_side ord)" "isValidOrderType (o_type ord)"
    and fill: "spec_fill (crosses ord) q (resting b (opposite (o_side ord))) = (fs, q', xs')"
    and new: "resting b' (opposite (o_side ord)) = xs'"
    and own: "set (resting b' (o_side ord)) \<subseteq>
      insert (ord\<lparr>o_quantity := q', o_sequence := n\<rparr>) (set (resting b (o_side ord)))"
    and stay: "q' = 0 \<Longrightarrow> resting b' (o_side ord) = resting b (o_side ord)"
  shows "uncrossed b'"
proof -
  have apart: "\<not> crosses ord y" if "q' \<noteq> 0" "y \<in> set xs'" for y
    using no_cross_left [OF ok v new fill that] .
  have keep: "\<exists>x \<in> set (resting b (opposite (o_side ord))). o_price y = o_price x" if "y \<in> set xs'" for y
    using spec_fill_origin [OF fill that] by auto
  from v(1) show ?thesis
  proof (cases rule: isValidSide_cases)
    case BUY
    with own new stay apart keep old show ?thesis
      by (fastforce simp: uncrossed_resting crosses_def)
  next
    case SELL
    with own new stay apart keep old show ?thesis
      by (fastforce simp: uncrossed_resting crosses_def)
  qed
qed

lemma orderCount_side:
  assumes "book_ok b" and "isValidSide s"
  shows "orderCount b = length (resting b s) + length (resting b (opposite s))"
  using assms(2) by (cases rule: isValidSide_cases) (simp_all add: orderCount_resting [OF assms(1)])

lemma processOrder_ok:
  assumes ok: "engine_ok e" and room: "headroom (Suc n) e" and price: "is_i64 (o_price ord)"
  shows "\<exists>rep e' ts. processOrder e ord out = Some (rep, e', out @ ts) \<and> engine_ok e' \<and> headroom n e'"
proof (rule processOrder_outcome [OF ok room, of ord out])
  fix r assume "processOrder e ord out =
    Some (fst (rejectedReport (bump e) ord (sequence e + 1) r),
          snd (rejectedReport (bump e) ord (sequence e + 1) r), out)"
  with ok room headroom_sequence [OF room] show ?thesis
    by (fastforce simp: rejectedReport_def engine_ok_def headroom_def)
next
  fix fs q' xs' b'
  assume adm: "admitted (bump e) ord"
    and fill: "spec_fill (crosses ord) (o_quantity ord) (resting (book e) (opposite (o_side ord))) =
      (fs, q', xs')"
    and res: "processOrder e ord out =
        Some (accepted_report (stamped (bump e) ord\<lparr>o_quantity := q'\<rparr>) (sequence e + 1) (o_quantity ord)
                (rests ord q') (length fs),
              after_accept (bump e) ord b' (length fs),
              out @ fill_trades (stamped (bump e) ord) (next_trade_id e) fs)"
    and b': "book_ok b'" "resting b' (opposite (o_side ord)) = xs'"
    and own: "resting b' (o_side ord) =
        (if rests ord q' then spec_insert (o_side ord) (stamped (bump e) ord\<lparr>o_quantity := q'\<rparr>)
                                (resting (book e) (o_side ord))
         else resting (book e) (o_side ord))"
  let ?e = "after_accept (bump e) ord b' (length fs)"
  note v = admitted_valid [OF adm]
  from ok have bok: "book_ok (book e)" "uncrossed (book e)"
    and old: "\<And>x. x \<in> book_orders (book e) \<Longrightarrow>
      o_id x \<in> seen_order_ids e \<and> o_sequence x \<le> sequence e \<and> is_i64 (o_price x)"
    by (auto simp: engine_ok_def)
  have unc: "uncrossed b'"
    by (rule accepted_uncrossed [OF bok(2) b'(1) v(1,2) fill b'(2), of "sequence e + 1"])
      (auto simp: own set_spec_insert stamped_def rests_def)
  have "o_id x \<in> insert (o_id ord) (seen_order_ids e) \<and> o_sequence x \<le> sequence e + 1 \<and> is_i64 (o_price x)"
    if "x \<in> book_orders b'" for x
  proof (cases "x = stamped (bump e) ord\<lparr>o_quantity := q'\<rparr>")
    case True
    with price show ?thesis by simp
  next
    case False
    with that have "x \<in> set (resting (book e) (o_side ord)) \<or> x \<in> set xs'"
      using own b'(2) by (auto simp: book_orders_side [of _ "o_side ord"] set_spec_insert split: if_splits)
    then obtain y where "y \<in> book_orders (book e)" "o_id x = o_id y" "o_price x = o_price y"
        "o_sequence x = o_sequence y"
      using spec_fill_origin [OF fill, of x] by (auto simp: book_orders_side [of _ "o_side ord"])
    with old [of y] headroom_sequence(2) [OF room] show ?thesis by auto
  qed
  with unc b' have "engine_ok ?e" by (simp add: engine_ok_def)
  moreover have "length (resting b' (o_side ord)) \<le> Suc (length (resting (book e) (o_side ord)))"
    using own mset_spec_insert by (metis le_Suc_eq size_add_mset size_mset order_refl)
  then have "headroom n ?e"
    using room spec_fill_length [OF fill] b'(2) headroom_sequence(1) [OF room]
    by (simp add: headroom_def orderCount_side [OF b'(1) v(1)] orderCount_side [OF bok(1) v(1)])
  ultimately show ?thesis using res by blast
qed

lemma cancel_outcome:
  assumes ok: "engine_ok e" and room: "headroom (Suc n) e"
  shows "\<exists>rep e'. cancel e i = Some (rep, e') \<and> engine_ok e' \<and> headroom n e' \<and>
    e' = (bump e)\<lparr>book := book e', canceled_orders := canceled_orders e'\<rparr> \<and>
    resting (book e') BUY = spec_cancel i (resting (book e) BUY) \<and>
    resting (book e') SELL = spec_cancel i (resting (book e) SELL) \<and>
    (case find (\<lambda>x. o_id x = i) (resting (book e) BUY @ resting (book e) SELL) of
       None \<Rightarrow> r_status rep = REJECTED \<and> canceled_orders e' = canceled_orders e \<and> book e' = book e \<and>
         r_reject_reason rep = (if i = 0 then INVALID_ORDER_ID else ORDER_NOT_FOUND)
     | Some x \<Rightarrow> r_status rep = CANCELED \<and> canceled_orders e' = canceled_orders e + 1 \<and>
         r_reject_reason rep = NO_REASON \<and> r_requested_quantity rep = o_quantity x) \<and>
    r_order_id rep = i \<and> r_sequence rep = sequence e + 1 \<and> r_command rep = CANCEL_ORDER \<and>
    r_remaining_quantity rep = 0 \<and> r_executed_quantity rep = 0 \<and> r_trade_count rep = 0"
proof -
  from ok have bok: "book_ok (book e)" by (simp add: engine_ok_def)
  let ?all = "resting (book e) BUY @ resting (book e) SELL"
  let ?found = "find (\<lambda>x. o_id x = i) ?all"
  from cancelOrder_refines [OF bok, of i] obtain b' where
    b': "cancelOrder (book e) i = Some (?found, b')" "book_ok b'"
      "resting b' BUY = spec_cancel i (resting (book e) BUY)"
      "resting b' SELL = spec_cancel i (resting (book e) SELL)" by blast
  have same: "b' = book e" if "?found = None" and "i \<noteq> 0"
    using that b'(1) cancelOrder_absent [of "book e" i] contains_resting [OF bok, of i]
    by (auto simp: find_None_iff)
  have zero: "?found = None \<and> spec_cancel i (resting (book e) BUY) = resting (book e) BUY \<and>
      spec_cancel i (resting (book e) SELL) = resting (book e) SELL" if "i = 0"
  proof -
    have "o_id x \<noteq> 0" if "x \<in> set ?all" for x
      using that resting_order_ok [OF bok, of BUY x] resting_order_ok [OF bok, of SELL x]
      by (auto simp: order_ok_def)
    with \<open>i = 0\<close> show ?thesis by (auto simp: find_None_iff spec_cancel_def filter_id_conv)
  qed
  have "uncrossed b'" and sub: "book_orders b' \<subseteq> book_orders (book e)"
    using ok b'(3,4) by (auto simp: engine_ok_def uncrossed_resting book_orders_def spec_cancel_def)
  moreover have "orderCount b' \<le> orderCount (book e)"
    by (simp add: orderCount_resting bok b' spec_cancel_def add_mono)
  ultimately have keep: "engine_ok e' \<and> headroom n e'"
    if "book e' = b' \<or> book e' = book e" "sequence e' = sequence e + 1" "seen_order_ids e' = seen_order_ids e" for e'
    using that ok room b'(2) headroom_sequence [OF room]
    by (fastforce simp: engine_ok_def headroom_def)
  show ?thesis
  proof (cases "i = 0")
    case True
    then show ?thesis
      using zero keep [of "bump e"] by (auto simp: cancel_def Let_def bump_def default_report_def)
  next
    case False
    then show ?thesis
      using b' same by (cases ?found) (auto simp: cancel_def Let_def bump_def default_report_def
          intro!: keep [THEN conjunct1] keep [THEN conjunct2])
  qed
qed

text \<open>The trades of a command are appended; what the caller already collected has no influence.\<close>

lemma match_loop_frame:
  "match_loop ord b tid (pre @ out) =
     map_option (\<lambda>(ord', b', tid', ts). (ord', b', tid', pre @ ts)) (match_loop ord b tid out)"
proof (induction ord b tid out rule: match_loop.induct)
  case (1 ord b tid out)
  let ?s = "opposite (o_side ord)"
  show ?case
  proof (cases "0 < o_quantity ord \<and> \<not> emptySide b ?s")
    case False
    then show ?thesis by (subst (1 2) match_loop.simps) auto
  next
    case go: True
    show ?thesis
    proof (cases "\<exists>best b'. frontOfBest b ?s = Some (Some best) \<and> crosses ord best \<and>
        reduceFront b ?s (min (o_quantity ord) (o_quantity best)) = Some b'")
      case False
      with go show ?thesis
        by (subst (1 2) match_loop.simps) (auto split: option.splits)
    next
      case True
      then obtain best b' where step: "frontOfBest b ?s = Some (Some best)" "crosses ord best"
        "reduceFront b ?s (min (o_quantity ord) (o_quantity best)) = Some b'" by blast
      have "\<not> \<not> crosses ord best" using step(2) by simp
      from 1 [OF go step(1) refl this step(3)] go step show ?thesis
        by (subst (1 2) match_loop.simps) simp
    qed
  qed
qed

lemma processOrder_frame:
  "processOrder e ord out =
     map_option (\<lambda>(rep, e', ts). (rep, e', out @ ts)) (processOrder e ord [])"
proof -
  have "execute_accepted e ord out =
      map_option (\<lambda>(rep, e', ts). (rep, e', out @ ts)) (execute_accepted e ord [])" for e
    using match_loop_frame [of "ord\<lparr>o_sequence := sequence e\<rparr>" "book e" "next_trade_id e" out "[]"]
    by (auto simp: execute_accepted_def Let_def split: option.splits prod.splits)
  then show ?thesis
    by (auto simp: processOrder_def Let_def rejectedReport_def split: option.splits)
qed

section \<open>What a report tells\<close>

lemma accepted_report_not_rejected: "r_status (accepted_report ord n q r k) \<noteq> REJECTED"
  by (simp add: accepted_report_def Let_def)

lemma processOrder_rejected:
  assumes "engine_ok e" and "headroom (Suc n) e" and "processOrder e ord out = Some (rep, e', out')"
    and "r_status rep = REJECTED"
  shows "e' = (bump e)\<lparr>rejected_orders := rejected_orders e + 1\<rparr>" and "out' = out"
    and "admission (bump e) ord = Some (r_reject_reason rep)" and "r_reject_reason rep \<noteq> NO_REASON"
    and "r_order_id rep = o_id ord" and "r_sequence rep = sequence e + 1" and "r_trade_count rep = 0"
    and "r_requested_quantity rep = o_quantity ord" and "r_remaining_quantity rep = o_quantity ord"
    and "r_executed_quantity rep = 0" and "\<not> admitted (bump e) ord"
  using assms(3,4)
  by (atomize (full), cases rule: processOrder_outcome [OF assms(1,2), of ord out])
    (auto simp: rejectedReport_def default_report_def accepted_report_not_rejected)

lemma processOrder_accepted:
  assumes "engine_ok e" and "headroom (Suc n) e" and "processOrder e ord out = Some (rep, e', out')"
    and "r_status rep \<noteq> REJECTED"
    and "spec_fill (crosses ord) (o_quantity ord) (resting (book e) (opposite (o_side ord))) = (fs, q', xs')"
  shows "admitted (bump e) ord"
    and "rep = accepted_report (stamped (bump e) ord\<lparr>o_quantity := q'\<rparr>) (sequence e + 1) (o_quantity ord)
           (rests ord q') (length fs)"
    and "e' = after_accept (bump e) ord (book e') (length fs)"
    and "out' = out @ fill_trades (stamped (bump e) ord) (next_trade_id e) fs"
    and "book_ok (book e')" and "resting (book e') (opposite (o_side ord)) = xs'"
    and "resting (book e') (o_side ord) =
        (if rests ord q' then spec_insert (o_side ord) (stamped (bump e) ord\<lparr>o_quantity := q'\<rparr>)
                                (resting (book e) (o_side ord))
         else resting (book e) (o_side ord))"
  using assms(3-5)
  by (atomize (full), cases rule: processOrder_outcome [OF assms(1,2), of ord out])
    (auto simp: rejectedReport_def default_report_def)

text \<open>The quantity executable before matching falls short exactly when matching leaves something.\<close>

lemma executable_short_iff:
  assumes "book_ok b" and "isValidSide (o_side ord)" and "isValidOrderType (o_type ord)"
    and "orderCount b \<le> 2 ^ 32" and "o_quantity ord \<noteq> 0"
    and "spec_fill (crosses ord) (o_quantity ord) (resting b (opposite (o_side ord))) = (fs, q', xs')"
  shows "executableQuantity b ord (ucast (o_quantity ord)) < ucast (o_quantity ord) \<longleftrightarrow> q' \<noteq> 0"
proof -
  have "unat (executableQuantity b ord (ucast (o_quantity ord))) = fill_total fs"
    using executableQuantity_exact [OF assms(1-5)] spec_fill_total [OF assms(6)] by simp
  then have "executableQuantity b ord (ucast (o_quantity ord)) < ucast (o_quantity ord) \<longleftrightarrow>
      fill_total fs < unat (o_quantity ord)"
    by (simp add: word_less_nat_alt)
  also have "\<dots> \<longleftrightarrow> unat q' \<noteq> 0" using spec_fill_conserves [OF assms(6)] by linarith
  finally show ?thesis by (simp add: unat_eq_0)
qed

text \<open>The trades written for a list of fills.\<close>

lemma fill_trades_nth:
  "k < length fs \<Longrightarrow> fill_trades ord tid fs ! k = make_trade ord (fst (fs ! k)) (tid + of_nat k) (snd (fs ! k))"
  by (induction fs arbitrary: tid k) (auto simp: nth_Cons' algebra_simps)

lemma fill_trades_quantities: "map t_quantity (fill_trades ord tid fs) = map snd fs"
  by (induction fs arbitrary: tid) (auto simp: make_trade_def)

lemma set_fill_trades:
  "t \<in> set (fill_trades ord tid fs) \<Longrightarrow> \<exists>x q i. (x, q) \<in> set fs \<and> t = make_trade ord x i q"
  by (induction fs arbitrary: tid) (auto, blast+)

lemma fill_count_bound:
  assumes "book_ok b" and "spec_fill (crosses ord) q (resting b (opposite s)) = (fs, q', xs')"
  shows "length fs \<le> unat q" and "length fs < 2 ^ 32"
proof -
  have "\<forall>x \<in> set (resting b (opposite s)). o_quantity x \<noteq> 0"
    using resting_order_ok [OF assms(1) opposite_simps(3)] by (auto simp: order_ok_def)
  with assms(2) have "\<forall>f \<in> set fs. snd f \<noteq> 0" by (metis prod.collapse spec_fill_fill_bounds)
  from length_fills_le [OF this] spec_fill_conserves [OF assms(2)] show "length fs \<le> unat q" by simp
  from le_less_trans [OF this unat_u32_less] show "length fs < 2 ^ 32" by simp
qed

end
