(* ===== verification/Book_Check.thy ===== *)
theory Book_Check
  imports Engine_Refinement
begin

text \<open>
  The read-only queries of the order book: the self-check \<open>checkInvariants\<close> is exact, the spread does
  not overflow, and the depth snapshot shows the best levels.
\<close>

section \<open>The self-check\<close>

definition cell_checked :: "OrderBook \<Rightarrow> Side \<Rightarrow> int \<Rightarrow> cell \<Rightarrow> bool" where
  "cell_checked b s p c \<longleftrightarrow> o_id (snd c) \<noteq> 0 \<and> o_quantity (snd c) \<noteq> 0 \<and> o_price (snd c) = p \<and>
     o_side (snd c) = s \<and> o_type (snd c) = LIMIT \<and>
     map_of (locations b) (o_id (snd c)) = Some (snd (loc_entry c))"

lemma check_orders_iff:
  "check_orders b s p first prev tot (k, S) cs = Some r \<longleftrightarrow>
     (\<forall>c \<in> set cs. cell_checked b s p c) \<and> sorted (map (o_sequence \<circ> snd) cs) \<and>
     (\<not> first \<longrightarrow> (\<forall>c \<in> set cs. prev \<le> o_sequence (snd c))) \<and>
     distinct (map (o_id \<circ> snd) cs) \<and> S \<inter> (o_id \<circ> snd) ` set cs = {} \<and>
     r = (tot + level_sum cs, k + of_nat (length cs), S \<union> (o_id \<circ> snd) ` set cs)"
proof (induction cs arbitrary: first prev tot k S)
  case Nil
  then show ?case by auto
next
  case (Cons c cs)
  obtain n ord where c: "c = (n, ord)" by (cases c)
  let ?head = "cell_checked b s p c \<and> (\<not> first \<longrightarrow> prev \<le> o_sequence ord) \<and> o_id ord \<notin> S"
  have "check_orders b s p first prev tot (k, S) (c # cs) =
      (if ?head then check_orders b s p False (o_sequence ord) (tot + ucast (o_quantity ord))
         (k + 1, insert (o_id ord) S) cs else None)"
    by (auto simp: c cell_checked_def loc_entry_def not_less split: option.splits)
  moreover have "(S \<inter> (o_id \<circ> snd) ` set (c # cs) = {} \<and> distinct (map (o_id \<circ> snd) (c # cs))) =
      (o_id ord \<notin> S \<and> insert (o_id ord) S \<inter> (o_id \<circ> snd) ` set cs = {} \<and>
       distinct (map (o_id \<circ> snd) cs))"
    by (auto simp: c)
  ultimately show ?case
    by (auto simp: Cons.IH c add.assoc add.commute add.left_commute)
qed

definition level_checked :: "OrderBook \<Rightarrow> Side \<Rightarrow> int \<times> PriceLevel \<Rightarrow> bool" where
  "level_checked b s pl \<longleftrightarrow> orders (snd pl) \<noteq> [] \<and>
     (\<forall>c \<in> set (orders (snd pl)). cell_checked b s (fst pl) c) \<and>
     sorted (map (o_sequence \<circ> snd) (orders (snd pl))) \<and>
     total_quantity (snd pl) = level_sum (orders (snd pl))"

lemma check_level_eq:
  "check_level b s p lv (k, S) =
     (if level_checked b s (p, lv) \<and> distinct (map (o_id \<circ> snd) (orders lv)) \<and>
         S \<inter> (o_id \<circ> snd) ` set (orders lv) = {}
      then Some (k + of_nat (length (orders lv)), S \<union> (o_id \<circ> snd) ` set (orders lv)) else None)"
proof -
  have "check_orders b s p True 0 0 (k, S) (orders lv) =
      (if (\<forall>c \<in> set (orders lv). cell_checked b s p c) \<and> sorted (map (o_sequence \<circ> snd) (orders lv)) \<and>
          distinct (map (o_id \<circ> snd) (orders lv)) \<and> S \<inter> (o_id \<circ> snd) ` set (orders lv) = {}
       then Some (level_sum (orders lv), k + of_nat (length (orders lv)),
         S \<union> (o_id \<circ> snd) ` set (orders lv)) else None)"
    by (rule option_eq_if) (auto simp: check_orders_iff)
  then show ?thesis by (auto simp: check_level_def level_checked_def)
qed

lemma check_levels_iff:
  "(\<exists>pp. check_levels b s (\<lambda>p q. \<not> ahead_of s q p) first prev (k, S) m = Some (pp, r)) \<longleftrightarrow>
     (\<forall>pl \<in> set m. level_checked b s pl) \<and> sorted_wrt (ahead_of s) (map fst m) \<and>
     (\<not> first \<longrightarrow> (\<forall>p \<in> fst ` set m. ahead_of s prev p)) \<and>
     distinct (map (o_id \<circ> snd) (cells m)) \<and> S \<inter> (o_id \<circ> snd) ` set (cells m) = {} \<and>
     r = (k + of_nat (length (cells m)), S \<union> (o_id \<circ> snd) ` set (cells m))"
proof (induction m arbitrary: first prev k S)
  case Nil
  then show ?case by auto
next
  case (Cons pl m)
  obtain p lv where pl: "pl = (p, lv)" by (cases pl)
  let ?ids = "(o_id \<circ> snd) ` set (orders lv)"
  have trans: "ahead_of s q p \<Longrightarrow> ahead_of s p p' \<Longrightarrow> ahead_of s q p'" for q p'
    by (auto simp: ahead_of_def split: if_splits)
  have "(\<exists>pp. check_levels b s (\<lambda>p q. \<not> ahead_of s q p) first prev (k, S) (pl # m) = Some (pp, r)) \<longleftrightarrow>
      (\<not> first \<longrightarrow> ahead_of s prev p) \<and> level_checked b s pl \<and> distinct (map (o_id \<circ> snd) (orders lv)) \<and>
      S \<inter> ?ids = {} \<and>
      (\<exists>pp. check_levels b s (\<lambda>p q. \<not> ahead_of s q p) False p
         (k + of_nat (length (orders lv)), S \<union> ?ids) m = Some (pp, r))"
    by (auto simp: pl check_level_eq)
  also have "\<dots> \<longleftrightarrow> (\<not> first \<longrightarrow> ahead_of s prev p) \<and> level_checked b s pl \<and>
      distinct (map (o_id \<circ> snd) (orders lv)) \<and> S \<inter> ?ids = {} \<and>
      (\<forall>pl \<in> set m. level_checked b s pl) \<and> sorted_wrt (ahead_of s) (map fst m) \<and>
      (\<forall>q \<in> fst ` set m. ahead_of s p q) \<and> distinct (map (o_id \<circ> snd) (cells m)) \<and>
      (S \<union> ?ids) \<inter> (o_id \<circ> snd) ` set (cells m) = {} \<and>
      r = (k + of_nat (length (orders lv)) + of_nat (length (cells m)),
        (S \<union> ?ids) \<union> (o_id \<circ> snd) ` set (cells m))"
    by (simp add: Cons.IH comp_def)
  also have "\<dots> \<longleftrightarrow> (\<forall>pl \<in> set (pl # m). level_checked b s pl) \<and> sorted_wrt (ahead_of s) (map fst (pl # m)) \<and>
      (\<not> first \<longrightarrow> (\<forall>p \<in> fst ` set (pl # m). ahead_of s prev p)) \<and>
      distinct (map (o_id \<circ> snd) (cells (pl # m))) \<and> S \<inter> (o_id \<circ> snd) ` set (cells (pl # m)) = {} \<and>
      r = (k + of_nat (length (cells (pl # m))), S \<union> (o_id \<circ> snd) ` set (cells (pl # m)))"
    using trans by (auto simp: pl add.assoc Un_assoc image_Un)
  finally show ?case .
qed

text \<open>
  What the containers give without any check: the list nodes are distinct and allocated, the keys of
  the index are distinct, fewer than \<open>2\<^sup>6\<^sup>4\<close> orders are stored; and prices are positive, which the
  self-check does not test.
\<close>

definition storage_ok :: "OrderBook \<Rightarrow> bool" where
  "storage_ok b \<longleftrightarrow> distinct (map fst (all_cells b)) \<and> (\<forall>c \<in> set (all_cells b). fst c < next_node b) \<and>
     distinct (map fst (locations b)) \<and> length (locations b) < 2 ^ 64 \<and> length (all_cells b) < 2 ^ 64 \<and>
     (\<forall>c \<in> set (all_cells b). 0 < o_price (snd c))"

lemma level_checked_ok:
  assumes "\<forall>pl \<in> set m. level_checked b s pl" and "sorted_wrt (ahead_of s) (map fst m)"
    and "\<forall>c \<in> set (cells m). 0 < o_price (snd c)"
  shows "levels_ok (ahead_of s) s m"
    and "\<forall>c \<in> set (cells m). loc_entry c \<in> set (locations b)"
proof -
  show "levels_ok (ahead_of s) s m"
    using assms by (fastforce simp: levels_ok_def level_ok_def level_checked_def cell_checked_def
        order_ok_def cells_def)
  show "\<forall>c \<in> set (cells m). loc_entry c \<in> set (locations b)"
  proof
    fix c assume "c \<in> set (cells m)"
    then obtain pl where "pl \<in> set m" "c \<in> set (orders (snd pl))" by (auto simp: cells_def)
    with assms(1) have "map_of (locations b) (o_id (snd c)) = Some (snd (loc_entry c))"
      by (auto simp: level_checked_def cell_checked_def)
    from map_of_SomeD [OF this] show "loc_entry c \<in> set (locations b)" by (simp add: loc_entry_def)
  qed
qed

lemma book_ok_level_checked:
  assumes "book_ok b" and "isValidSide s" and "pl \<in> set (levels_of b s)"
  shows "level_checked b s pl"
proof -
  from book_ok_side [OF assms(1,2)] assms(3) have lv: "level_ok s (fst pl) (snd pl)"
    by (auto simp: levels_ok_def)
  have "cell_checked b s (fst pl) c" if c: "c \<in> set (orders (snd pl))" for c
  proof -
    have "c \<in> set (all_cells b)"
      using c assms(3) by (auto simp: set_all_cells [of b s] side_cells_def cells_def)
    then have "map_of (locations b) (o_id (snd c)) = Some (snd (loc_entry c))"
      using index_ok_lookup [OF book_ok_index [OF assms(1)]] by (auto simp: loc_entry_def)
    with lv c show ?thesis by (auto simp: cell_checked_def level_ok_def order_ok_def)
  qed
  with lv show ?thesis by (auto simp: level_checked_def level_ok_def)
qed

lemma index_ok_from_check:
  assumes store: "storage_ok b" and ids: "distinct (map (o_id \<circ> snd) (all_cells b))"
    and locs: "loc_entry ` set (all_cells b) \<subseteq> set (locations b)"
    and len: "length (all_cells b) = length (locations b)"
  shows "index_ok b"
proof -
  have "map fst (map loc_entry (all_cells b)) = map (o_id \<circ> snd) (all_cells b)"
    by (simp add: loc_entry_def)
  with ids have d: "distinct (map loc_entry (all_cells b))" by (metis distinct_map)
  have "distinct (locations b)" using store by (simp add: storage_ok_def distinct_map)
  with d locs have "mset (map loc_entry (all_cells b)) \<subseteq># mset (locations b)"
    by (metis List.finite_set mset_set_set set_map subset_imp_msubset_mset_set)
  moreover have "size (mset (map loc_entry (all_cells b))) = size (mset (locations b))"
    using len by simp
  ultimately have "mset (map loc_entry (all_cells b)) = mset (locations b)"
    by (metis mset_subset_size nat_neq_iff subset_mset.order_iff_strict)
  with store ids show ?thesis by (simp add: index_ok_def storage_ok_def)
qed

lemma spread_uncrossed:
  assumes "book_ok b"
  shows "(case spread b of None \<Rightarrow> True | Some d \<Rightarrow> 0 < d) \<longleftrightarrow> uncrossed b"
proof -
  have s: "sorted_wrt (\<lambda>x y. \<not> ahead_of t (o_price y) (o_price x)) (resting b t)"
    if "isValidSide t" for t
    using resting_sorted [OF assms that] .
  show ?thesis
    using s [of BUY] s [of SELL]
    by (cases "resting b BUY"; cases "resting b SELL")
      (fastforce simp: spread_def best_price_resting [OF assms] uncrossed_resting ahead_of_def)+
qed

text \<open>The self-check succeeds exactly on the well-formed, uncrossed books.\<close>

lemma checkInvariants_iff:
  assumes store: "storage_ok b"
  shows "checkInvariants b \<longleftrightarrow> book_ok b \<and> uncrossed b"
proof -
  let ?buy = "buy_levels b" and ?sell = "sell_levels b"
  have all: "all_cells b = cells ?buy @ cells ?sell" by (simp add: all_cells_def)
  have mis: "(\<lambda>p q. q \<le> p) = (\<lambda>p q. \<not> ahead_of BUY q p)" "(\<lambda>p q. p \<le> q) = (\<lambda>p q. \<not> ahead_of SELL q p)"
    by (auto simp: ahead_of_def fun_eq_iff)
  have buy: "(\<exists>pp. check_levels b BUY (\<lambda>p q. q \<le> p) True 0 (0, {}) ?buy = Some (pp, r)) \<longleftrightarrow>
      (\<forall>pl \<in> set ?buy. level_checked b BUY pl) \<and> sorted_wrt (ahead_of BUY) (map fst ?buy) \<and>
      distinct (map (o_id \<circ> snd) (cells ?buy)) \<and>
      r = (of_nat (length (cells ?buy)), (o_id \<circ> snd) ` set (cells ?buy))" for r
    unfolding mis(1) by (subst check_levels_iff) auto
  have sell: "(\<exists>pp. check_levels b SELL (\<lambda>p q. p \<le> q) True p0 (k, S) ?sell = Some (pp, r)) \<longleftrightarrow>
      (\<forall>pl \<in> set ?sell. level_checked b SELL pl) \<and> sorted_wrt (ahead_of SELL) (map fst ?sell) \<and>
      distinct (map (o_id \<circ> snd) (cells ?sell)) \<and> S \<inter> (o_id \<circ> snd) ` set (cells ?sell) = {} \<and>
      r = (k + of_nat (length (cells ?sell)), S \<union> (o_id \<circ> snd) ` set (cells ?sell))" for p0 k S r
    unfolding mis(2) by (subst check_levels_iff) auto
  have "checkInvariants b \<longleftrightarrow> (case spread b of None \<Rightarrow> True | Some d \<Rightarrow> 0 < d) \<and>
      (\<exists>k S k' S' p0. (\<exists>pp. pp = p0 \<and> check_levels b BUY (\<lambda>p q. q \<le> p) True 0 (0, {}) ?buy = Some (pp, (k, S))) \<and>
        (\<exists>pp. check_levels b SELL (\<lambda>p q. p \<le> q) True p0 (k, S) ?sell = Some (pp, (k', S'))) \<and>
        k' = of_nat (length (locations b)))"
    by (auto simp: checkInvariants_def not_le split: option.splits prod.splits)
  also have "\<dots> \<longleftrightarrow> (case spread b of None \<Rightarrow> True | Some d \<Rightarrow> 0 < d) \<and>
      (\<forall>pl \<in> set ?buy. level_checked b BUY pl) \<and> sorted_wrt (ahead_of BUY) (map fst ?buy) \<and>
      (\<forall>pl \<in> set ?sell. level_checked b SELL pl) \<and> sorted_wrt (ahead_of SELL) (map fst ?sell) \<and>
      distinct (map (o_id \<circ> snd) (all_cells b)) \<and>
      (of_nat (length (all_cells b)) :: u64) = of_nat (length (locations b))"
    unfolding sell all using buy by (auto simp: image_comp) 
  also have "(of_nat (length (all_cells b)) = (of_nat (length (locations b)) :: u64)) \<longleftrightarrow>
      length (all_cells b) = length (locations b)"
    using store by (auto simp: storage_ok_def of_nat_inverse dest: of_nat_inverse)
  finally have check: "checkInvariants b \<longleftrightarrow> (case spread b of None \<Rightarrow> True | Some d \<Rightarrow> 0 < d) \<and>
      (\<forall>pl \<in> set ?buy. level_checked b BUY pl) \<and> sorted_wrt (ahead_of BUY) (map fst ?buy) \<and>
      (\<forall>pl \<in> set ?sell. level_checked b SELL pl) \<and> sorted_wrt (ahead_of SELL) (map fst ?sell) \<and>
      distinct (map (o_id \<circ> snd) (all_cells b)) \<and> length (all_cells b) = length (locations b)" .
  show ?thesis
  proof
    assume "checkInvariants b"
    note c = this [unfolded check]
    have pos: "\<forall>c \<in> set (cells ?buy). 0 < o_price (snd c)" "\<forall>c \<in> set (cells ?sell). 0 < o_price (snd c)"
      using store by (auto simp: storage_ok_def all)
    note lb = level_checked_ok [of ?buy b BUY] and ls = level_checked_ok [of ?sell b SELL]
    have "index_ok b"
      by (rule index_ok_from_check [OF store]) (use c lb(2) ls(2) pos in \<open>auto simp: all\<close>)
    then have "book_ok b" using c lb(1) ls(1) pos by (simp add: book_ok_def)
    with c spread_uncrossed show "book_ok b \<and> uncrossed b" by blast
  next
    assume ok: "book_ok b \<and> uncrossed b"
    then have i: "index_ok b" by (simp add: book_ok_index)
    from ok book_ok_level_checked [of b BUY] book_ok_level_checked [of b SELL] spread_uncrossed [of b]
      index_ok_orderCount [OF i] i
    show "checkInvariants b"
      by (auto simp: check levels_of_def book_ok_def levels_ok_def index_ok_def orderCount_def)
  qed
qed

section \<open>The depth snapshot\<close>

definition level_snapshot :: "int \<times> PriceLevel \<Rightarrow> LevelSnapshot" where
  "level_snapshot pl = \<lparr>ls_price = fst pl, ls_total_quantity = total_quantity (snd pl),
     ls_order_count = length (orders (snd pl))\<rparr>"

lemma top_levels_loop_take:
  "length out \<le> n \<Longrightarrow> top_levels_loop n out m = out @ map level_snapshot (take (n - length out) m)"
proof (induction m arbitrary: out)
  case Nil
  then show ?case by simp
next
  case (Cons pl m)
  obtain p lv where "pl = (p, lv)" by (cases pl)
  with Cons show ?case by (cases "length out = n") (auto simp: level_snapshot_def take_Cons')
qed

lemma topLevels_take: "topLevels b s n = map level_snapshot (take n (levels_of b s))"
  by (simp add: topLevels_def levels_of_def top_levels_loop_take)

text \<open>What a snapshot of one side should show: each price with the quantity and the number of its orders.\<close>

definition depth_of :: "Order list \<Rightarrow> (int \<times> nat \<times> nat) list" where
  "depth_of xs = map (\<lambda>p. (p, resting_total (filter (\<lambda>x. o_price x = p) xs),
     length (filter (\<lambda>x. o_price x = p) xs))) (remdups_adj (map o_price xs))"

context price_order
begin

lemma levels_prices:
  assumes "levels_ok ahead s m"
  shows "remdups_adj (map (o_price \<circ> snd) (cells m)) = map fst m"
  using assms
proof (induction m)
  case Nil
  then show ?case by simp
next
  case (Cons pl m)
  obtain p lv where pl: "pl = (p, lv)" by (cases pl)
  with Cons.prems have ok: "level_ok s p lv" "\<forall>q \<in> fst ` set m. ahead p q" "levels_ok ahead s m"
    by (auto simp: levels_ok_Cons)
  let ?ps = "map (o_price \<circ> snd) (orders lv)" and ?qs = "map (o_price \<circ> snd) (cells m)"
  have own: "?ps = replicate (length (orders lv)) p" "?ps \<noteq> []"
    using ok(1) by (auto simp: level_ok_def order_ok_def map_replicate_const [symmetric])
  have "set ?qs \<subseteq> fst ` set m" using levels_ok_cell(2) [OF ok(3)] by auto
  then have "p \<notin> set ?qs" using ok(2) ahead_irrefl by blast
  then have "?qs = [] \<or> last ?ps \<noteq> hd ?qs"
    using own by (metis hd_in_set last_in_set in_set_replicate)
  then have "remdups_adj (?ps @ ?qs) = remdups_adj ?ps @ remdups_adj ?qs"
    by (auto simp: remdups_adj_append')
  also have "remdups_adj ?ps = [p]" using own by (simp add: remdups_adj_replicate)
  finally show ?case using Cons.IH [OF ok(3)] by (simp add: pl)
qed

lemma level_cells:
  assumes "levels_ok ahead s m" and "(p, lv) \<in> set m"
  shows "filter (\<lambda>c. o_price (snd c) = p) (cells m) = orders lv"
proof -
  have "map_of m p = Some lv" using levels_distinct [OF assms(1)] assms(2) by simp
  from level_at [OF assms(1) this] obtain xs ys where m: "m = xs @ (p, lv) # ys"
    "p \<notin> fst ` set xs" "p \<notin> fst ` set ys" by blast
  with assms(1) have ok: "levels_ok ahead s xs" "levels_ok ahead s ys" "level_ok s p lv"
    by (auto simp: levels_ok_append levels_ok_Cons)
  have "filter (\<lambda>c. o_price (snd c) = p) (cells zs) = []" if "levels_ok ahead s zs" "p \<notin> fst ` set zs" for zs
    using that levels_ok_cell(2) by (auto simp: filter_empty_conv)
  moreover have "filter (\<lambda>c. o_price (snd c) = p) (orders lv) = orders lv"
    using ok(3) by (auto simp: filter_id_conv level_ok_def order_ok_def)
  ultimately show ?thesis using m ok by simp
qed

end

lemma topLevels_depth:
  assumes ok: "book_ok b" and v: "isValidSide s" and small: "orderCount b \<le> 2 ^ 32"
  shows "map (\<lambda>l. (ls_price l, unat (ls_total_quantity l), ls_order_count l)) (topLevels b s n) =
    take n (depth_of (resting b s))"
proof -
  let ?m = "levels_of b s"
  note lv = book_ok_side [OF ok v]
  have len: "length (cells ?m) \<le> 2 ^ 32"
    using small orderCount_resting [OF ok] v
    by (cases s) (auto simp: resting_def side_cells_def isValidSide_def)
  have "(p, unat (total_quantity l), length (orders l)) =
      (p, resting_total (filter (\<lambda>x. o_price x = p) (resting b s)),
       length (filter (\<lambda>x. o_price x = p) (resting b s)))" if "(p, l) \<in> set ?m" for p l
  proof -
    have "filter (\<lambda>x. o_price x = p) (resting b s) = map snd (orders l)"
      using side_order.level_cells [OF lv that] by (simp add: resting_def side_cells_def filter_map comp_def)
    moreover have "total_quantity l = level_sum (orders l)"
      using lv that by (auto simp: levels_ok_def level_ok_def)
    moreover have "length (orders l) \<le> 2 ^ 32"
      using len side_order.level_cells [OF lv that] length_filter_le le_trans by metis
    ultimately show ?thesis by (simp add: resting_total_map_snd unat_level_sum [OF qsum_bound])
  qed
  moreover have "depth_of (resting b s) = map (\<lambda>p. (p, resting_total (filter (\<lambda>x. o_price x = p) (resting b s)),
      length (filter (\<lambda>x. o_price x = p) (resting b s)))) (map fst ?m)"
    using side_order.levels_prices [OF lv] by (simp add: depth_of_def resting_def side_cells_def)
  ultimately have "depth_of (resting b s) = map (\<lambda>(p, l). (p, unat (total_quantity l), length (orders l))) ?m"
    by auto
  then show ?thesis by (simp add: topLevels_take take_map level_snapshot_def case_prod_unfold)
qed

end
