(* ===== verification/Engine_Commands.thy ===== *)
theory Engine_Commands
  imports Engine_Correct Book_Check
begin

text \<open>
  Sequences of commands. The engine is driven by streams of new orders and cancels (the main loop of
  the applications, the journal replay, the shard workers); what such a driver needs of the engine is
  the locale \<open>command_machine\<close>: a command always returns, and a budget of commands is used up by one.
\<close>

section \<open>Running a list of commands\<close>

fun run_machine :: "('s \<Rightarrow> 'c \<Rightarrow> ('r \<times> 's) option) \<Rightarrow> 's \<Rightarrow> 'c list \<Rightarrow> ('r list \<times> 's) option" where
  "run_machine step s [] = Some ([], s)"
| "run_machine step s (c # cs) =
     (case step s c of
        None \<Rightarrow> None
      | Some (r, s') \<Rightarrow>
          (case run_machine step s' cs of None \<Rightarrow> None | Some (rs, s'') \<Rightarrow> Some (r # rs, s'')))"

lemma run_machine_append:
  "run_machine step s (cs @ ds) =
     (case run_machine step s cs of
        None \<Rightarrow> None
      | Some (rs, s') \<Rightarrow>
          (case run_machine step s' ds of None \<Rightarrow> None | Some (qs, s'') \<Rightarrow> Some (rs @ qs, s'')))"
  by (induction cs arbitrary: s) (auto split: option.splits)

lemma run_machine_length: "run_machine step s cs = Some (rs, s') \<Longrightarrow> length rs = length cs"
  by (induction cs arbitrary: s rs) (auto split: option.splits)

locale command_machine =
  fixes step :: "'s \<Rightarrow> 'c \<Rightarrow> ('r \<times> 's) option"
    and ok :: "nat \<Rightarrow> 's \<Rightarrow> bool"
    and valid :: "'c \<Rightarrow> bool"
  assumes step_returns: "ok (Suc n) s \<Longrightarrow> valid c \<Longrightarrow> \<exists>r s'. step s c = Some (r, s') \<and> ok n s'"
begin

lemma run_returns:
  assumes "ok (length cs + n) s" and "\<forall>c \<in> set cs. valid c"
  shows "\<exists>rs s'. run_machine step s cs = Some (rs, s') \<and> ok n s' \<and> length rs = length cs"
  using assms
proof (induction cs arbitrary: s)
  case Nil
  then show ?case by simp
next
  case (Cons c cs)
  then obtain r s' where "step s c = Some (r, s')" "ok (length cs + n) s'"
    using step_returns [of "length cs + n" s c] by auto
  with Cons show ?case by fastforce
qed

text \<open>A relation between the state, the commands and the results is kept if each step keeps it.\<close>

lemma run_trace:
  assumes "run_machine step s cs = Some (rs, s')" and "ok (length cs + n) s" and "\<forall>c \<in> set cs. valid c"
    and nil: "\<And>s. Q s [] [] s"
    and cons: "\<And>m s c r s1 cs rs s'. ok (Suc m) s \<Longrightarrow> valid c \<Longrightarrow> step s c = Some (r, s1) \<Longrightarrow>
      Q s1 cs rs s' \<Longrightarrow> Q s (c # cs) (r # rs) s'"
  shows "Q s cs rs s'"
  using assms(1-3)
proof (induction cs arbitrary: s rs)
  case Nil
  then show ?case using nil by simp
next
  case (Cons c cs)
  then obtain r s1 rs1 where c: "step s c = Some (r, s1)" and cs: "run_machine step s1 cs = Some (rs1, s')"
    and rs: "rs = r # rs1"
    by (auto split: option.splits)
  moreover have "ok (length cs + n) s1" using step_returns [of "length cs + n" s c] c Cons.prems by auto
  ultimately have "Q s1 cs rs1 s'" using Cons by auto
  then show ?case unfolding rs using cons [of "length cs + n" s c r s1 cs rs1 s'] c Cons.prems by simp
qed

end

section \<open>Commands of the matching engine\<close>

datatype EngineCommand = New Order | Cancel u64

definition apply_command ::
  "MatchingEngine \<Rightarrow> EngineCommand \<Rightarrow> ((ExecutionReport \<times> Trade list) \<times> MatchingEngine) option" where
  "apply_command e c =
     (case c of
        New ord \<Rightarrow> map_option (\<lambda>(rep, e', ts). ((rep, ts), e')) (processOrder e ord [])
      | Cancel i \<Rightarrow> map_option (\<lambda>(rep, e'). ((rep, []), e')) (cancel e i))"

abbreviation run_engine ::
  "MatchingEngine \<Rightarrow> EngineCommand list \<Rightarrow> ((ExecutionReport \<times> Trade list) list \<times> MatchingEngine) option" where
  "run_engine \<equiv> run_machine apply_command"

text \<open>The price field of an order is an \<open>int64_t\<close>.\<close>

definition command_valid :: "EngineCommand \<Rightarrow> bool" where
  "command_valid c = (case c of New ord \<Rightarrow> is_i64 (o_price ord) | Cancel i \<Rightarrow> True)"

definition engine_ready :: "nat \<Rightarrow> MatchingEngine \<Rightarrow> bool" where
  "engine_ready n e \<longleftrightarrow> engine_ok e \<and> headroom n e"

interpretation engine: command_machine apply_command engine_ready command_valid
proof
  fix n e c
  assume ready: "engine_ready (Suc n) e" and valid: "command_valid c"
  show "\<exists>r e'. apply_command e c = Some (r, e') \<and> engine_ready n e'"
  proof (cases c)
    case (New ord)
    then show ?thesis
      using ready valid processOrder_ok [of e n ord "[]"]
      by (auto simp: engine_ready_def apply_command_def command_valid_def)
  next
    case (Cancel i)
    then show ?thesis
      using ready cancel_outcome [of e n i] by (fastforce simp: engine_ready_def apply_command_def)
  qed
qed

lemma init_engine_ready: "n \<le> 2 ^ 32 \<Longrightarrow> engine_ready n (init_engine l)"
  by (simp add: engine_ready_def init_engine_ok init_engine_headroom)

section \<open>Small scenarios\<close>

definition limit_order :: "u64 \<Rightarrow> Side \<Rightarrow> int \<Rightarrow> u32 \<Rightarrow> Order" where
  "limit_order i s p q = default_order\<lparr>o_id := i, o_side := s, o_price := p, o_quantity := q\<rparr>"

text \<open>The book of the walkthrough in the README: 100 lots offered at 101, 200 at 102.\<close>

definition demo_commands :: "EngineCommand list" where
  "demo_commands = [New (limit_order 1 SELL 101 100), New (limit_order 2 SELL 102 200)]"

definition demo_engine :: MatchingEngine where
  "demo_engine = (case run_engine (init_engine default_limits) demo_commands of
     Some (rs, e) \<Rightarrow> e | None \<Rightarrow> init_engine default_limits)"

lemma run_engine_ready:
  assumes "run_engine (init_engine l) cs = Some (rs, e)" and "\<forall>c \<in> set cs. command_valid c"
    and "length cs + n \<le> 2 ^ 32"
  shows "engine_ready n e"
  using engine.run_returns [of cs n "init_engine l"] init_engine_ready [OF assms(3), of l] assms(1,2)
  by auto

lemma demo_commands_valid: "\<forall>c \<in> set demo_commands. command_valid c" "length demo_commands = 2"
  by (simp_all add: demo_commands_def command_valid_def limit_order_def is_i64_def)

lemma demo_engine_ready: "engine_ready (2 ^ 32 - 2) demo_engine"
proof -
  have "engine_ready (length demo_commands + 0) (init_engine default_limits)"
    by (rule init_engine_ready) (simp add: demo_commands_valid)
  from engine.run_returns [OF this demo_commands_valid(1)] obtain rs e
    where run: "run_engine (init_engine default_limits) demo_commands = Some (rs, e)" by blast
  from run_engine_ready [OF run demo_commands_valid(1), of "2 ^ 32 - 2"] run show ?thesis
    by (simp add: demo_engine_def demo_commands_valid)
qed

lemma demo_engine_ok: "engine_ok demo_engine" "headroom (Suc 9) demo_engine"
  using demo_engine_ready by (auto simp: engine_ready_def headroom_def)

end
