(* ===== verification/Engine_Properties.thy ===== *)
theory Engine_Properties
  imports Engine_Commands
begin

text \<open>
  The properties of the matching engine: what \<open>processOrder\<close> and \<open>cancel\<close> promise to their callers.
\<close>

section \<open>Shared facts\<close>

lemma book_ok_storage_ok:
  assumes "book_ok b" and "orderCount b < 2 ^ 64"
  shows "storage_ok b"
proof -
  note i = book_ok_index [OF assms(1)]
  have "0 < o_price (snd c)" if "c \<in> set (all_cells b)" for c
    using that book_ok_cell [OF assms(1), of BUY c] book_ok_cell [OF assms(1), of SELL c]
    by (auto simp: set_all_cells [of b BUY] order_ok_def)
  then show ?thesis
    using i assms(2) index_ok_orderCount [OF i] index_ok_locations(2) [OF i]
    by (auto simp: storage_ok_def index_ok_def orderCount_def)
qed

lemma engine_ok_checkInvariants:
  assumes "engine_ok e" and "headroom n e"
  shows "checkInvariants (book e)"
  using assms checkInvariants_iff [OF book_ok_storage_ok, of "book e"]
  by (simp add: engine_ok_def headroom_def)

lemma admitted_bump: "admitted (bump e) ord = admitted e ord"
  by (simp add: admitted_def)

lemma admission_bump: "admission (bump e) ord = admission e ord"
  by (simp only: admission_def bump_simps)

lemma stamped_bump: "stamped (bump e) ord = ord\<lparr>o_sequence := sequence e + 1\<rparr>"
  by (simp add: stamped_def)

lemma fills_from_resting:
  assumes "book_ok b" and "spec_fill (crosses ord) q (resting b (opposite s)) = (fs, q', xs')"
    and "(x, k) \<in> set fs"
  shows "x \<in> set (resting b (opposite s))" "crosses ord x" "k \<noteq> 0" "k \<le> o_quantity x"
proof -
  have "\<forall>x \<in> set (resting b (opposite s)). o_quantity x \<noteq> 0"
    using resting_order_ok [OF assms(1) opposite_simps(3)] by (auto simp: order_ok_def)
  from spec_fill_fill_bounds [OF assms(2) this assms(3)]
  show "x \<in> set (resting b (opposite s))" "crosses ord x" "k \<noteq> 0" "k \<le> o_quantity x" by auto
qed

text \<open>What one command does to the trade ids and to the consumed order ids.\<close>

definition new_accepted :: "ExecutionReport \<times> Trade list \<Rightarrow> bool" where
  "new_accepted r \<longleftrightarrow> r_command (fst r) = NEW_ORDER \<and> r_status (fst r) \<noteq> REJECTED"

definition accepted_ids :: "(ExecutionReport \<times> Trade list) list \<Rightarrow> u64 list" where
  "accepted_ids rs = map (r_order_id \<circ> fst) (filter new_accepted rs)"

lemma accepted_ids_simps [simp]:
  "accepted_ids [] = []"
  "accepted_ids (r # rs) = (if new_accepted r then r_order_id (fst r) # accepted_ids rs else accepted_ids rs)"
  by (simp_all add: accepted_ids_def)

lemma apply_command_ids:
  assumes "engine_ready (Suc n) e" and "apply_command e c = Some (r, e')"
  shows "map t_trade_id (snd r) = map (\<lambda>k. next_trade_id e + of_nat k) [0..<length (snd r)] \<and>
    next_trade_id e' = next_trade_id e + of_nat (length (snd r)) \<and> risk e' = risk e \<and>
    seen_order_ids e' = (if new_accepted r then insert (r_order_id (fst r)) (seen_order_ids e)
      else seen_order_ids e) \<and> (new_accepted r \<longrightarrow> r_order_id (fst r) \<notin> seen_order_ids e)"
proof (cases c)
  case (Cancel i)
  with assms cancel_outcome [of e n i] obtain rep where
    r: "r = (rep, [])" "r_command rep = CANCEL_ORDER" and
    e': "e' = (bump e)\<lparr>book := book e', canceled_orders := canceled_orders e'\<rparr>"
    by (auto simp: apply_command_def engine_ready_def)
  have "next_trade_id e' = next_trade_id e" "risk e' = risk e" "seen_order_ids e' = seen_order_ids e"
    by (subst e'; simp)+
  with r show ?thesis by (simp add: new_accepted_def)
next
  case (New ord)
  with assms obtain rep ts where p: "processOrder e ord [] = Some (rep, e', ts)" "r = (rep, ts)"
    by (auto simp: apply_command_def)
  note ready = assms(1) [unfolded engine_ready_def, THEN conjunct1] assms(1) [unfolded engine_ready_def, THEN conjunct2]
  show ?thesis
  proof (cases "r_status rep = REJECTED")
    case True
    with processOrder_rejected [OF ready p(1) True] p(2) show ?thesis by (simp add: new_accepted_def)
  next
    case False
    obtain fs q' xs' where fill: "spec_fill (crosses ord) (o_quantity ord)
      (resting (book e) (opposite (o_side ord))) = (fs, q', xs')" by (metis prod_cases3)
    note acc = processOrder_accepted [OF ready p(1) False fill]
    have "map t_trade_id (fill_trades ord' tid fs) = map (\<lambda>k. tid + of_nat k) [0..<length fs]" for ord' tid
      by (rule nth_equalityI) (simp_all add: fill_trades_nth make_trade_def)
    moreover have "r_command rep = NEW_ORDER" "r_order_id rep = o_id ord"
      using acc(2) by (simp_all add: accepted_report_def Let_def)
    moreover have "next_trade_id e' = next_trade_id e + of_nat (length fs)" "risk e' = risk e"
      "seen_order_ids e' = insert (o_id ord) (seen_order_ids e)"
      by (subst acc(3); simp)+
    ultimately show ?thesis
      using acc(4) p(2) False admitted_valid(6) [OF acc(1)] by (simp add: new_accepted_def)
  qed
qed

text \<open>One command keeps the number of resting orders within the limit in force.\<close>

lemma apply_command_cap:
  assumes "engine_ready (Suc n) e" and "command_valid c" and "apply_command e c = Some (r, e')"
    and "limits (risk e) = l" and "orderCount (book e) \<le> unat (max_active_orders l)"
  shows "orderCount (book e') \<le> unat (max_active_orders l)"
proof (cases c)
  case (Cancel i)
  with assms cancel_outcome [of e n i] have
    "resting (book e') BUY = spec_cancel i (resting (book e) BUY)"
    "resting (book e') SELL = spec_cancel i (resting (book e) SELL)" "book_ok (book e')" "book_ok (book e)"
    by (auto simp: apply_command_def engine_ready_def engine_ok_def)
  moreover from this have "orderCount (book e') \<le> orderCount (book e)"
    by (simp add: orderCount_resting spec_cancel_def add_mono)
  ultimately show ?thesis using assms(5) by simp
next
  case (New ord)
  with assms(3) obtain rep ts where p: "processOrder e ord [] = Some (rep, e', ts)"
    by (auto simp: apply_command_def)
  have ready: "engine_ok e" "headroom (Suc n) e" and bok: "book_ok (book e)" "orderCount (book e) < 2 ^ 32"
    using assms(1) by (auto simp: engine_ready_def engine_ok_def headroom_def)
  show ?thesis
  proof (cases "r_status rep = REJECTED")
    case True
    with processOrder_rejected(1) [OF ready p True] assms(5) show ?thesis by simp
  next
    case False
    obtain fs q' xs' where fill: "spec_fill (crosses ord) (o_quantity ord)
      (resting (book e) (opposite (o_side ord))) = (fs, q', xs')" by (metis prod_cases3)
    note acc = processOrder_accepted [OF ready p False fill]
    note v = admitted_valid [OF acc(1)]
    have short: "executableQuantity (book e) ord (ucast (o_quantity ord)) < ucast (o_quantity ord) \<longleftrightarrow> q' \<noteq> 0"
      using executable_short_iff [OF bok(1) v(1,2) _ v(4) fill] bok(2) by simp
    have count: "orderCount (book e') \<le> orderCount (book e) + (if rests ord q' then 1 else 0)"
      using spec_fill_length [OF fill] acc(6,7) mset_spec_insert
      by (simp add: orderCount_side [OF acc(5) v(1)] orderCount_side [OF bok(1) v(1)] size_mset [symmetric]
          del: size_mset)
    have "orderCount (book e) < unat (max_active_orders l)" if "rests ord q'"
    proof -
      have "of_nat (orderCount (book e)) < max_active_orders l"
        using acc(1) that short assms(2,4) New validate_accepts_iff [of ord] v(4,5)
        by (auto simp: admitted_def rests_def command_valid_def)
      then show ?thesis using bok(2) by (simp add: word_less_nat_alt unsigned_of_nat take_bit_nat_eq_self)
    qed
    with count assms(5) show ?thesis by (auto split: if_splits)
  qed
qed

section \<open>Properties\<close>

text \<open>C1: any sequence of new orders and cancels, of any content, sent to a fresh engine returns a
  report for every command (no assertion fails, no empty container is read), and leaves a book that
  is well formed, not crossed, and passes its own self-check.\<close>

theorem commands_never_fail:
  assumes "length cs \<le> 2 ^ 32" and "\<forall>c \<in> set cs. command_valid c"
  shows "\<exists>rs e. run_engine (init_engine l) cs = Some (rs, e) \<and> length rs = length cs \<and>
    book_ok (book e) \<and> uncrossed (book e) \<and> checkInvariants (book e)"
proof -
  have "engine_ready (length cs + 0) (init_engine l)" using assms(1) by (simp add: init_engine_ready)
  from engine.run_returns [OF this assms(2)] obtain rs e
    where run: "run_engine (init_engine l) cs = Some (rs, e)" "engine_ready 0 e" "length rs = length cs"
    by blast
  then have "checkInvariants (book e)"
    by (auto simp: engine_ready_def intro: engine_ok_checkInvariants)
  with run show ?thesis by (auto simp: engine_ready_def engine_ok_def)
qed

text \<open>C2: price-time priority. An accepted order is filled from the other side of the book in the
  order of price and then arrival, each fill is one trade at the resting order's price, and what is
  left rests behind the orders at its price or better if it is a good-till-cancelled limit order.\<close>

theorem process_order_priority:
  assumes "engine_ok e" and "headroom (Suc n) e"
    and "processOrder e ord out = Some (rep, e', out')" and "r_status rep \<noteq> REJECTED"
    and "spec_fill (crosses ord) (o_quantity ord) (resting (book e) (opposite (o_side ord))) = (fs, q', xs')"
  shows "resting (book e') (opposite (o_side ord)) = xs' \<and>
    resting (book e') (o_side ord) =
      (if q' \<noteq> 0 \<and> o_type ord = LIMIT \<and> o_time_in_force ord = GTC
       then spec_insert (o_side ord) (ord\<lparr>o_sequence := sequence e + 1, o_quantity := q'\<rparr>)
              (resting (book e) (o_side ord))
       else resting (book e) (o_side ord)) \<and>
    out' = out @ fill_trades (ord\<lparr>o_sequence := sequence e + 1\<rparr>) (next_trade_id e) fs \<and>
    r_remaining_quantity rep = q'"
  using processOrder_accepted [OF assms]
  by (auto simp: stamped_bump rests_def accepted_report_def Let_def)

text \<open>C3: the report is exact. Requested is executed plus remaining, executed is the sum of the new
  trades, which is what the other side of the book lost, the trade count is not truncated, and
  FILLED means that nothing remains.\<close>

theorem report_accounts:
  assumes "engine_ok e" and "headroom (Suc n) e" and "processOrder e ord out = Some (rep, e', out')"
  shows "\<exists>ts. out' = out @ ts \<and> r_requested_quantity rep = o_quantity ord \<and>
    unat (r_requested_quantity rep) = unat (r_executed_quantity rep) + unat (r_remaining_quantity rep) \<and>
    unat (r_executed_quantity rep) = (\<Sum>t\<leftarrow>ts. unat (t_quantity t)) \<and>
    unat (r_trade_count rep) = length ts \<and>
    resting_total (resting (book e) (opposite (o_side ord))) =
      unat (r_executed_quantity rep) + resting_total (resting (book e') (opposite (o_side ord))) \<and>
    (r_status rep = FILLED \<longleftrightarrow> r_status rep \<noteq> REJECTED \<and> r_remaining_quantity rep = 0)"
proof (cases "r_status rep = REJECTED")
  case True
  from processOrder_rejected [OF assms True] True show ?thesis by auto
next
  case False
  obtain fs q' xs' where fill: "spec_fill (crosses ord) (o_quantity ord)
      (resting (book e) (opposite (o_side ord))) = (fs, q', xs')" by (metis prod_cases3)
  note acc = processOrder_accepted [OF assms False fill]
  note cons = spec_fill_conserves [OF fill]
  have bok: "book_ok (book e)" using assms(1) by (simp add: engine_ok_def)
  have "q' \<le> o_quantity ord" using cons by (simp add: word_le_nat_alt)
  then have ex: "unat (o_quantity ord - q') = fill_total fs" using cons by (simp add: unat_sub)
  have "(\<Sum>t\<leftarrow>fill_trades o' tid fs. unat (t_quantity t)) = fill_total fs" for o' tid
    using arg_cong [OF fill_trades_quantities, of "\<lambda>qs. sum_list (map unat qs)" o' tid fs]
    by (simp add: fill_total_def comp_def)
  moreover have "unat (of_nat (length fs) :: u32) = length fs"
    using fill_count_bound(2) [OF bok fill] by (simp add: unsigned_of_nat take_bit_nat_eq_self)
  moreover have "r_status rep = FILLED \<longleftrightarrow> q' = 0"
    by (auto simp: acc(2) accepted_report_def Let_def)
  ultimately show ?thesis
    using acc(2,4,6) cons ex False by (auto simp: accepted_report_def Let_def)
qed

text \<open>C6: a rejected order changes nothing but the sequence number and the rejection counter: no
  trade, no change of the book, of the consumed ids or of the risk state.\<close>

theorem rejected_no_effect:
  assumes "engine_ok e" and "headroom (Suc n) e"
    and "processOrder e ord out = Some (rep, e', out')" and "r_status rep = REJECTED"
  shows "e' = e\<lparr>sequence := sequence e + 1, rejected_orders := rejected_orders e + 1\<rparr> \<and> out' = out \<and>
    r_reject_reason rep \<noteq> NO_REASON \<and> r_trade_count rep = 0 \<and>
    r_remaining_quantity rep = o_quantity ord"
  using processOrder_rejected [OF assms] by (simp add: bump_def)

text \<open>C4: fill or kill is all or nothing. A fill-or-kill order that passes the other checks is filled
  completely if the acceptable orders of the other side offer enough, computed without overflow, and
  otherwise rejected.\<close>

theorem fok_all_or_nothing:
  assumes "engine_ok e" and "headroom (Suc n) e"
    and "processOrder e ord out = Some (rep, e', out')" and "o_time_in_force ord = FOK"
    and "validateStatic ord = NO_REASON" and "o_id ord \<notin> seen_order_ids e"
    and "validate (risk e) ord (of_nat (orderCount (book e))) False = NO_REASON"
  shows "if unat (o_quantity ord) \<le>
            resting_total (filter (crosses ord) (resting (book e) (opposite (o_side ord))))
    then r_status rep = FILLED \<and> r_executed_quantity rep = o_quantity ord
    else r_status rep = REJECTED \<and> r_reject_reason rep = FOK_NOT_FILLABLE"
proof -
  have bok: "book_ok (book e)" and small: "orderCount (book e) \<le> 2 ^ 32"
    using assms(1,2) by (simp_all add: engine_ok_def headroom_def)
  note v = assms(5) [unfolded validateStatic_accepts_iff]
  obtain fs q' xs' where fill: "spec_fill (crosses ord) (o_quantity ord)
      (resting (book e) (opposite (o_side ord))) = (fs, q', xs')" by (metis prod_cases3)
  have short: "executableQuantity (book e) ord (ucast (o_quantity ord)) < ucast (o_quantity ord) \<longleftrightarrow> q' \<noteq> 0"
    using executable_short_iff [OF bok _ _ small _ fill] v by simp
  have enough: "unat (o_quantity ord) \<le>
      resting_total (filter (crosses ord) (resting (book e) (opposite (o_side ord)))) \<longleftrightarrow> q' = 0"
    using spec_fill_conserves [OF fill] spec_fill_total [OF fill] resting_filter_crosses [OF bok, of ord] v
    by (auto simp: unat_eq_0 [symmetric])
  show ?thesis
  proof (cases "r_status rep = REJECTED")
    case True
    from processOrder_rejected(3,4) [OF assms(1-3) True] short assms(4-7) v
    have "q' \<noteq> 0 \<and> r_reject_reason rep = FOK_NOT_FILLABLE"
      by (auto simp: admission_bump admission_def Let_def split: if_splits)
    with enough True show ?thesis by auto
  next
    case False
    note acc = processOrder_accepted [OF assms(1-3) False fill]
    from acc(1) assms(4) have "q' = 0" by (simp add: admitted_bump admitted_def short)
    with acc(2) enough show ?thesis by (simp add: accepted_report_def Let_def)
  qed
qed

text \<open>C5: a post-only order never takes liquidity. If it passes the other checks, it rests untouched at
  the back of its price when the best order of the other side is not acceptable to it, and is
  rejected otherwise.\<close>

theorem post_only_never_takes:
  assumes "engine_ok e" and "headroom (Suc n) e"
    and "processOrder e ord out = Some (rep, e', out')" and "hasFlag (o_flags ord) flag_POST_ONLY"
    and "validateStatic ord = NO_REASON" and "o_id ord \<notin> seen_order_ids e"
    and "validate (risk e) ord (of_nat (orderCount (book e))) True = NO_REASON"
  shows "if resting (book e) (opposite (o_side ord)) \<noteq> [] \<and>
            crosses ord (hd (resting (book e) (opposite (o_side ord))))
    then r_status rep = REJECTED \<and> r_reject_reason rep = POST_ONLY_WOULD_TRADE
    else r_status rep = RESTING \<and> out' = out \<and>
      resting (book e') (o_side ord) =
        spec_insert (o_side ord) (ord\<lparr>o_sequence := sequence e + 1\<rparr>) (resting (book e) (o_side ord)) \<and>
      resting (book e') (opposite (o_side ord)) = resting (book e) (opposite (o_side ord))"
proof -
  let ?xs = "resting (book e) (opposite (o_side ord))"
  have bok: "book_ok (book e)" using assms(1) by (simp add: engine_ok_def)
  note v = assms(5) [unfolded validateStatic_accepts_iff]
  have gtc: "o_type ord = LIMIT" "o_time_in_force ord = GTC" using v assms(4) by auto
  have "validate (risk e) ord (of_nat (orderCount (book e))) x = NO_REASON" for x
    using assms(7) by (auto simp: validate_def split: if_splits)
  then have adm: "admitted e ord \<longleftrightarrow> \<not> (?xs \<noteq> [] \<and> crosses ord (hd ?xs))"
    and why: "?xs \<noteq> [] \<and> crosses ord (hd ?xs) \<Longrightarrow> admission e ord = Some POST_ONLY_WOULD_TRADE"
    using assms(4-6) gtc v
    by (auto simp: admitted_def admission_def Let_def wouldCross_resting [OF bok])
  show ?thesis
  proof (cases "r_status rep = REJECTED")
    case True
    from processOrder_rejected(3,4,11) [OF assms(1-3) True] adm why True show ?thesis
      by (auto simp: admission_bump admitted_bump)
  next
    case False
    have stop: "\<not> (?xs \<noteq> [] \<and> crosses ord (hd ?xs))"
      using processOrder_accepted(1) [OF assms(1-3) False] adm by (metis admitted_bump prod_cases3)
    then have fill: "spec_fill (crosses ord) (o_quantity ord) ?xs = ([], o_quantity ord, ?xs)"
      by (cases ?xs) auto
    have "ord\<lparr>o_sequence := k, o_quantity := o_quantity ord\<rparr> = ord\<lparr>o_sequence := k\<rparr>" for k by simp
    with processOrder_accepted [OF assms(1-3) False fill] stop v gtc show ?thesis
      by (auto simp: rests_def stamped_bump accepted_report_def Let_def)
  qed
qed

text \<open>An immediate-or-cancel, fill-or-kill or market order never rests: its side of the book is
  untouched and its id is not in the book afterwards.\<close>

theorem immediate_never_rests:
  assumes "engine_ok e" and "headroom (Suc n) e"
    and "processOrder e ord out = Some (rep, e', out')" and "r_status rep \<noteq> REJECTED"
    and "o_type ord = MARKET \<or> o_time_in_force ord = IOC \<or> o_time_in_force ord = FOK"
  shows "resting (book e') (o_side ord) = resting (book e) (o_side ord) \<and>
    \<not> contains (book e') (o_id ord) \<and> r_status rep \<noteq> RESTING"
proof -
  obtain fs q' xs' where fill: "spec_fill (crosses ord) (o_quantity ord)
      (resting (book e) (opposite (o_side ord))) = (fs, q', xs')" by (metis prod_cases3)
  note acc = processOrder_accepted [OF assms(1-4) fill]
  have no: "\<not> rests ord q'" using assms(5) by (auto simp: rests_def)
  have fresh: "o_id x \<noteq> o_id ord" if "x \<in> book_orders (book e)" for x
    using that assms(1) admitted_valid(6) [OF acc(1)] by (auto simp: engine_ok_def)
  have "o_id x \<noteq> o_id ord" if "x \<in> book_orders (book e')" for x
    using that no acc(6,7) fresh spec_fill_origin [OF fill, of x]
    by (metis Un_iff book_orders_side [of _ "o_side ord"])
  then have "\<not> contains (book e') (o_id ord)"
    using contains_resting [OF acc(5)] by (auto simp: book_orders_def)
  with acc(2,7) no show ?thesis by (auto simp: accepted_report_def Let_def)
qed

text \<open>C7: no trade is worse than the limit of the incoming order or than what the book offers. Every
  new trade is between the incoming order and an order that was resting on the other side, at that
  order's price, which is acceptable to the incoming order, for a positive quantity; and no order left
  on the other side has a better price.\<close>

theorem trade_prices:
  assumes "engine_ok e" and "headroom (Suc n) e"
    and "processOrder e ord out = Some (rep, e', out @ ts)" and "t \<in> set ts"
  shows "(\<exists>x \<in> set (resting (book e) (opposite (o_side ord))).
      crosses ord x \<and> t_price t = o_price x \<and> t_quantity t \<noteq> 0 \<and> t_quantity t \<le> o_quantity x \<and>
      t_buy_order_id t = (if o_side ord = BUY then o_id ord else o_id x) \<and>
      t_sell_order_id t = (if o_side ord = BUY then o_id x else o_id ord)) \<and>
    (\<forall>y \<in> set (resting (book e') (opposite (o_side ord))).
      \<not> ahead_of (opposite (o_side ord)) (o_price y) (t_price t))"
proof -
  have bok: "book_ok (book e)" using assms(1) by (simp add: engine_ok_def)
  have acc0: "r_status rep \<noteq> REJECTED"
    using processOrder_rejected(2) [OF assms(1-3)] assms(4) by auto
  obtain fs q' xs' where fill: "spec_fill (crosses ord) (o_quantity ord)
      (resting (book e) (opposite (o_side ord))) = (fs, q', xs')" by (metis prod_cases3)
  note acc = processOrder_accepted [OF assms(1-3) acc0 fill]
  from acc(4) assms(4) obtain x k i where x: "(x, k) \<in> set fs" "t = make_trade (stamped (bump e) ord) x i k"
    by (auto dest: set_fill_trades)
  note f = fills_from_resting [OF bok fill x(1)]
  have "\<not> ahead_of (opposite (o_side ord)) (o_price y) (o_price x)" if "y \<in> set xs'" for y
    by (rule spec_fill_before [OF fill resting_sorted [OF bok opposite_simps(3)] x(1) that])
  with f x acc(6) show ?thesis by (auto simp: make_trade_def)
qed

text \<open>C8: a cancel takes out exactly the order with that id, wherever it rests, and reports its open
  quantity; an id that does not rest is rejected and the book is unchanged.\<close>

theorem cancel_exact:
  assumes "engine_ok e" and "headroom (Suc n) e"
  shows "\<exists>rep e'. cancel e i = Some (rep, e') \<and> engine_ok e' \<and> r_sequence rep = sequence e + 1 \<and>
    resting (book e') BUY = spec_cancel i (resting (book e) BUY) \<and>
    resting (book e') SELL = spec_cancel i (resting (book e) SELL) \<and>
    (case find (\<lambda>x. o_id x = i) (resting (book e) BUY @ resting (book e) SELL) of
       None \<Rightarrow> r_status rep = REJECTED \<and> book e' = book e \<and>
         r_reject_reason rep = (if i = 0 then INVALID_ORDER_ID else ORDER_NOT_FOUND)
     | Some x \<Rightarrow> r_status rep = CANCELED \<and> r_requested_quantity rep = o_quantity x \<and>
         canceled_orders e' = canceled_orders e + 1)"
proof -
  from cancel_outcome [OF assms, of i] obtain rep e' where "cancel e i = Some (rep, e')" "engine_ok e'"
    "r_sequence rep = sequence e + 1" "resting (book e') BUY = spec_cancel i (resting (book e) BUY)"
    "resting (book e') SELL = spec_cancel i (resting (book e) SELL)"
    "case find (\<lambda>x. o_id x = i) (resting (book e) BUY @ resting (book e) SELL) of
       None \<Rightarrow> r_status rep = REJECTED \<and> canceled_orders e' = canceled_orders e \<and> book e' = book e \<and>
         r_reject_reason rep = (if i = 0 then INVALID_ORDER_ID else ORDER_NOT_FOUND)
     | Some x \<Rightarrow> r_status rep = CANCELED \<and> canceled_orders e' = canceled_orders e + 1 \<and>
         r_reject_reason rep = NO_REASON \<and> r_requested_quantity rep = o_quantity x" by blast
  then show ?thesis
    by (intro exI [of _ rep] exI [of _ e']) (auto split: option.splits)
qed

text \<open>C9: placing an order that rests untouched and cancelling it restores both sides of the book,
  and the cancel reports the quantity that was placed.\<close>

theorem place_cancel_restores:
  assumes "engine_ok e" and "headroom (Suc (Suc n)) e" and "is_i64 (o_price ord)"
    and "processOrder e ord out = Some (rep, e1, out')" and "r_status rep = RESTING"
  shows "\<exists>rep2 e2. cancel e1 (o_id ord) = Some (rep2, e2) \<and> r_status rep2 = CANCELED \<and>
    r_requested_quantity rep2 = o_quantity ord \<and>
    resting (book e2) BUY = resting (book e) BUY \<and> resting (book e2) SELL = resting (book e) SELL"
proof -
  let ?s = "o_side ord" and ?ord = "ord\<lparr>o_sequence := sequence e + 1\<rparr>"
  have ready: "engine_ok e1" "headroom (Suc n) e1"
    using processOrder_ok [OF assms(1-3), of out] assms(4) by auto
  have nrej: "r_status rep \<noteq> REJECTED" using assms(5) by simp
  obtain fs q' xs' where fill: "spec_fill (crosses ord) (o_quantity ord)
      (resting (book e) (opposite ?s)) = (fs, q', xs')" by (metis prod_cases3)
  note acc = processOrder_accepted [OF assms(1,2,4) nrej fill]
  note v = admitted_valid [OF acc(1)]
  from acc(2) assms(5) have r: "rests ord q'" "q' = o_quantity ord"
    by (auto simp: accepted_report_def Let_def split: if_splits)
  have bok: "book_ok (book e)" using assms(1) by (simp add: engine_ok_def)
  have "length fs \<le> fill_total fs"
    using fills_from_resting(3) [OF bok fill] by (intro length_fills_le) auto
  moreover have "fill_total fs = 0" using spec_fill_conserves [OF fill] r(2) by simp
  ultimately have "fs = []" by simp
  then have "xs' = resting (book e) (opposite ?s)"
    using fill by (cases "resting (book e) (opposite ?s)") (auto split: if_splits prod.splits)
  then have opp: "resting (book e1) (opposite ?s) = resting (book e) (opposite ?s)" using acc(6) by simp
  have "ord\<lparr>o_sequence := k, o_quantity := o_quantity ord\<rparr> = ord\<lparr>o_sequence := k\<rparr>" for k by simp
  with acc(7) r have own: "resting (book e1) ?s = spec_insert ?s ?ord (resting (book e) ?s)"
    by (simp add: stamped_bump)
  have fresh: "o_id x \<noteq> o_id ord" if "x \<in> book_orders (book e)" for x
    using that assms(1) v(6) by (auto simp: engine_ok_def)
  then have new: "\<forall>x \<in> set (resting (book e) ?s). o_id x \<noteq> o_id ord"
    "\<forall>x \<in> set (resting (book e) (opposite ?s)). o_id x \<noteq> o_id ord"
    by (simp_all add: book_orders_side [of _ ?s])
  have undo: "spec_cancel (o_id ord) (resting (book e1) ?s) = resting (book e) ?s"
    unfolding own by (rule spec_cancel_insert [OF resting_sorted [OF bok v(1)] _ new(1)]) simp
  have undo': "spec_cancel (o_id ord) (resting (book e1) (opposite ?s)) = resting (book e) (opposite ?s)"
    unfolding opp by (rule spec_cancel_absent [OF new(2)])
  have all: "set (resting (book e1) BUY @ resting (book e1) SELL) = insert ?ord (book_orders (book e))"
  proof -
    have "book_orders (book e1) = insert ?ord (book_orders (book e))"
      unfolding book_orders_side [of _ ?s] own opp set_spec_insert by simp
    then show ?thesis by (simp add: book_orders_def)
  qed
  have found: "find (\<lambda>x. o_id x = o_id ord) (resting (book e1) BUY @ resting (book e1) SELL) = Some ?ord"
  proof (rule find_unique)
    show "x = ?ord" if "x \<in> set (resting (book e1) BUY @ resting (book e1) SELL)" "o_id x = o_id ord" for x
      using that(2) fresh that(1) [unfolded all] by blast
  qed (simp_all add: all del: set_append)
  from cancel_outcome [OF ready, of "o_id ord"] obtain rep2 e2 where "cancel e1 (o_id ord) = Some (rep2, e2)"
    "resting (book e2) BUY = spec_cancel (o_id ord) (resting (book e1) BUY)"
    "resting (book e2) SELL = spec_cancel (o_id ord) (resting (book e1) SELL)"
    "r_status rep2 = CANCELED" "r_requested_quantity rep2 = o_quantity ord"
    by (auto simp: found)
  with v(1) undo undo' show ?thesis by (cases rule: isValidSide_cases) auto
qed

text \<open>C10: the trades of any sequence of commands are numbered 1, 2, 3, ... without gap or repetition,
  and \<open>tradeCount\<close> is their number.\<close>

theorem trade_ids_consecutive:
  assumes "length cs \<le> 2 ^ 32" and "\<forall>c \<in> set cs. command_valid c"
    and "run_engine (init_engine l) cs = Some (rs, e)"
  shows "map t_trade_id (concat (map snd rs)) = map (\<lambda>k. of_nat (Suc k)) [0..<length (concat (map snd rs))] \<and>
    tradeCount e = of_nat (length (concat (map snd rs)))"
proof -
  let ?Q = "\<lambda>s (cs :: EngineCommand list) (rs :: (ExecutionReport \<times> Trade list) list) e.
    next_trade_id e = next_trade_id s + of_nat (length (concat (map snd rs))) \<and>
    map t_trade_id (concat (map snd rs)) =
      map (\<lambda>k. next_trade_id s + of_nat k) [0..<length (concat (map snd rs))]"
  have "?Q (init_engine l) cs rs e"
  proof (rule engine.run_trace [where Q = ?Q, OF assms(3) _ assms(2), of 0])
    show "engine_ready (length cs + 0) (init_engine l)" using assms(1) by (simp add: init_engine_ready)
    fix m s c r s1 cs rs s'
    assume "engine_ready (Suc m) s" "apply_command s c = Some (r, s1)" and IH: "?Q s1 cs rs s'"
    note ids = apply_command_ids [OF this(1,2)]
    let ?n = "length (snd r)" and ?k = "length (concat (map snd rs))"
    have "map (\<lambda>k. next_trade_id s1 + of_nat k) [0..<?k] = map (\<lambda>k. next_trade_id s + of_nat k) [?n..<?n + ?k]"
      by (rule nth_equalityI) (simp_all add: ids add.assoc)
    moreover have "[0..<?n + ?k] = [0..<?n] @ [?n..<?n + ?k]" by (metis le0 upt_add_eq_append)
    ultimately show "?Q s (c # cs) (r # rs) s'" using ids IH by (simp add: add.assoc)
  qed simp
  then show ?thesis by (simp add: init_engine_def tradeCount_def)
qed

text \<open>C11: an order id is accepted at most once over the life of an engine, whatever happens to the
  order afterwards, and every order that rests has an id that was accepted.\<close>

theorem order_ids_single_use:
  assumes "length cs \<le> 2 ^ 32" and "\<forall>c \<in> set cs. command_valid c"
    and "run_engine (init_engine l) cs = Some (rs, e)"
  shows "distinct (accepted_ids rs) \<and> (\<forall>i. contains (book e) i \<longrightarrow> i \<in> set (accepted_ids rs))"
proof -
  let ?Q = "\<lambda>s (cs :: EngineCommand list) rs e. distinct (accepted_ids rs) \<and>
    seen_order_ids s \<inter> set (accepted_ids rs) = {} \<and>
    seen_order_ids e = seen_order_ids s \<union> set (accepted_ids rs)"
  have ready: "engine_ready (length cs + 0) (init_engine l)" using assms(1) by (simp add: init_engine_ready)
  have Q: "?Q (init_engine l) cs rs e"
  proof (rule engine.run_trace [where Q = ?Q, OF assms(3) ready assms(2)])
    fix m s c r s1 cs rs s'
    assume "engine_ready (Suc m) s" "apply_command s c = Some (r, s1)" and IH: "?Q s1 cs rs s'"
    from apply_command_ids [OF this(1,2)] IH show "?Q s (c # cs) (r # rs) s'" by auto
  qed simp
  from engine.run_returns [OF ready assms(2)] assms(3) have "engine_ok e" by (simp add: engine_ready_def)
  then have "\<forall>i. contains (book e) i \<longrightarrow> i \<in> seen_order_ids e"
    using contains_resting [of "book e"] by (auto simp: engine_ok_def book_orders_def)
  with Q show ?thesis by (auto simp: init_engine_def)
qed

text \<open>C12: the risk limits hold for every accepted order: quantity, price band, and the notional value
  price times quantity, computed without overflow; and nothing is accepted under the kill switch.\<close>

theorem risk_limits_enforced:
  assumes "engine_ok e" and "headroom (Suc n) e" and "is_i64 (o_price ord)"
    and "processOrder e ord out = Some (rep, e', out')" and "r_status rep \<noteq> REJECTED"
  shows "\<not> kill_switch (risk e) \<and> o_quantity ord \<le> max_order_quantity (limits (risk e)) \<and>
    (o_type ord = LIMIT \<longrightarrow>
       min_limit_price (limits (risk e)) \<le> o_price ord \<and> o_price ord \<le> max_limit_price (limits (risk e)) \<and>
       nat (o_price ord) * unat (o_quantity ord) \<le> unat (max_order_notional (limits (risk e))))"
proof -
  obtain fs q' xs' where "spec_fill (crosses ord) (o_quantity ord)
      (resting (book e) (opposite (o_side ord))) = (fs, q', xs')" by (metis prod_cases3)
  from processOrder_accepted(1) [OF assms(1,2,4,5) this] have adm: "admitted (bump e) ord" .
  note v = admitted_valid [OF adm]
  from adm validate_accepts_iff [OF assms(3) v(5) v(4)] show ?thesis by (simp add: admitted_def)
qed

text \<open>The cap on resting orders holds at all times: no sequence of commands makes a book hold more
  orders than the limit the engine was created with.\<close>

theorem active_orders_capped:
  assumes "length cs \<le> 2 ^ 32" and "\<forall>c \<in> set cs. command_valid c"
    and "run_engine (init_engine l) cs = Some (rs, e)"
  shows "orderCount (book e) \<le> unat (max_active_orders l)"
proof -
  let ?inv = "\<lambda>e. limits (risk e) = l \<and> orderCount (book e) \<le> unat (max_active_orders l)"
  let ?Q = "\<lambda>s (cs :: EngineCommand list) (rs :: (ExecutionReport \<times> Trade list) list) e. ?inv s \<longrightarrow> ?inv e"
  have ready: "engine_ready (length cs + 0) (init_engine l)" using assms(1) by (simp add: init_engine_ready)
  have "?Q (init_engine l) cs rs e"
  proof (rule engine.run_trace [where Q = ?Q, OF assms(3) ready assms(2)])
    fix m s c r s1 cs rs s'
    assume step: "engine_ready (Suc m) s" "command_valid c" "apply_command s c = Some (r, s1)"
      and IH: "?Q s1 cs rs s'"
    from apply_command_ids [OF step(1,3)] apply_command_cap [OF step, of l] IH
    show "?Q s (c # cs) (r # rs) s'" by auto
  qed simp
  then show ?thesis by (simp add: init_engine_def init_risk_def orderCount_def empty_book_def)
qed

text \<open>C13: the self-check of the book is exact: on any stored book it succeeds if and only if the book is
  well formed (levels sorted and non-empty, cached totals right, time order within a level, index and
  levels in agreement) and not crossed.\<close>

theorem self_check_exact:
  assumes "storage_ok b"
  shows "checkInvariants b \<longleftrightarrow> book_ok b \<and> uncrossed b"
  by (rule checkInvariants_iff [OF assms])

text \<open>The depth snapshot shows the best prices of a side, best first, each with the exact number and
  total quantity of the orders that rest there.\<close>

theorem depth_snapshot_exact:
  assumes "engine_ok e" and "headroom n e" and "isValidSide s"
  shows "map (\<lambda>l. (ls_price l, unat (ls_total_quantity l), ls_order_count l)) (topLevels (book e) s k) =
    take k (depth_of (resting (book e) s))"
  using topLevels_depth [OF _ assms(3)] assms(1,2) by (simp add: engine_ok_def headroom_def)

text \<open>The spread is the difference of the best prices, it is positive, and the subtraction of the two
  64-bit prices does not overflow.\<close>

theorem spread_positive:
  assumes "engine_ok e" and "resting (book e) BUY = x # xs" and "resting (book e) SELL = y # ys"
  shows "spread (book e) = Some (o_price y - o_price x) \<and> 0 < o_price y - o_price x \<and>
    is_i64 (o_price y - o_price x)"
proof -
  have bok: "book_ok (book e)" and unc: "uncrossed (book e)" and "is_i64 (o_price y)"
    using assms by (auto simp: engine_ok_def book_orders_def)
  moreover have "0 < o_price x"
    using resting_order_ok [OF bok, of BUY x] assms(2) by (simp add: order_ok_def)
  moreover have "o_price x < o_price y" using unc assms(2,3) by (simp add: uncrossed_resting)
  ultimately show ?thesis
    by (simp add: spread_def best_price_resting [OF bok] assms(2,3) is_i64_def)
qed

section \<open>Witnesses\<close>

lemma limit_order_price: "is_i64 (o_price (limit_order i s p q)) = is_i64 p"
  by (simp add: limit_order_def)

theorem commands_never_fail_witness:
  "\<exists>rs e. run_engine (init_engine default_limits) demo_commands = Some (rs, e) \<and> length rs = 2 \<and>
    book_ok (book e) \<and> uncrossed (book e) \<and> checkInvariants (book e)"
  using commands_never_fail [of demo_commands default_limits] demo_commands_valid by simp

text \<open>The walkthrough: 150 lots bought at up to 102 take all of the first offer and 50 of the second.\<close>

lemma demo_buy:
  "case processOrder demo_engine (limit_order 3 BUY 102 150) [] of
     None \<Rightarrow> False
   | Some (rep, e, ts) \<Rightarrow> r_status rep = FILLED \<and> r_executed_quantity rep = 150 \<and>
       map (\<lambda>t. (t_price t, t_quantity t)) ts = [(101, 100), (102, 50)]"
  by code_simp

lemma demo_resting:
  "resting (book demo_engine) SELL =
     [limit_order 1 SELL 101 100\<lparr>o_sequence := 1\<rparr>, limit_order 2 SELL 102 200\<lparr>o_sequence := 2\<rparr>]"
  "resting (book demo_engine) BUY = []" "sequence demo_engine = 2" "next_trade_id demo_engine = 1"
  by code_simp+

lemma limit_order_fields [simp]:
  "o_side (limit_order i s p q) = s" "o_quantity (limit_order i s p q) = q" "o_id (limit_order i s p q) = i"
  "o_price (limit_order i s p q) = p" "o_type (limit_order i s p q) = LIMIT"
  "o_time_in_force (limit_order i s p q) = GTC" "o_flags (limit_order i s p q) = flag_NONE"
  by (simp_all add: limit_order_def default_order_def)

lemma demo_fill:
  "spec_fill (crosses (limit_order 3 BUY 102 150)) (o_quantity (limit_order 3 BUY 102 150))
     (resting (book demo_engine) (opposite (o_side (limit_order 3 BUY 102 150)))) =
     ([(limit_order 1 SELL 101 100\<lparr>o_sequence := 1\<rparr>, 100), (limit_order 2 SELL 102 200\<lparr>o_sequence := 2\<rparr>, 50)],
      0, [limit_order 2 SELL 102 150\<lparr>o_sequence := 2\<rparr>])"
  by code_simp

theorem process_order_priority_witness:
  "\<exists>rep e' ts. processOrder demo_engine (limit_order 3 BUY 102 150) [] = Some (rep, e', ts) \<and>
    resting (book e') SELL = [limit_order 2 SELL 102 150\<lparr>o_sequence := 2\<rparr>] \<and> resting (book e') BUY = [] \<and>
    map t_quantity ts = [100, 50] \<and> r_remaining_quantity rep = 0"
proof -
  obtain rep e' ts where p: "processOrder demo_engine (limit_order 3 BUY 102 150) [] = Some (rep, e', ts)"
    "r_status rep \<noteq> REJECTED"
    using demo_buy by (auto split: option.splits)
  from process_order_priority [OF demo_engine_ok p demo_fill] p(1) show ?thesis
    by (simp add: demo_resting(2) fill_trades_quantities del: fill_trades.simps)
qed

theorem report_accounts_witness:
  "\<exists>rep e' ts. processOrder demo_engine (limit_order 3 BUY 102 150) [] = Some (rep, e', ts) \<and>
    unat (r_trade_count rep) = length ts \<and> (\<Sum>t\<leftarrow>ts. unat (t_quantity t)) = 150 \<and>
    resting_total (resting (book e') SELL) = 150"
proof -
  obtain rep e' ts where p: "processOrder demo_engine (limit_order 3 BUY 102 150) [] = Some (rep, e', ts)"
    "r_executed_quantity rep = 150"
    using demo_buy by (auto split: option.splits)
  from report_accounts [OF demo_engine_ok p(1)] p show ?thesis
    by (auto simp: demo_resting)
qed

lemma demo_reject:
  "case processOrder demo_engine (limit_order 1 BUY 102 150) [] of
     None \<Rightarrow> False | Some (rep, e, ts) \<Rightarrow> r_status rep = REJECTED \<and> r_reject_reason rep = DUPLICATE_ORDER_ID"
  by code_simp

theorem rejected_no_effect_witness:
  "\<exists>rep e' ts. processOrder demo_engine (limit_order 1 BUY 102 150) [] = Some (rep, e', ts) \<and>
    e' = demo_engine\<lparr>sequence := 3, rejected_orders := 1\<rparr> \<and> ts = []"
proof -
  obtain rep e' ts where p: "processOrder demo_engine (limit_order 1 BUY 102 150) [] = Some (rep, e', ts)"
    "r_status rep = REJECTED"
    using demo_reject by (auto split: option.splits)
  have "rejected_orders demo_engine = 0" by code_simp
  with rejected_no_effect [OF demo_engine_ok p] p(1) show ?thesis by (simp add: demo_resting)
qed

definition fok_order :: "u64 \<Rightarrow> Side \<Rightarrow> int \<Rightarrow> u32 \<Rightarrow> Order" where
  "fok_order i s p q = limit_order i s p q\<lparr>o_time_in_force := FOK\<rparr>"

lemma fok_order_fields [simp]:
  "o_side (fok_order i s p q) = s" "o_quantity (fok_order i s p q) = q" "o_id (fok_order i s p q) = i"
  "o_price (fok_order i s p q) = p" "o_time_in_force (fok_order i s p q) = FOK"
  by (simp_all add: fok_order_def)

lemma demo_admissible:
  "validateStatic (fok_order 3 BUY 101 150) = NO_REASON" "3 \<notin> seen_order_ids demo_engine"
  "validate (risk demo_engine) (fok_order 3 BUY 101 150) 2 False = NO_REASON"
  "orderCount (book demo_engine) = 2"
  by code_simp+

theorem fok_all_or_nothing_witness:
  "\<exists>rep e' ts. processOrder demo_engine (fok_order 3 BUY 101 150) [] = Some (rep, e', ts) \<and>
    r_status rep = REJECTED \<and> r_reject_reason rep = FOK_NOT_FILLABLE"
proof -
  let ?o = "fok_order 3 BUY 101 150"
  have "is_i64 (o_price ?o)" by (simp add: is_i64_def)
  from processOrder_ok [OF demo_engine_ok this, of "[]"] obtain rep e' ts
    where p: "processOrder demo_engine ?o [] = Some (rep, e', ts)" by auto
  have "\<not> unat (o_quantity ?o) \<le>
      resting_total (filter (crosses ?o) (resting (book demo_engine) (opposite (o_side ?o))))"
    by code_simp
  with fok_all_or_nothing [OF demo_engine_ok p] demo_admissible p show ?thesis by simp
qed

definition post_order :: "u64 \<Rightarrow> Side \<Rightarrow> int \<Rightarrow> u32 \<Rightarrow> Order" where
  "post_order i s p q = limit_order i s p q\<lparr>o_flags := flag_POST_ONLY\<rparr>"

lemma post_order_fields [simp]:
  "o_side (post_order i s p q) = s" "o_id (post_order i s p q) = i" "o_price (post_order i s p q) = p"
  by (simp_all add: post_order_def)

lemma demo_post_admissible:
  "validateStatic (post_order 3 BUY 100 150) = NO_REASON"
  "validate (risk demo_engine) (post_order 3 BUY 100 150) 2 True = NO_REASON"
  "hasFlag (o_flags (post_order 3 BUY 100 150)) flag_POST_ONLY"
  by code_simp+

theorem post_only_never_takes_witness:
  "\<exists>rep e' ts. processOrder demo_engine (post_order 3 BUY 100 150) [] = Some (rep, e', ts) \<and>
    r_status rep = RESTING \<and> ts = [] \<and>
    resting (book e') BUY = [post_order 3 BUY 100 150\<lparr>o_sequence := 3\<rparr>]"
proof -
  let ?o = "post_order 3 BUY 100 150"
  have "is_i64 (o_price ?o)" by (simp add: is_i64_def)
  from processOrder_ok [OF demo_engine_ok this, of "[]"] obtain rep e' ts
    where p: "processOrder demo_engine ?o [] = Some (rep, e', ts)" by auto
  have no: "\<not> crosses ?o (hd (resting (book demo_engine) SELL))" by code_simp
  from post_only_never_takes [OF demo_engine_ok p] demo_post_admissible demo_admissible(2,4) no p
  show ?thesis by (simp add: demo_resting spec_insert_def)
qed

definition ioc_order :: "u64 \<Rightarrow> Side \<Rightarrow> int \<Rightarrow> u32 \<Rightarrow> Order" where
  "ioc_order i s p q = limit_order i s p q\<lparr>o_time_in_force := IOC\<rparr>"

lemma demo_ioc:
  "case processOrder demo_engine (ioc_order 3 BUY 101 150) [] of
     None \<Rightarrow> False | Some (rep, e, ts) \<Rightarrow> r_status rep = PARTIALLY_FILLED"
  by code_simp

theorem immediate_never_rests_witness:
  "\<exists>rep e' ts. processOrder demo_engine (ioc_order 3 BUY 101 150) [] = Some (rep, e', ts) \<and>
    r_status rep = PARTIALLY_FILLED \<and> resting (book e') BUY = [] \<and> \<not> contains (book e') 3"
proof -
  obtain rep e' ts where p: "processOrder demo_engine (ioc_order 3 BUY 101 150) [] = Some (rep, e', ts)"
    "r_status rep = PARTIALLY_FILLED"
    using demo_ioc by (auto split: option.splits)
  from immediate_never_rests [OF demo_engine_ok p(1)] p show ?thesis
    by (simp add: ioc_order_def demo_resting)
qed

theorem trade_prices_witness:
  "\<exists>rep e' t u. processOrder demo_engine (limit_order 3 BUY 102 150) [] = Some (rep, e', [t, u]) \<and>
    t_price t = 101 \<and> (\<forall>y \<in> set (resting (book e') SELL). \<not> ahead_of SELL (o_price y) (t_price t))"
proof -
  obtain rep e' ts where p: "processOrder demo_engine (limit_order 3 BUY 102 150) [] = Some (rep, e', [] @ ts)"
    "map (\<lambda>t. (t_price t, t_quantity t)) ts = [(101, 100), (102, 50)]"
    using demo_buy by (auto split: option.splits)
  then obtain t u where ts: "ts = [t, u]" "t_price t = 101" by auto
  from trade_prices [OF demo_engine_ok p(1), of t] p(1) ts show ?thesis by auto
qed

theorem cancel_exact_witness:
  "\<exists>rep e'. cancel demo_engine 1 = Some (rep, e') \<and> engine_ok e' \<and> r_status rep = CANCELED \<and>
    r_requested_quantity rep = 100 \<and>
    resting (book e') SELL = [limit_order 2 SELL 102 200\<lparr>o_sequence := 2\<rparr>]"
  using cancel_exact [OF demo_engine_ok, of 1] by (auto simp: demo_resting spec_cancel_def)

lemma demo_rest:
  "case processOrder demo_engine (limit_order 3 BUY 100 150) [] of
     None \<Rightarrow> False | Some (rep, e, ts) \<Rightarrow> r_status rep = RESTING"
  by code_simp

theorem place_cancel_restores_witness:
  "\<exists>rep e1 ts rep2 e2. processOrder demo_engine (limit_order 3 BUY 100 150) [] = Some (rep, e1, ts) \<and>
    cancel e1 3 = Some (rep2, e2) \<and> r_requested_quantity rep2 = 150 \<and>
    resting (book e2) BUY = [] \<and> resting (book e2) SELL = resting (book demo_engine) SELL"
proof -
  obtain rep e1 ts where p: "processOrder demo_engine (limit_order 3 BUY 100 150) [] = Some (rep, e1, ts)"
    "r_status rep = RESTING"
    using demo_rest by (auto split: option.splits)
  have room: "headroom (Suc (Suc 8)) demo_engine" using demo_engine_ok(2) by simp
  have "is_i64 (o_price (limit_order 3 BUY 100 150))" by (simp add: is_i64_def)
  from place_cancel_restores [OF demo_engine_ok(1) room this p] p(1) show ?thesis
    by (auto simp: demo_resting(2))
qed

text \<open>A short session: two offers, a buy that trades with both, a repeated id, and a cancel.\<close>

definition session :: "EngineCommand list" where
  "session = demo_commands @ [New (limit_order 3 BUY 102 150), New (limit_order 3 BUY 90 1), Cancel 2]"

lemma session_valid: "\<forall>c \<in> set session. command_valid c" "length session = 5"
  by (simp_all add: session_def demo_commands_def command_valid_def is_i64_def)

lemma session_run:
  "case run_engine (init_engine default_limits) session of
     None \<Rightarrow> False
   | Some (rs, e) \<Rightarrow> length (concat (map snd rs)) = 2 \<and> accepted_ids rs = [1, 2, 3]"
  by code_simp

theorem trade_ids_consecutive_witness:
  "\<exists>rs e. run_engine (init_engine default_limits) session = Some (rs, e) \<and>
    map t_trade_id (concat (map snd rs)) = [1, 2] \<and> tradeCount e = 2"
proof -
  obtain rs e where r: "run_engine (init_engine default_limits) session = Some (rs, e)"
    "length (concat (map snd rs)) = 2"
    using session_run by (auto split: option.splits)
  have "[0..<2] = [0, 1::nat]" by code_simp
  with trade_ids_consecutive [OF _ session_valid(1) r(1)] r session_valid(2) show ?thesis by simp
qed

theorem order_ids_single_use_witness:
  "\<exists>rs e. run_engine (init_engine default_limits) session = Some (rs, e) \<and>
    accepted_ids rs = [1, 2, 3] \<and> distinct (accepted_ids rs) \<and> \<not> contains (book e) 4"
proof -
  obtain rs e where r: "run_engine (init_engine default_limits) session = Some (rs, e)"
    "accepted_ids rs = [1, 2, 3]"
    using session_run by (auto split: option.splits)
  from order_ids_single_use [OF _ session_valid(1) r(1)] r session_valid(2) show ?thesis by auto
qed

theorem risk_limits_enforced_witness:
  "\<exists>rep e' ts. processOrder demo_engine (limit_order 3 BUY 100 150) [] = Some (rep, e', ts) \<and>
    \<not> kill_switch (risk demo_engine) \<and>
    nat 100 * unat (150 :: u32) \<le> unat (max_order_notional (limits (risk demo_engine)))"
proof -
  obtain rep e' ts where p: "processOrder demo_engine (limit_order 3 BUY 100 150) [] = Some (rep, e', ts)"
    "r_status rep \<noteq> REJECTED"
    using demo_rest by (auto split: option.splits)
  have "is_i64 (o_price (limit_order 3 BUY 100 150))" by (simp add: is_i64_def)
  from risk_limits_enforced [OF demo_engine_ok this p] p(1) show ?thesis by simp
qed

definition tight_limits :: RiskLimits where
  "tight_limits = default_limits\<lparr>max_active_orders := 1\<rparr>"

theorem active_orders_capped_witness:
  "\<exists>rs e. run_engine (init_engine tight_limits) session = Some (rs, e) \<and> orderCount (book e) \<le> 1"
proof -
  have "engine_ready (length session + 0) (init_engine tight_limits)"
    by (rule init_engine_ready) (simp add: session_valid)
  from engine.run_returns [OF this session_valid(1)] obtain rs e
    where r: "run_engine (init_engine tight_limits) session = Some (rs, e)" by blast
  from active_orders_capped [OF _ session_valid(1) r] r session_valid(2) show ?thesis
    by (simp add: tight_limits_def)
qed

theorem self_check_exact_witness:
  "checkInvariants (book demo_engine) \<and> book_ok (book demo_engine) \<and> uncrossed (book demo_engine)"
proof -
  have "storage_ok (book demo_engine)"
    using demo_engine_ok demo_admissible(4) by (intro book_ok_storage_ok) (simp_all add: engine_ok_def)
  moreover have "checkInvariants (book demo_engine)" by code_simp
  ultimately show ?thesis using self_check_exact [of "book demo_engine"] by blast
qed

theorem depth_snapshot_exact_witness:
  "map (\<lambda>l. (ls_price l, unat (ls_total_quantity l), ls_order_count l)) (topLevels (book demo_engine) SELL 1) =
    [(101, 100, 1)]"
  using depth_snapshot_exact [OF demo_engine_ok, of SELL 1] by (simp add: demo_resting depth_of_def)

text \<open>A bid below the offers of the walkthrough.\<close>

definition two_sided_engine :: MatchingEngine where
  "two_sided_engine = (case run_engine (init_engine default_limits) (demo_commands @ [New (limit_order 3 BUY 99 10)]) of
     Some (rs, e) \<Rightarrow> e | None \<Rightarrow> init_engine default_limits)"

theorem spread_positive_witness: "spread (book two_sided_engine) = Some 2 \<and> is_i64 2"
proof -
  let ?cs = "demo_commands @ [New (limit_order 3 BUY 99 10)]"
  have valid: "\<forall>c \<in> set ?cs. command_valid c" "length ?cs = 3"
    using demo_commands_valid by (auto simp: command_valid_def is_i64_def)
  have "engine_ready (length ?cs + 0) (init_engine default_limits)"
    by (rule init_engine_ready) (simp add: demo_commands_valid)
  from engine.run_returns [OF this valid(1)] have ok: "engine_ok two_sided_engine"
    by (auto simp: two_sided_engine_def engine_ready_def)
  have "resting (book two_sided_engine) BUY = [limit_order 3 BUY 99 10\<lparr>o_sequence := 3\<rparr>]"
    and "resting (book two_sided_engine) SELL =
      [limit_order 1 SELL 101 100\<lparr>o_sequence := 1\<rparr>, limit_order 2 SELL 102 200\<lparr>o_sequence := 2\<rparr>]"
    by code_simp+
  from spread_positive [OF ok this] show ?thesis by simp
qed

end
