(* ===== verification/Journal_Codec.thy ===== *)
theory Journal_Codec
  imports Order_Types
begin

unbundle bit_operations_syntax

text \<open>
  The record format of the command journal (\<open>src/journal.cpp\<close>, anonymous namespace): little-endian
  fields in an array of 48 bytes, closed by a CRC32. The array is a list of bytes; every offset the
  code uses is a constant within the array.
\<close>

section \<open>Constants and fields\<close>

type_synonym bytes = "u8 list"

definition kRecordSize :: nat where "kRecordSize = 48"
definition kChecksumOffset :: nat where "kChecksumOffset = 44"
definition kRecordMagic :: u32 where "kRecordMagic = 0x324A424C"
definition kRecordVersion :: u16 where "kRecordVersion = 1"
definition kNewOrderRecord :: u8 where "kNewOrderRecord = 1"
definition kCancelRecord :: u8 where "kCancelRecord = 2"

definition putU16 :: "bytes \<Rightarrow> nat \<Rightarrow> u16 \<Rightarrow> bytes" where
  "putU16 bs offset v = bs[offset := ucast v, offset + 1 := ucast (drop_bit 8 v)]"

definition putU32 :: "bytes \<Rightarrow> nat \<Rightarrow> u32 \<Rightarrow> bytes" where
  "putU32 bs offset v = fold (\<lambda>i bs. bs[offset + i := ucast (drop_bit (8 * i) v)]) [0..<4] bs"

definition putU64 :: "bytes \<Rightarrow> nat \<Rightarrow> u64 \<Rightarrow> bytes" where
  "putU64 bs offset v = fold (\<lambda>i bs. bs[offset + i := ucast (drop_bit (8 * i) v)]) [0..<8] bs"

definition getU16 :: "bytes \<Rightarrow> nat \<Rightarrow> u16" where
  "getU16 bs offset = ucast (((ucast (bs ! offset)) :: u32) OR push_bit 8 (ucast (bs ! (offset + 1))))"

definition getU32 :: "bytes \<Rightarrow> nat \<Rightarrow> u32" where
  "getU32 bs offset = fold (\<lambda>i v. v OR push_bit (8 * i) (ucast (bs ! (offset + i)))) [0..<4] 0"

definition getU64 :: "bytes \<Rightarrow> nat \<Rightarrow> u64" where
  "getU64 bs offset = fold (\<lambda>i v. v OR push_bit (8 * i) (ucast (bs ! (offset + i)))) [0..<8] 0"

section \<open>The checksum\<close>

definition crc_bit :: "u32 \<Rightarrow> u32" where
  "crc_bit crc = (let mask = 0 - (crc AND 1) in drop_bit 1 crc XOR (0xEDB88320 AND mask))"

definition crc_byte :: "u32 \<Rightarrow> u8 \<Rightarrow> u32" where
  "crc_byte crc b = fold (\<lambda>_. crc_bit) [0..<8] (crc XOR ucast b)"

definition crc_state :: "u32 \<Rightarrow> bytes \<Rightarrow> u32" where
  "crc_state crc bs = foldl crc_byte crc bs"

definition crc32 :: "bytes \<Rightarrow> nat \<Rightarrow> u32" where
  "crc32 bs sz = NOT (crc_state 0xFFFFFFFF (take sz bs))"

section \<open>Records\<close>

text \<open>The enumerators as bytes; a byte that is no enumerator is kept as it is.\<close>

definition Side_to_byte :: "Side \<Rightarrow> u8" where
  "Side_to_byte s = (case s of BUY \<Rightarrow> 0 | SELL \<Rightarrow> 1 | Side_Byte b \<Rightarrow> b)"

definition Side_of_byte :: "u8 \<Rightarrow> Side" where
  "Side_of_byte b = (if b = 0 then BUY else if b = 1 then SELL else Side_Byte b)"

definition OrderType_to_byte :: "OrderType \<Rightarrow> u8" where
  "OrderType_to_byte t = (case t of LIMIT \<Rightarrow> 0 | MARKET \<Rightarrow> 1 | OrderType_Byte b \<Rightarrow> b)"

definition OrderType_of_byte :: "u8 \<Rightarrow> OrderType" where
  "OrderType_of_byte b = (if b = 0 then LIMIT else if b = 1 then MARKET else OrderType_Byte b)"

definition TimeInForce_to_byte :: "TimeInForce \<Rightarrow> u8" where
  "TimeInForce_to_byte t = (case t of GTC \<Rightarrow> 0 | IOC \<Rightarrow> 1 | FOK \<Rightarrow> 2 | TimeInForce_Byte b \<Rightarrow> b)"

definition TimeInForce_of_byte :: "u8 \<Rightarrow> TimeInForce" where
  "TimeInForce_of_byte b =
     (if b = 0 then GTC else if b = 1 then IOC else if b = 2 then FOK else TimeInForce_Byte b)"

text \<open>\<open>encodeRecord\<close> is the body of \<open>appendRecord\<close> up to the write.\<close>

definition encodeFields :: "u8 \<Rightarrow> u64 \<Rightarrow> Order \<Rightarrow> bytes" where
  "encodeFields record_type ordinal ord =
     (let bs = replicate kRecordSize 0;
          bs = putU32 bs 0 kRecordMagic;
          bs = putU16 bs 4 kRecordVersion;
          bs = bs[6 := record_type];
          bs = putU64 bs 8 ordinal;
          bs = putU64 bs 16 (o_id ord)
      in if record_type = kNewOrderRecord
         then let bs = bs[24 := Side_to_byte (o_side ord)];
                  bs = bs[25 := OrderType_to_byte (o_type ord)];
                  bs = bs[26 := TimeInForce_to_byte (o_time_in_force ord)];
                  bs = bs[27 := o_flags ord];
                  bs = putU64 bs 28 (word_of_int (o_price ord))
              in putU32 bs 36 (o_quantity ord)
         else bs)"

definition encodeRecord :: "u8 \<Rightarrow> u64 \<Rightarrow> Order \<Rightarrow> bytes" where
  "encodeRecord record_type ordinal ord =
     (let bs = encodeFields record_type ordinal ord
      in putU32 bs kChecksumOffset (crc32 bs kChecksumOffset))"

definition validateRecord :: "bytes \<Rightarrow> u64 \<Rightarrow> string option" where
  "validateRecord bs expected_ordinal =
     (if getU32 bs 0 \<noteq> kRecordMagic then Some ''journal record magic mismatch''
      else if getU16 bs 4 \<noteq> kRecordVersion then Some ''unsupported journal record version''
      else if bs ! 6 \<noteq> kNewOrderRecord \<and> bs ! 6 \<noteq> kCancelRecord
      then Some ''unknown journal record type''
      else if getU64 bs 8 \<noteq> expected_ordinal then Some ''journal ordinal gap or reordering''
      else if getU32 bs kChecksumOffset \<noteq> crc32 bs kChecksumOffset
      then Some ''journal CRC32 mismatch''
      else None)"

definition decodeOrder :: "bytes \<Rightarrow> Order" where
  "decodeOrder bs =
     \<lparr>o_id = getU64 bs 16, o_side = Side_of_byte (bs ! 24), o_type = OrderType_of_byte (bs ! 25),
      o_time_in_force = TimeInForce_of_byte (bs ! 26), o_flags = bs ! 27,
      o_price = sint (getU64 bs 28), o_quantity = getU32 bs 36, o_sequence = 0\<rparr>"

section \<open>Fields round-trip and do not disturb each other\<close>

lemma fold_update_length [simp]:
  "length (fold (\<lambda>i bs. bs[offset + i := f i]) is bs) = length bs"
  by (induction "is" arbitrary: bs) auto

lemma put_length [simp]:
  "length (putU16 bs n w) = length bs" "length (putU32 bs n v) = length bs"
  "length (putU64 bs n x) = length bs"
  by (simp_all add: putU16_def putU32_def putU64_def)

lemma fold_update_nth:
  assumes "k < length bs"
  shows "fold (\<lambda>i bs. bs[n + i := f i]) [0..<m] bs ! k = (if n \<le> k \<and> k < n + m then f (k - n) else bs ! k)"
  using assms
proof (induction m)
  case 0
  then show ?case by auto
next
  case (Suc m)
  then show ?case by (cases "k = n + m") (auto simp: nth_list_update)
qed

lemma put_nth:
  "k < length bs \<Longrightarrow> putU16 bs n w ! k =
     (if k = n + 1 then ucast (drop_bit 8 w) else if k = n then ucast w else bs ! k)"
  "k < length bs \<Longrightarrow> putU32 bs n v ! k =
     (if n \<le> k \<and> k < n + 4 then ucast (drop_bit (8 * (k - n)) v) else bs ! k)"
  "k < length bs \<Longrightarrow> putU64 bs n x ! k =
     (if n \<le> k \<and> k < n + 8 then ucast (drop_bit (8 * (k - n)) x) else bs ! k)"
  by (auto simp: putU16_def nth_list_update putU32_def putU64_def fold_update_nth)

text \<open>A field is determined by its bytes, and its bytes determine it.\<close>

lemma getU16_bytes:
  assumes "bs ! n = ucast v" and "bs ! (n + 1) = ucast (drop_bit 8 v)"
  shows "getU16 bs n = v"
  unfolding getU16_def assms by (rule bit_word_eqI) (auto simp: bit_simps)

lemma fold_or_bit:
  fixes f :: "nat \<Rightarrow> 'a :: len word"
  shows "bit (fold (\<lambda>i v. v OR f i) [0..<m] 0) k \<longleftrightarrow> (\<exists>i < m. bit (f i) k)"
  by (induction m) (auto simp: bit_simps less_Suc_eq)

lemma getU32_bytes:
  assumes "\<And>i. i < 4 \<Longrightarrow> bs ! (n + i) = ucast (drop_bit (8 * i) v)"
  shows "getU32 bs n = v"
proof (rule bit_word_eqI)
  fix k assume k: "k < LENGTH(32)"
  have "bit (getU32 bs n) k \<longleftrightarrow> (\<exists>i < 4. bit (push_bit (8 * i) (ucast (bs ! (n + i)) :: u32)) k)"
    by (simp only: getU32_def fold_or_bit)
  also have "\<dots> \<longleftrightarrow> (\<exists>i < 4. 8 * i \<le> k \<and> k - 8 * i < 8 \<and> bit v k)"
    using assms k by (auto simp: bit_simps)
  also have "\<dots> \<longleftrightarrow> bit v k"
    using k by (auto intro!: exI [of _ "k div 8"])
  finally show "bit (getU32 bs n) k \<longleftrightarrow> bit v k" .
qed

lemma getU64_bytes:
  assumes "\<And>i. i < 8 \<Longrightarrow> bs ! (n + i) = ucast (drop_bit (8 * i) v)"
  shows "getU64 bs n = v"
proof (rule bit_word_eqI)
  fix k assume k: "k < LENGTH(64)"
  have "bit (getU64 bs n) k \<longleftrightarrow> (\<exists>i < 8. bit (push_bit (8 * i) (ucast (bs ! (n + i)) :: u64)) k)"
    by (simp only: getU64_def fold_or_bit)
  also have "\<dots> \<longleftrightarrow> (\<exists>i < 8. 8 * i \<le> k \<and> k - 8 * i < 8 \<and> bit v k)"
    using assms k by (auto simp: bit_simps)
  also have "\<dots> \<longleftrightarrow> bit v k"
    using k by (auto intro!: exI [of _ "k div 8"])
  finally show "bit (getU64 bs n) k \<longleftrightarrow> bit v k" .
qed

lemma get_put:
  "n + 2 \<le> length bs \<Longrightarrow> getU16 (putU16 bs n w) n = w"
  "n + 4 \<le> length bs \<Longrightarrow> getU32 (putU32 bs n v) n = v"
  "n + 8 \<le> length bs \<Longrightarrow> getU64 (putU64 bs n x) n = x"
  by (rule getU16_bytes getU32_bytes getU64_bytes; simp add: put_nth)+

section \<open>The checksum detects bursts\<close>

lemma crc_bit_alt: "crc_bit c = drop_bit 1 c XOR (if bit c 0 then 0xEDB88320 else 0)"
proof -
  have "c AND 1 = of_bool (bit c 0)" by (simp add: and_one_eq bit_0 mod_2_eq_odd)
  then show ?thesis by (simp add: crc_bit_def)
qed

lemma crc_bit_xor: "crc_bit (a XOR b) = crc_bit a XOR crc_bit b"
  by (rule bit_word_eqI) (auto simp: crc_bit_alt bit_simps)

lemma crc_bit_top: "bit (crc_bit c) 31 \<longleftrightarrow> bit c 0"
  by (auto simp: crc_bit_alt bit_simps dest: bit_imp_le_length)

lemma inj_crc_bit: "inj crc_bit"
proof (rule injI)
  fix a b assume eq: "crc_bit a = crc_bit b"
  then have low: "bit a 0 = bit b 0" by (metis crc_bit_top)
  have d: "drop_bit 1 x = crc_bit x XOR (if bit x 0 then 0xEDB88320 else 0)" for x
    by (rule bit_word_eqI) (auto simp: crc_bit_alt bit_simps)
  have "drop_bit 1 a = drop_bit 1 b" by (simp only: d eq low)
  then have "bit (drop_bit 1 a) k = bit (drop_bit 1 b) k" for k by simp
  then have high: "bit a (Suc k) = bit b (Suc k)" for k by (simp add: bit_drop_bit_eq)
  show "a = b"
  proof (rule bit_eqI)
    fix k show "bit a k = bit b k" using low high by (cases k) auto
  qed
qed

lemma funpow_crc_xor: "(crc_bit ^^ n) (a XOR b) = (crc_bit ^^ n) a XOR (crc_bit ^^ n) b"
  by (induction n) (simp_all add: crc_bit_xor)

lemma inj_funpow_crc: "inj (crc_bit ^^ n)"
  by (induction n) (simp_all add: inj_compose inj_crc_bit del: o_apply)

lemma crc_byte_funpow: "crc_byte c b = (crc_bit ^^ 8) (c XOR ucast b)"
proof -
  have "fold (\<lambda>_. f) xs = f ^^ length xs" for f :: "u32 \<Rightarrow> u32" and xs :: "nat list"
    by (induction xs) (simp_all add: funpow_swap1 fun_eq_iff)
  then show ?thesis by (simp add: crc_byte_def)
qed

lemma crc_bit_push:
  assumes "\<And>k. 24 \<le> k \<Longrightarrow> \<not> bit (x :: u32) k" and "j < 8"
  shows "crc_bit (push_bit (Suc j) x) = push_bit j x"
proof (rule bit_word_eqI)
  fix k assume "k < LENGTH(32)"
  then show "bit (crc_bit (push_bit (Suc j) x)) k = bit (push_bit j x) k"
    using assms by (cases "k = 31") (auto simp: crc_bit_alt bit_simps simp del: push_bit_Suc)
qed

lemma crc_push:
  assumes "\<And>k. 24 \<le> k \<Longrightarrow> \<not> bit (x :: u32) k" and "j \<le> 8"
  shows "(crc_bit ^^ j) (push_bit j x) = x"
  using assms(2)
proof (induction j)
  case 0
  then show ?case by simp
next
  case (Suc j)
  have "(crc_bit ^^ Suc j) (push_bit (Suc j) x) = (crc_bit ^^ j) (crc_bit (push_bit (Suc j) x))"
    by (simp add: funpow_swap1)
  with Suc crc_bit_push [OF assms(1), of j] show ?case by simp
qed

text \<open>The bytes of a window as one number; four of them at most.\<close>

fun le_word :: "bytes \<Rightarrow> u32" where
  "le_word [] = 0"
| "le_word (b # bs) = ucast b XOR push_bit 8 (le_word bs)"

lemma le_word_bits: "8 * length bs \<le> k \<Longrightarrow> \<not> bit (le_word bs) k"
  by (induction bs arbitrary: k) (auto simp: bit_simps dest: bit_imp_le_length)

lemma le_word_inj:
  assumes "length bs = length cs" and "length bs \<le> 4" and "le_word bs = le_word cs"
  shows "bs = cs"
  using assms
proof (induction bs cs rule: list_induct2)
  case Nil
  then show ?case by simp
next
  case (Cons b bs c cs)
  have low: "bit x k \<longleftrightarrow> bit (le_word (x # xs)) k" if "k < 8" for x xs k
    using that by (simp add: bit_simps)
  have high: "bit (le_word xs) k \<longleftrightarrow> bit (le_word (x # xs)) (k + 8)" if "length xs \<le> 3" for x xs k
  proof (cases "k < 24")
    case True
    then show ?thesis by (auto simp: bit_simps dest: bit_imp_le_length)
  next
    case False
    then have "\<not> bit (le_word xs) k" "\<not> bit (le_word (x # xs)) (k + 8)"
      using le_word_bits [of xs k] le_word_bits [of "x # xs" "k + 8"] that by auto
    then show ?thesis by simp
  qed
  have "b = c" using Cons.prems(2) low [of _ b bs] low [of _ c cs] by (intro bit_word_eqI) simp
  moreover have "le_word bs = le_word cs"
    using Cons high [of bs _ b] high [of cs _ c] by (intro bit_eqI) simp
  ultimately show ?case using Cons by simp
qed

lemma crc_window:
  "length bs \<le> 4 \<Longrightarrow> crc_state c bs = (crc_bit ^^ (8 * length bs)) (c XOR le_word bs)"
proof (induction bs arbitrary: c)
  case Nil
  then show ?case by (simp add: crc_state_def)
next
  case (Cons b bs)
  have "(crc_bit ^^ 8) (push_bit 8 (le_word bs)) = le_word bs"
    using Cons.prems le_word_bits [of bs] by (intro crc_push) auto
  then have "crc_byte c b XOR le_word bs = (crc_bit ^^ 8) ((c XOR ucast b) XOR push_bit 8 (le_word bs))"
    unfolding crc_byte_funpow funpow_crc_xor by simp
  also have "(c XOR ucast b) XOR push_bit 8 (le_word bs) = c XOR le_word (b # bs)" by (simp add: xor.assoc)
  finally have "crc_state c (b # bs) = (crc_bit ^^ (8 * length bs)) ((crc_bit ^^ 8) (c XOR le_word (b # bs)))"
    using Cons by (simp add: crc_state_def)
  also have "\<dots> = (crc_bit ^^ (8 * length bs + 8)) (c XOR le_word (b # bs))" by (simp only: funpow_add o_apply)
  finally show ?case by (simp only: length_Cons mult_Suc_right add.commute)
qed

lemma xor_cancel: "a XOR c = b XOR c \<Longrightarrow> a = (b :: 'a :: len word)"
  by (drule arg_cong [of _ _ "\<lambda>x. x XOR c"]) (simp add: xor.assoc)

lemma inj_crc_state_left: "crc_state a bs = crc_state b bs \<Longrightarrow> a = b"
proof (induction bs arbitrary: a b)
  case Nil
  then show ?case by (simp add: crc_state_def)
next
  case (Cons x bs)
  then have "crc_byte a x = crc_byte b x" by (simp add: crc_state_def)
  then have "a XOR ucast x = b XOR (ucast x :: u32)"
    unfolding crc_byte_funpow using inj_funpow_crc by (rule injD [rotated])
  then show ?case by (rule xor_cancel)
qed

text \<open>Two byte strings of the same length that differ only within four consecutive bytes have
  different checksum states.\<close>

lemma crc_burst:
  assumes "length ws = length vs" and "length ws \<le> 4" and "ws \<noteq> vs"
  shows "crc_state c (xs @ ws @ ys) \<noteq> crc_state c (xs @ vs @ ys)"
proof
  assume "crc_state c (xs @ ws @ ys) = crc_state c (xs @ vs @ ys)"
  then have "crc_state (crc_state (crc_state c xs) ws) ys = crc_state (crc_state (crc_state c xs) vs) ys"
    by (simp add: crc_state_def)
  then have "crc_state (crc_state c xs) ws = crc_state (crc_state c xs) vs" by (rule inj_crc_state_left)
  then have "crc_state c xs XOR le_word ws = crc_state c xs XOR le_word vs"
    using assms(1,2) inj_funpow_crc [of "8 * length ws"] by (simp add: crc_window inj_eq)
  then have "le_word ws = le_word vs" by (metis xor.commute xor_cancel)
  with assms le_word_inj show False by blast
qed

section \<open>Valid records are code words\<close>

lemma le_word_bit:
  "i < length bs \<Longrightarrow> length bs \<le> 4 \<Longrightarrow> j < 8 \<Longrightarrow> bit (le_word bs) (8 * i + j) \<longleftrightarrow> bit (bs ! i) j"
proof (induction bs arbitrary: i)
  case Nil
  then show ?case by simp
next
  case (Cons b bs)
  show ?case
  proof (cases i)
    case 0
    with Cons.prems show ?thesis by (simp add: bit_simps)
  next
    case (Suc m)
    have "\<not> bit b (8 * i + j)" using Suc bit_imp_le_length [of b "8 * i + j"] by auto
    moreover have "bit (push_bit 8 (le_word bs)) (8 * i + j) \<longleftrightarrow> bit (le_word bs) (8 * m + j)"
      using Suc Cons.prems by (simp add: bit_push_bit_iff)
    ultimately show ?thesis using Suc Cons by (simp add: bit_xor_iff bit_ucast_iff)
  qed
qed

lemma le_word_getU32:
  assumes "length bs = n + 4"
  shows "le_word (drop n bs) = getU32 bs n"
proof -
  have "bs ! (n + i) = ucast (drop_bit (8 * i) (le_word (drop n bs)))" if "i < 4" for i
  proof (rule bit_word_eqI)
    fix k assume "k < LENGTH(8)"
    then show "bit (bs ! (n + i)) k = bit (ucast (drop_bit (8 * i) (le_word (drop n bs))) :: u8) k"
      using le_word_bit [of i "drop n bs" k] that assms by (simp add: bit_ucast_iff bit_drop_bit_eq)
  qed
  then show ?thesis by (rule getU32_bytes [symmetric])
qed

definition crc_residue :: u32 where
  "crc_residue = (crc_bit ^^ 32) 0xFFFFFFFF"

lemma checksum_iff_residue:
  assumes "length bs = kRecordSize"
  shows "getU32 bs kChecksumOffset = crc32 bs kChecksumOffset \<longleftrightarrow>
    crc_state 0xFFFFFFFF bs = crc_residue"
proof -
  let ?s = "crc_state 0xFFFFFFFF (take 44 bs)" and ?v = "getU32 bs 44"
  have "crc_state 0xFFFFFFFF bs = crc_state ?s (drop 44 bs)"
    by (metis append_take_drop_id crc_state_def foldl_append)
  also have "\<dots> = (crc_bit ^^ 32) (?s XOR ?v)"
    using crc_window [of "drop 44 bs" ?s] le_word_getU32 [of bs 44] assms by (simp add: kRecordSize_def)
  finally have "crc_state 0xFFFFFFFF bs = crc_residue \<longleftrightarrow> ?s XOR ?v = 0xFFFFFFFF"
    using inj_funpow_crc [of 32] by (simp add: crc_residue_def inj_eq)
  also have "\<dots> \<longleftrightarrow> ?v = NOT ?s"
  proof
    assume "?s XOR ?v = 0xFFFFFFFF"
    then have "?v XOR ?s = NOT ?s XOR ?s" by (simp add: xor.commute)
    then show "?v = NOT ?s" by (rule xor_cancel)
  qed simp
  finally show ?thesis by (simp add: crc32_def kChecksumOffset_def)
qed

lemma validateRecord_residue:
  assumes "length bs = kRecordSize" and "validateRecord bs n = None"
  shows "crc_state 0xFFFFFFFF bs = crc_residue"
  using assms checksum_iff_residue [OF assms(1)] by (auto simp: validateRecord_def split: if_splits)

text \<open>A change confined to four consecutive bytes, anywhere in the record, is detected.\<close>

lemma burst_detected:
  assumes "length bs = kRecordSize" and "validateRecord bs n = None"
    and "length ws = 4" and "k + 4 \<le> kRecordSize" and "take k bs @ ws @ drop (k + 4) bs \<noteq> bs"
  shows "validateRecord (take k bs @ ws @ drop (k + 4) bs) m \<noteq> None"
proof
  let ?vs = "take 4 (drop k bs)" and ?bs' = "take k bs @ ws @ drop (k + 4) bs"
  assume valid: "validateRecord ?bs' m = None"
  have split: "bs = take k bs @ ?vs @ drop (k + 4) bs"
    by (metis append_take_drop_id drop_drop add.commute)
  have len: "length ?bs' = kRecordSize" "length ws = length ?vs" using assms(1,3,4) by simp_all
  have "ws \<noteq> ?vs" using assms(5) split by metis
  then have "crc_state 0xFFFFFFFF ?bs' \<noteq> crc_state 0xFFFFFFFF bs"
    using crc_burst [OF len(2)] assms(3) by (metis split order_refl)
  with validateRecord_residue [OF len(1) valid] validateRecord_residue [OF assms(1,2)] show False by simp
qed

section \<open>Encoding and decoding\<close>

text \<open>An order as it can be cast from bytes: no byte that names an enumerator is kept as a raw byte.\<close>

definition order_canonical :: "Order \<Rightarrow> bool" where
  "order_canonical ord \<longleftrightarrow> Side_of_byte (Side_to_byte (o_side ord)) = o_side ord \<and>
     OrderType_of_byte (OrderType_to_byte (o_type ord)) = o_type ord \<and>
     TimeInForce_of_byte (TimeInForce_to_byte (o_time_in_force ord)) = o_time_in_force ord \<and>
     is_i64 (o_price ord)"

lemma enum_bytes:
  "isValidSide s \<Longrightarrow> Side_of_byte (Side_to_byte s) = s"
  "isValidOrderType t \<Longrightarrow> OrderType_of_byte (OrderType_to_byte t) = t"
  "isValidTimeInForce f \<Longrightarrow> TimeInForce_of_byte (TimeInForce_to_byte f) = f"
  unfolding isValidSide_def isValidOrderType_def isValidTimeInForce_def
  by (elim disjE; simp add: Side_of_byte_def Side_to_byte_def OrderType_of_byte_def OrderType_to_byte_def
      TimeInForce_of_byte_def TimeInForce_to_byte_def)+

lemma valid_canonical:
  "isValidSide (o_side ord) \<Longrightarrow> isValidOrderType (o_type ord) \<Longrightarrow> isValidTimeInForce (o_time_in_force ord) \<Longrightarrow>
   is_i64 (o_price ord) \<Longrightarrow> order_canonical ord"
  by (simp add: order_canonical_def enum_bytes)

lemma encodeFields_length [simp]: "length (encodeFields t n ord) = kRecordSize"
  by (simp add: encodeFields_def Let_def)

lemma encodeRecord_length [simp]: "length (encodeRecord t n ord) = kRecordSize"
  by (simp add: encodeRecord_def Let_def)

lemma crc32_put_checksum:
  assumes "length bs = kRecordSize"
  shows "crc32 (putU32 bs kChecksumOffset v) kChecksumOffset = crc32 bs kChecksumOffset"
proof -
  have "take 44 (putU32 bs 44 v) = take 44 bs"
    using assms by (intro nth_equalityI) (simp_all add: put_nth kRecordSize_def)
  then show ?thesis by (simp add: crc32_def kChecksumOffset_def)
qed

text \<open>The bytes of the fields all records share, and of those only a new order has.\<close>

definition header_bytes :: "u8 \<Rightarrow> u64 \<Rightarrow> u64 \<Rightarrow> bytes" where
  "header_bytes t n i = putU64 (putU64 ((putU16 (putU32 (replicate kRecordSize 0) 0 kRecordMagic) 4
     kRecordVersion)[6 := t]) 8 n) 16 i"

lemma header_bytes_nth:
  "k < 4 \<Longrightarrow> header_bytes t n i ! k = ucast (drop_bit (8 * k) kRecordMagic)"
  "header_bytes t n i ! 4 = ucast kRecordVersion" "header_bytes t n i ! 5 = ucast (drop_bit 8 kRecordVersion)"
  "header_bytes t n i ! 6 = t"
  "k < 8 \<Longrightarrow> header_bytes t n i ! (8 + k) = ucast (drop_bit (8 * k) n)"
  "k < 8 \<Longrightarrow> header_bytes t n i ! (16 + k) = ucast (drop_bit (8 * k) i)"
  by (simp_all add: header_bytes_def put_nth nth_list_update kRecordSize_def)

lemma header_bytes_length [simp]: "length (header_bytes t n i) = kRecordSize"
  by (simp add: header_bytes_def)

definition order_bytes :: "Order \<Rightarrow> bytes \<Rightarrow> bytes" where
  "order_bytes ord bs = putU32 (putU64 (bs[24 := Side_to_byte (o_side ord), 25 := OrderType_to_byte (o_type ord),
     26 := TimeInForce_to_byte (o_time_in_force ord), 27 := o_flags ord]) 28 (word_of_int (o_price ord)))
     36 (o_quantity ord)"

lemma order_bytes_length [simp]: "length (order_bytes ord bs) = length bs"
  by (simp add: order_bytes_def)

lemma order_bytes_nth:
  assumes "length bs = kRecordSize"
  shows "k < 24 \<Longrightarrow> order_bytes ord bs ! k = bs ! k"
    and "order_bytes ord bs ! 24 = Side_to_byte (o_side ord)"
    and "order_bytes ord bs ! 25 = OrderType_to_byte (o_type ord)"
    and "order_bytes ord bs ! 26 = TimeInForce_to_byte (o_time_in_force ord)"
    and "order_bytes ord bs ! 27 = o_flags ord"
    and "k < 8 \<Longrightarrow> order_bytes ord bs ! (28 + k) = ucast (drop_bit (8 * k) (word_of_int (o_price ord) :: u64))"
    and "k < 4 \<Longrightarrow> order_bytes ord bs ! (36 + k) = ucast (drop_bit (8 * k) (o_quantity ord))"
  using assms by (simp_all add: order_bytes_def put_nth nth_list_update kRecordSize_def)

lemma encodeFields_bytes:
  "encodeFields t n ord =
     (if t = kNewOrderRecord then order_bytes ord (header_bytes t n (o_id ord)) else header_bytes t n (o_id ord))"
  by (simp only: encodeFields_def header_bytes_def order_bytes_def Let_def)

lemma encodeRecord_nth:
  "k < kChecksumOffset \<Longrightarrow> encodeRecord t n ord ! k = encodeFields t n ord ! k"
  by (simp add: encodeRecord_def Let_def put_nth kChecksumOffset_def kRecordSize_def)

lemma encodeRecord_header:
  "k < 24 \<Longrightarrow> encodeRecord t n ord ! k = header_bytes t n (o_id ord) ! k"
  by (simp add: encodeRecord_nth encodeFields_bytes order_bytes_nth kChecksumOffset_def)

lemma encodeRecord_fields:
  "getU32 (encodeRecord t n ord) 0 = kRecordMagic"
  "getU16 (encodeRecord t n ord) 4 = kRecordVersion"
  "encodeRecord t n ord ! 6 = t"
  "getU64 (encodeRecord t n ord) 8 = n"
  "getU64 (encodeRecord t n ord) 16 = o_id ord"
  by (simp_all add: getU32_bytes getU16_bytes getU64_bytes encodeRecord_header header_bytes_nth)

lemma encodeRecord_checksum:
  "getU32 (encodeRecord t n ord) kChecksumOffset = crc32 (encodeRecord t n ord) kChecksumOffset"
  unfolding encodeRecord_def Let_def
  by (subst crc32_put_checksum) (simp_all add: get_put kRecordSize_def kChecksumOffset_def)

lemma encodeRecord_valid:
  assumes "t = kNewOrderRecord \<or> t = kCancelRecord"
  shows "validateRecord (encodeRecord t n ord) n = None"
  using assms by (simp add: validateRecord_def encodeRecord_fields encodeRecord_checksum)

lemma encodeRecord_decode:
  assumes "order_canonical ord"
  shows "decodeOrder (encodeRecord kNewOrderRecord n ord) = ord\<lparr>o_sequence := 0\<rparr>"
proof -
  let ?r = "encodeRecord kNewOrderRecord n ord"
  have b: "?r ! k = order_bytes ord (header_bytes kNewOrderRecord n (o_id ord)) ! k" if "k < 44" for k
    using that by (simp add: encodeRecord_nth encodeFields_bytes kChecksumOffset_def)
  have "getU64 ?r 28 = word_of_int (o_price ord)"
    by (rule getU64_bytes) (simp add: b order_bytes_nth)
  moreover have "getU32 ?r 36 = o_quantity ord"
    by (rule getU32_bytes) (simp add: b order_bytes_nth)
  moreover have "sint (word_of_int (o_price ord) :: u64) = o_price ord"
    using assms by (simp add: order_canonical_def is_i64_def signed_of_int signed_take_bit_int_eq_self)
  ultimately show ?thesis
    using assms by (simp add: decodeOrder_def encodeRecord_fields b order_bytes_nth order_canonical_def)
qed

end
