(* ===== verification/Journal_Io.thy ===== *)
theory Journal_Io
  imports Journal_Codec
begin

text \<open>
  The command journal of \<open>include/journal.hpp\<close> and \<open>src/journal.cpp\<close>. The operating system is a
  parameter of every operation: the record \<open>Os\<close> holds the files and a script of what the coming
  system calls do (how many bytes a \<open>read\<close> or \<open>write\<close> transfers, whether it is interrupted or
  fails, whether an \<open>open\<close> or \<open>fdatasync\<close> fails). When the script is used up, calls succeed. A
  \<open>read\<close> returns nothing only at the end of the file, as POSIX documents.
\<close>

section \<open>The operating system\<close>

datatype IoOutcome = Transfer nat | Eintr | IoError string

record Os =
  os_files :: "string \<Rightarrow> bytes option"
  os_io :: "IoOutcome list"
  os_open :: "string option list"
  os_sync :: "string option list"

definition next_outcome :: "IoOutcome list \<Rightarrow> IoOutcome \<times> IoOutcome list" where
  "next_outcome outs = (case outs of [] \<Rightarrow> (Transfer kRecordSize, []) | x # xs \<Rightarrow> (x, xs))"

definition next_result :: "string option list \<Rightarrow> string option \<times> string option list" where
  "next_result rs = (case rs of [] \<Rightarrow> (None, []) | x # xs \<Rightarrow> (x, xs))"

definition errnoMessage :: "string \<Rightarrow> string \<Rightarrow> string" where
  "errnoMessage operation strerror = operation @ '': '' @ strerror"

text \<open>\<open>std::to_string\<close> of an unsigned number.\<close>

fun to_string :: "nat \<Rightarrow> string" where
  "to_string n = (if n < 10 then [char_of (48 + n)] else to_string (n div 10) @ [char_of (48 + n mod 10)])"

declare to_string.simps [simp del]

section \<open>Writing and reading whole records\<close>

text \<open>\<open>writeAll\<close>: the outcome (an error message, or nothing), the file, and the rest of the script.\<close>

function writeAll :: "IoOutcome list \<Rightarrow> bytes \<Rightarrow> bytes \<Rightarrow> string option \<times> bytes \<times> IoOutcome list" where
  "writeAll outs fl data =
     (if data = [] then (None, fl, outs)
      else
        (case next_outcome outs of
           (Eintr, outs') \<Rightarrow> writeAll outs' fl data
         | (IoError e, outs') \<Rightarrow> (Some (errnoMessage ''write journal'' e), fl, outs')
         | (Transfer k, outs') \<Rightarrow>
             if k = 0 then (Some ''write journal: zero-byte write'', fl, outs')
             else writeAll outs' (fl @ take k data) (drop k data)))"
  by pat_completeness auto
termination
  by (relation "measure (\<lambda>(outs, fl, data). length outs + length data)")
    (auto simp: next_outcome_def kRecordSize_def split: list.splits)

declare writeAll.simps [simp del]

datatype ReadResult = FULL | EOF_REACHED | PARTIAL | READ_ERROR string

function readRecord ::
  "IoOutcome list \<Rightarrow> bytes \<Rightarrow> bytes \<Rightarrow> ReadResult \<times> bytes \<times> bytes \<times> IoOutcome list" where
  "readRecord outs bs rest =
     (if length bs < kRecordSize then
        (case next_outcome outs of
           (Eintr, outs') \<Rightarrow> readRecord outs' bs rest
         | (IoError e, outs') \<Rightarrow> (READ_ERROR (errnoMessage ''read journal'' e), bs, rest, outs')
         | (Transfer k, outs') \<Rightarrow>
             let n = min (max 1 k) (min (kRecordSize - length bs) (length rest))
             in if n = 0 then (if bs = [] then EOF_REACHED else PARTIAL, bs, rest, outs')
                else readRecord outs' (bs @ take n rest) (drop n rest))
      else (FULL, bs, rest, outs))"
  by pat_completeness auto
termination
proof (relation "measure (\<lambda>(outs, bs, rest). length outs + (kRecordSize - length bs))", goal_cases)
  case (3 outs bs rest out outs')
  then show ?case by (auto simp: next_outcome_def split: list.splits)
next
  case (2 outs bs rest out outs' k n)
  then have "length outs' \<le> length outs" by (auto simp: next_outcome_def split: list.splits)
  moreover have "0 < n" and small: "length bs < kRecordSize" and rest: "n \<le> length rest" using 2 by simp_all
  then have "kRecordSize - (length bs + n) < kRecordSize - length bs" by simp
  ultimately show ?case using rest by simp
qed simp

declare readRecord.simps [simp del]

lemma readRecord_steps:
  "\<not> length bs < kRecordSize \<Longrightarrow> readRecord outs bs rest = (FULL, bs, rest, outs)"
  "length bs < kRecordSize \<Longrightarrow> next_outcome outs = (Eintr, outs') \<Longrightarrow>
     readRecord outs bs rest = readRecord outs' bs rest"
  "length bs < kRecordSize \<Longrightarrow> next_outcome outs = (IoError e, outs') \<Longrightarrow>
     readRecord outs bs rest = (READ_ERROR (errnoMessage ''read journal'' e), bs, rest, outs')"
  "length bs < kRecordSize \<Longrightarrow> next_outcome outs = (Transfer k, outs') \<Longrightarrow> rest = [] \<Longrightarrow>
     readRecord outs bs rest = (if bs = [] then EOF_REACHED else PARTIAL, bs, rest, outs')"
  "length bs < kRecordSize \<Longrightarrow> next_outcome outs = (Transfer k, outs') \<Longrightarrow>
     n = min (max 1 k) (min (kRecordSize - length bs) (length rest)) \<Longrightarrow> n \<noteq> 0 \<Longrightarrow>
     readRecord outs bs rest = readRecord outs' (bs @ take n rest) (drop n rest)"
proof goal_cases
  case 1
  then show ?case by (subst readRecord.simps) simp
next
  case 2
  then show ?case by (subst readRecord.simps) simp
next
  case 3
  then show ?case by (subst readRecord.simps) simp
next
  case 4
  then show ?case by (subst readRecord.simps) simp
next
  case 5
  show ?case
    by (subst readRecord.simps) (simp only: 5(1,2) if_True prod.case IoOutcome.case Let_def 5(3) [symmetric] 5(4) if_False)
qed

text \<open>What the loop does, whatever the sizes of the partial reads and the interruptions.\<close>

definition read_spec :: "IoOutcome list \<Rightarrow> bytes \<Rightarrow> ReadResult \<times> bytes \<times> bytes \<times> IoOutcome list \<Rightarrow> bool" where
  "read_spec outs all res \<longleftrightarrow>
     ((\<exists>e. fst res = READ_ERROR e) \<and> (\<exists>m. IoError m \<in> set outs)) \<or>
     (\<exists>outs'. set outs' \<subseteq> set outs \<and> res =
        (if kRecordSize \<le> length all then (FULL, take kRecordSize all, drop kRecordSize all, outs')
         else (if all = [] then EOF_REACHED else PARTIAL, all, [], outs')))"

lemma read_spec_mono: "read_spec outs' all res \<Longrightarrow> set outs' \<subseteq> set outs \<Longrightarrow> read_spec outs all res"
  unfolding read_spec_def by (elim disjE; blast)

lemma readRecord_result:
  assumes "length bs \<le> kRecordSize"
  shows "read_spec outs (bs @ rest) (readRecord outs bs rest)"
  using assms
proof (induction outs bs rest rule: readRecord.induct)
  case (1 outs bs rest)
  obtain out outs' where out: "next_outcome outs = (out, outs')" by (cases "next_outcome outs")
  then have sub: "set outs' \<subseteq> set outs" and err: "\<And>m. out = IoError m \<Longrightarrow> IoError m \<in> set outs"
    by (auto simp: next_outcome_def split: list.splits)
  show ?case
  proof (cases "length bs < kRecordSize")
    case False
    with 1(3) show ?thesis by (auto simp: readRecord_steps(1) read_spec_def)
  next
    case small: True
    show ?thesis
    proof (cases out)
      case (IoError e)
      with readRecord_steps(3) [OF small, of outs e outs' rest] out err [OF IoError] show ?thesis
        by (auto simp: read_spec_def)
    next
      case Eintr
      with 1(2) [OF small out [symmetric]] out 1(3) sub readRecord_steps(2) [OF small, of outs outs' rest]
      show ?thesis by (auto intro: read_spec_mono)
    next
      case (Transfer k)
      show ?thesis
      proof (cases "rest = []")
        case True
        with readRecord_steps(4) [OF small out [unfolded Transfer] True] small sub show ?thesis
          by (auto simp: read_spec_def)
      next
        case False
        define n where "n = min (max 1 k) (min (kRecordSize - length bs) (length rest))"
        then have n: "n \<noteq> 0" "length (bs @ take n rest) \<le> kRecordSize" using small False by auto
        have step: "readRecord outs bs rest = readRecord outs' (bs @ take n rest) (drop n rest)"
          using readRecord_steps(5) [OF small out [unfolded Transfer] n_def n(1)] .
        from 1(1) [OF small out [symmetric] Transfer n_def n] sub show ?thesis
          unfolding step by (auto intro: read_spec_mono)
      qed
    qed
  qed
qed

lemma readRecord_consumes:
  assumes "readRecord outs [] rest = (FULL, bs, rest', outs')"
  shows "bs @ rest' = rest" "length bs = kRecordSize" "length rest' < length rest"
    "set outs' \<subseteq> set outs"
  using readRecord_result [of "[]" outs rest] assms
  by (auto simp: read_spec_def kRecordSize_def split: if_splits)

text \<open>\<open>writeAll\<close> writes all or stops with a prefix written.\<close>

lemma writeAll_steps:
  "writeAll outs fl [] = (None, fl, outs)"
  "bs \<noteq> [] \<Longrightarrow> next_outcome outs = (Eintr, outs') \<Longrightarrow> writeAll outs fl bs = writeAll outs' fl bs"
  "bs \<noteq> [] \<Longrightarrow> next_outcome outs = (IoError e, outs') \<Longrightarrow>
     writeAll outs fl bs = (Some (errnoMessage ''write journal'' e), fl, outs')"
  "bs \<noteq> [] \<Longrightarrow> next_outcome outs = (Transfer 0, outs') \<Longrightarrow>
     writeAll outs fl bs = (Some ''write journal: zero-byte write'', fl, outs')"
  "bs \<noteq> [] \<Longrightarrow> next_outcome outs = (Transfer k, outs') \<Longrightarrow> k \<noteq> 0 \<Longrightarrow>
     writeAll outs fl bs = writeAll outs' (fl @ take k bs) (drop k bs)"
  by (subst writeAll.simps; simp)+

definition write_spec :: "IoOutcome list \<Rightarrow> bytes \<Rightarrow> bytes \<Rightarrow> string option \<times> bytes \<times> IoOutcome list \<Rightarrow> bool" where
  "write_spec outs fl bs res \<longleftrightarrow> set (snd (snd res)) \<subseteq> set outs \<and>
     (case fst res of
        None \<Rightarrow> fst (snd res) = fl @ bs
      | Some e \<Rightarrow> (\<exists>k < length bs. fst (snd res) = fl @ take k bs) \<and>
          ((\<exists>m. IoError m \<in> set outs) \<or> Transfer 0 \<in> set outs))"

lemma writeAll_result: "write_spec outs fl bs (writeAll outs fl bs)"
proof (induction outs fl bs rule: writeAll.induct)
  case (1 outs fl bs)
  obtain out outs' where out: "next_outcome outs = (out, outs')" by (cases "next_outcome outs")
  then have sub: "set outs' \<subseteq> set outs" and err: "\<And>m. out = IoError m \<Longrightarrow> IoError m \<in> set outs"
    and zero: "out = Transfer 0 \<Longrightarrow> Transfer 0 \<in> set outs"
    by (auto simp: next_outcome_def kRecordSize_def split: list.splits)
  show ?case
  proof (cases "bs = []")
    case True
    then show ?thesis by (simp add: writeAll_steps(1) write_spec_def)
  next
    case ne: False
    show ?thesis
    proof (cases out)
      case (IoError e)
      with writeAll_steps(3) [OF ne, of outs e outs' fl] out err [OF IoError] sub ne show ?thesis
        by (auto simp: write_spec_def intro!: exI [of _ 0])
    next
      case Eintr
      with 1(2) [OF ne out [symmetric]] out sub writeAll_steps(2) [OF ne, of outs outs' fl] show ?thesis
        by (auto simp: write_spec_def split: option.splits)
    next
      case (Transfer k)
      show ?thesis
      proof (cases "k = 0")
        case True
        with writeAll_steps(4) [OF ne, of outs outs' fl] out Transfer zero sub ne show ?thesis
          by (auto simp: write_spec_def intro!: exI [of _ 0])
      next
        case False
        have step: "writeAll outs fl bs = writeAll outs' (fl @ take k bs) (drop k bs)"
          using writeAll_steps(5) [OF ne out [unfolded Transfer] False] .
        have IH: "write_spec outs' (fl @ take k bs) (drop k bs) (writeAll outs fl bs)"
          using 1(1) [OF ne out [symmetric] Transfer False] unfolding step .
        have more: "\<exists>j < length bs. take k bs @ take i (drop k bs) = take j bs" if "i < length (drop k bs)" for i
          using that by (intro exI [of _ "k + i"]) (auto simp: take_add)
        from IH sub more show ?thesis
          by (fastforce simp: write_spec_def split: option.splits)
      qed
    qed
  qed
qed

end
