(* ===== verification/Journal.thy ===== *)
theory Journal
  imports Journal_Io Engine_Commands
begin

text \<open>
  The class \<open>EventJournal\<close> of \<open>include/journal.hpp\<close> and \<open>src/journal.cpp\<close>: opening (with a scan of the
  file in append mode), appending, syncing, and the replay of a file into an engine. The descriptor is
  the path it was opened on; the operating system is the record of the theory before. \<^const>\<open>None\<close> in the
  result of a replay is undefined behaviour of the engine.
\<close>

section \<open>Scanning a file\<close>

record ScanResult =
  scan_ok :: bool
  scan_records :: u64
  scan_error_offset :: u64
  scan_error :: string

definition default_scan :: ScanResult where
  "default_scan = \<lparr>scan_ok = False, scan_records = 0, scan_error_offset = 0, scan_error = ''''\<rparr>"

definition scan_failed :: "string \<Rightarrow> ScanResult \<Rightarrow> ScanResult" where
  "scan_failed e res = res\<lparr>scan_error := e, scan_error_offset := scan_records res * of_nat kRecordSize\<rparr>"

function scan_loop :: "IoOutcome list \<Rightarrow> bytes \<Rightarrow> u64 \<Rightarrow> ScanResult \<Rightarrow> ScanResult \<times> IoOutcome list" where
  "scan_loop outs rest expected res =
     (case readRecord outs [] rest of
        (EOF_REACHED, bs, rest', outs') \<Rightarrow> (res\<lparr>scan_ok := True\<rparr>, outs')
      | (PARTIAL, bs, rest', outs') \<Rightarrow> (scan_failed ''truncated journal record'' res, outs')
      | (READ_ERROR e, bs, rest', outs') \<Rightarrow> (scan_failed e res, outs')
      | (FULL, bs, rest', outs') \<Rightarrow>
          (case validateRecord bs expected of
             Some e \<Rightarrow> (scan_failed e res, outs')
           | None \<Rightarrow>
               scan_loop outs' rest' (expected + 1) (res\<lparr>scan_records := scan_records res + 1\<rparr>)))"
  by pat_completeness auto
termination
  by (relation "measure (\<lambda>(outs, rest, expected, res). length rest)")
    (auto dest: readRecord_consumes(3) [OF sym])

declare scan_loop.simps [simp del]

definition scanFile :: "Os \<Rightarrow> string \<Rightarrow> ScanResult \<times> Os" where
  "scanFile os path =
     (let (failed, opens) = next_result (os_open os);
          os = os\<lparr>os_open := opens\<rparr>
      in (case failed of
            Some e \<Rightarrow> (default_scan\<lparr>scan_error := errnoMessage ''open journal for scan'' e\<rparr>, os)
          | None \<Rightarrow>
              (case os_files os path of
                 None \<Rightarrow> (default_scan\<lparr>scan_ok := True\<rparr>, os)
               | Some contents \<Rightarrow>
                   let (res, outs) = scan_loop (os_io os) contents 1 default_scan
                   in (res, os\<lparr>os_io := outs\<rparr>))))"

section \<open>The journal object\<close>

datatype JournalOpenMode = TRUNCATE | APPEND

datatype JournalDurability = BUFFERED | FDATASYNC_EACH_RECORD

record EventJournal =
  j_fd :: "string option"
  next_ordinal :: u64
  durability :: JournalDurability
  last_error :: string

definition closed_journal :: EventJournal where
  "closed_journal = \<lparr>j_fd = None, next_ordinal = 1, durability = BUFFERED, last_error = ''''\<rparr>"

definition isOpen :: "EventJournal \<Rightarrow> bool" where
  "isOpen j \<longleftrightarrow> j_fd j \<noteq> None"

definition setError :: "string \<Rightarrow> EventJournal \<Rightarrow> EventJournal" where
  "setError message j = j\<lparr>last_error := message\<rparr>"

definition close_journal :: "EventJournal \<Rightarrow> EventJournal" where
  "close_journal j = (if isOpen j then j\<lparr>j_fd := None\<rparr> else j)"

text \<open>
  The move constructor and the move assignment: the new value of the target and of the source.
  \<open>leftover\<close> is what a moved-from string holds, which the standard leaves open.
\<close>

definition move_construct :: "string \<Rightarrow> EventJournal \<Rightarrow> EventJournal \<times> EventJournal" where
  "move_construct leftover other = (other, other\<lparr>j_fd := None, next_ordinal := 1, last_error := leftover\<rparr>)"

definition move_assign :: "string \<Rightarrow> bool \<Rightarrow> EventJournal \<Rightarrow> EventJournal \<Rightarrow> EventJournal \<times> EventJournal" where
  "move_assign leftover self this other =
     (if self then (this, other)
      else let this = close_journal this
           in (this\<lparr>j_fd := j_fd other, next_ordinal := next_ordinal other, durability := durability other,
                    last_error := last_error other\<rparr>,
               other\<lparr>j_fd := None, next_ordinal := 1, last_error := leftover\<rparr>))"

definition file_of :: "Os \<Rightarrow> string \<Rightarrow> bytes" where
  "file_of os path = (case os_files os path of None \<Rightarrow> [] | Some f \<Rightarrow> f)"

definition open_journal ::
  "Os \<Rightarrow> EventJournal \<Rightarrow> string \<Rightarrow> JournalOpenMode \<Rightarrow> JournalDurability \<Rightarrow> bool \<times> EventJournal \<times> Os" where
  "open_journal os j path mode dur =
     (let j = (close_journal j)\<lparr>last_error := '''', durability := dur, next_ordinal := 1\<rparr>;
          (scan, os) = (if mode = APPEND then scanFile os path else (default_scan\<lparr>scan_ok := True\<rparr>, os))
      in if \<not> scan_ok scan
         then (False, setError (scan_error scan @ '' at byte offset '' @ to_string (unat (scan_error_offset scan))) j, os)
         else
           let j = (if mode = APPEND then j\<lparr>next_ordinal := scan_records scan + 1\<rparr> else j);
               (failed, opens) = next_result (os_open os);
               os = os\<lparr>os_open := opens\<rparr>
           in (case failed of
                 Some e \<Rightarrow> (False, setError (errnoMessage ''open journal'' e) j, os)
               | None \<Rightarrow>
                   (True, j\<lparr>j_fd := Some path\<rparr>,
                    os\<lparr>os_files := (os_files os)(path \<mapsto>
                         (if mode = TRUNCATE then [] else file_of os path))\<rparr>)))"

definition sync :: "Os \<Rightarrow> EventJournal \<Rightarrow> bool \<times> EventJournal \<times> Os" where
  "sync os j =
     (if \<not> isOpen j then (False, setError ''journal is not open'' j, os)
      else
        let (failed, syncs) = next_result (os_sync os)
        in (case failed of
              Some e \<Rightarrow> (False, setError (errnoMessage ''fdatasync journal'' e) j, os\<lparr>os_sync := syncs\<rparr>)
            | None \<Rightarrow> (True, j, os\<lparr>os_sync := syncs\<rparr>)))"

definition appendRecord ::
  "Os \<Rightarrow> EventJournal \<Rightarrow> u8 \<Rightarrow> Order \<Rightarrow> bool \<times> EventJournal \<times> Os" where
  "appendRecord os j record_type ord =
     (case j_fd j of
        None \<Rightarrow> (False, setError ''journal is not open'' j, os)
      | Some path \<Rightarrow>
          let bs = encodeRecord record_type (next_ordinal j) ord;
              (failed, contents, outs) = writeAll (os_io os) (file_of os path) bs;
              os = os\<lparr>os_files := (os_files os)(path \<mapsto> contents), os_io := outs\<rparr>
          in (case failed of
                Some e \<Rightarrow> (False, setError e j, os)
              | None \<Rightarrow>
                  let j = j\<lparr>next_ordinal := next_ordinal j + 1\<rparr>
                  in if durability j = FDATASYNC_EACH_RECORD then sync os j else (True, j, os)))"

definition appendNewOrder :: "Os \<Rightarrow> EventJournal \<Rightarrow> Order \<Rightarrow> bool \<times> EventJournal \<times> Os" where
  "appendNewOrder os j ord = appendRecord os j kNewOrderRecord ord"

definition appendCancel :: "Os \<Rightarrow> EventJournal \<Rightarrow> u64 \<Rightarrow> bool \<times> EventJournal \<times> Os" where
  "appendCancel os j i = appendRecord os j kCancelRecord (default_order\<lparr>o_id := i\<rparr>)"

section \<open>Replay\<close>

record JournalReplayResult =
  rp_ok :: bool
  rp_records :: u64
  rp_new_orders :: u64
  rp_cancels :: u64
  rp_accepted :: u64
  rp_rejected :: u64
  rp_trades :: u64
  rp_last_ordinal :: u64
  rp_error_offset :: u64
  rp_error :: string

definition default_replay :: JournalReplayResult where
  "default_replay = \<lparr>rp_ok = False, rp_records = 0, rp_new_orders = 0, rp_cancels = 0, rp_accepted = 0,
     rp_rejected = 0, rp_trades = 0, rp_last_ordinal = 0, rp_error_offset = 0, rp_error = ''''\<rparr>"

definition replay_failed :: "string \<Rightarrow> JournalReplayResult \<Rightarrow> JournalReplayResult" where
  "replay_failed e res = res\<lparr>rp_error := e, rp_error_offset := rp_records res * of_nat kRecordSize\<rparr>"

text \<open>One valid record: the command it holds is applied and counted.\<close>

definition count_result ::
  "bool \<Rightarrow> ExecutionReport \<Rightarrow> nat \<Rightarrow> u64 \<Rightarrow> JournalReplayResult \<Rightarrow> JournalReplayResult" where
  "count_result new rep trades expected res =
     (let res = (if new then res\<lparr>rp_new_orders := rp_new_orders res + 1\<rparr>
                 else res\<lparr>rp_cancels := rp_cancels res + 1\<rparr>);
          res = (if accepted rep then res\<lparr>rp_accepted := rp_accepted res + 1\<rparr>
                 else res\<lparr>rp_rejected := rp_rejected res + 1\<rparr>)
      in res\<lparr>rp_trades := rp_trades res + of_nat trades, rp_last_ordinal := expected,
             rp_records := rp_records res + 1\<rparr>)"

definition replay_record ::
  "bytes \<Rightarrow> u64 \<Rightarrow> JournalReplayResult \<Rightarrow> MatchingEngine \<Rightarrow> (JournalReplayResult \<times> MatchingEngine) option" where
  "replay_record bs expected res e =
     (if bs ! 6 = kNewOrderRecord
      then (case processOrder e (decodeOrder bs) [] of
              None \<Rightarrow> None
            | Some (rep, e', trades) \<Rightarrow> Some (count_result True rep (length trades) expected res, e'))
      else (case cancel e (getU64 bs 16) of
              None \<Rightarrow> None
            | Some (rep, e') \<Rightarrow> Some (count_result False rep 0 expected res, e')))"

function replay_loop ::
  "IoOutcome list \<Rightarrow> bytes \<Rightarrow> u64 \<Rightarrow> JournalReplayResult \<Rightarrow> MatchingEngine \<Rightarrow>
   (JournalReplayResult \<times> MatchingEngine \<times> IoOutcome list) option" where
  "replay_loop outs rest expected res e =
     (case readRecord outs [] rest of
        (EOF_REACHED, bs, rest', outs') \<Rightarrow> Some (res\<lparr>rp_ok := True\<rparr>, e, outs')
      | (PARTIAL, bs, rest', outs') \<Rightarrow> Some (replay_failed ''truncated journal record'' res, e, outs')
      | (READ_ERROR m, bs, rest', outs') \<Rightarrow> Some (replay_failed m res, e, outs')
      | (FULL, bs, rest', outs') \<Rightarrow>
          (case validateRecord bs expected of
             Some m \<Rightarrow> Some (replay_failed m res, e, outs')
           | None \<Rightarrow>
               (case replay_record bs expected res e of
                  None \<Rightarrow> None
                | Some (res', e') \<Rightarrow> replay_loop outs' rest' (expected + 1) res' e')))"
  by pat_completeness auto
termination
  by (relation "measure (\<lambda>(outs, rest, expected, res, e). length rest)")
    (auto dest: readRecord_consumes(3) [OF sym])

declare replay_loop.simps [simp del]

definition replay :: "Os \<Rightarrow> string \<Rightarrow> MatchingEngine \<Rightarrow> (JournalReplayResult \<times> MatchingEngine \<times> Os) option" where
  "replay os path e =
     (let (failed, opens) = next_result (os_open os);
          os = os\<lparr>os_open := opens\<rparr>;
          failed = (case failed of
                      Some m \<Rightarrow> Some m
                    | None \<Rightarrow> (if os_files os path = None then Some ''No such file or directory'' else None))
      in (case failed of
            Some m \<Rightarrow> Some (default_replay\<lparr>rp_error := errnoMessage ''open journal for replay'' m\<rparr>, e, os)
          | None \<Rightarrow>
              map_option (\<lambda>(res, e', outs). (res, e', os\<lparr>os_io := outs\<rparr>))
                (replay_loop (os_io os) (file_of os path) 1 default_replay e)))"

end
