(* ===== verification/Journal_Properties.thy ===== *)
theory Journal_Properties
  imports Journal Engine_Properties
begin

text \<open>
  Properties of the command journal: its records round-trip and detect corruption, a file written by
  successful appends replays to the same engine as running the commands directly, and damaged files
  are reported at the right offset with the commands before the damage applied.
\<close>

section \<open>The file a list of commands is written to\<close>

definition command_record :: "u64 \<Rightarrow> EngineCommand \<Rightarrow> bytes" where
  "command_record n c = (case c of
     New ord \<Rightarrow> encodeRecord kNewOrderRecord n ord
   | Cancel i \<Rightarrow> encodeRecord kCancelRecord n (default_order\<lparr>o_id := i\<rparr>))"

fun journal_bytes :: "u64 \<Rightarrow> EngineCommand list \<Rightarrow> bytes" where
  "journal_bytes n [] = []"
| "journal_bytes n (c # cs) = command_record n c @ journal_bytes (n + 1) cs"

definition command_canonical :: "EngineCommand \<Rightarrow> bool" where
  "command_canonical c = (case c of New ord \<Rightarrow> order_canonical ord | Cancel i \<Rightarrow> True)"

lemma command_record_length [simp]: "length (command_record n c) = kRecordSize"
  by (cases c) (simp_all add: command_record_def)

lemma command_record_valid: "validateRecord (command_record n c) n = None"
  by (cases c) (simp_all add: command_record_def encodeRecord_valid)

lemma journal_bytes_length: "length (journal_bytes n cs) = kRecordSize * length cs"
  by (induction cs arbitrary: n) simp_all

lemma journal_bytes_append:
  "journal_bytes n (cs @ ds) = journal_bytes n cs @ journal_bytes (n + of_nat (length cs)) ds"
  by (induction cs arbitrary: n) (simp_all add: add.assoc)

section \<open>Reading back\<close>

definition io_fine :: "IoOutcome list \<Rightarrow> bool" where
  "io_fine outs \<longleftrightarrow> (\<forall>m. IoError m \<notin> set outs)"

lemma readRecord_record:
  assumes "io_fine outs" and "length bs = kRecordSize"
  shows "\<exists>outs'. readRecord outs [] (bs @ rest) = (FULL, bs, rest, outs') \<and> io_fine outs'"
  using readRecord_result [of "[]" outs "bs @ rest"] assms by (auto simp: read_spec_def io_fine_def)

lemma readRecord_end:
  assumes "io_fine outs" and "length rest < kRecordSize"
  shows "\<exists>outs'. readRecord outs [] rest = (if rest = [] then EOF_REACHED else PARTIAL, rest, [], outs') \<and>
    io_fine outs'"
  using readRecord_result [of "[]" outs rest] assms by (auto simp: read_spec_def io_fine_def split: if_splits)

text \<open>The engine stamps the sequence number itself: the one in the order has no influence.\<close>

lemma sequence_fields:
  "o_id (ord\<lparr>o_sequence := n\<rparr>) = o_id ord" "o_side (ord\<lparr>o_sequence := n\<rparr>) = o_side ord"
  "o_type (ord\<lparr>o_sequence := n\<rparr>) = o_type ord" "o_price (ord\<lparr>o_sequence := n\<rparr>) = o_price ord"
  "o_time_in_force (ord\<lparr>o_sequence := n\<rparr>) = o_time_in_force ord"
  "o_flags (ord\<lparr>o_sequence := n\<rparr>) = o_flags ord" "o_quantity (ord\<lparr>o_sequence := n\<rparr>) = o_quantity ord"
  "ord\<lparr>o_sequence := n, o_sequence := m\<rparr> = ord\<lparr>o_sequence := m\<rparr>"
  by simp_all

lemma checks_sequence:
  "validateStatic (ord\<lparr>o_sequence := n\<rparr>) = validateStatic ord"
  "validate rm (ord\<lparr>o_sequence := n\<rparr>) active may_add = validate rm ord active may_add"
  "executableQuantity b (ord\<lparr>o_sequence := n\<rparr>) cap = executableQuantity b ord cap"
  "wouldCross b (ord\<lparr>o_sequence := n\<rparr>) = wouldCross b ord"
  by (simp_all only: validateStatic_def validate_def executableQuantity_def wouldCross_def sequence_fields)

lemma processOrder_sequence: "processOrder e (ord\<lparr>o_sequence := n\<rparr>) out = processOrder e ord out"
  by (simp only: processOrder_def admission_def checks_sequence execute_accepted_def rejectedReport_def
      sequence_fields)

lemma replay_record_command:
  assumes "command_canonical c" and "apply_command e c = Some ((rep, ts), e')"
  shows "replay_record (command_record n c) n res e =
    Some (count_result (\<exists>ord. c = New ord) rep (length ts) n res, e')"
proof (cases c)
  case (New ord)
  with assms show ?thesis
    by (auto simp: replay_record_def command_record_def encodeRecord_fields encodeRecord_decode
        command_canonical_def processOrder_sequence apply_command_def)
next
  case (Cancel i)
  have "kCancelRecord \<noteq> kNewOrderRecord" by (simp add: kCancelRecord_def kNewOrderRecord_def)
  with Cancel assms show ?thesis
    by (auto simp: replay_record_def command_record_def encodeRecord_fields apply_command_def)
qed

text \<open>What replaying commands with results \<open>rs\<close> adds to the counters.\<close>

definition counted ::
  "EngineCommand list \<Rightarrow> (ExecutionReport \<times> Trade list) list \<Rightarrow> JournalReplayResult \<Rightarrow> JournalReplayResult \<Rightarrow> bool" where
  "counted cs rs res res' \<longleftrightarrow> rp_ok res' = rp_ok res \<and> rp_error res' = rp_error res \<and>
     rp_records res' = rp_records res + of_nat (length cs) \<and>
     rp_new_orders res' = rp_new_orders res + of_nat (length (filter (\<lambda>c. \<exists>ord. c = New ord) cs)) \<and>
     rp_accepted res' = rp_accepted res + of_nat (length (filter (accepted \<circ> fst) rs)) \<and>
     rp_rejected res' = rp_rejected res + of_nat (length (filter (\<lambda>r. \<not> accepted (fst r)) rs)) \<and>
     rp_trades res' = rp_trades res + of_nat (length (concat (map snd rs)))"

lemma counted_Cons:
  assumes "counted cs rs (count_result (\<exists>ord. c = New ord) rep (length ts) n res) res'"
  shows "counted (c # cs) ((rep, ts) # rs) res res'"
  using assms by (auto simp: counted_def count_result_def Let_def add.assoc)

text \<open>Replaying the records of commands that run is running them; then the loop goes on with the rest.\<close>

lemma replay_loop_commands:
  assumes "run_engine e cs = Some (rs, e')" and "\<forall>c \<in> set cs. command_canonical c" and "io_fine outs"
  shows "\<exists>res' outs'. replay_loop outs (journal_bytes n cs @ tail) n res e =
      replay_loop outs' tail (n + of_nat (length cs)) res' e' \<and> io_fine outs' \<and> counted cs rs res res'"
  using assms
proof (induction cs arbitrary: n res e rs outs)
  case Nil
  then show ?case by (intro exI [of _ res] exI [of _ outs]) (simp add: counted_def)
next
  case (Cons c cs)
  from Cons.prems(1) obtain rep ts e1 rs1 where step: "apply_command e c = Some ((rep, ts), e1)"
    and run: "run_engine e1 cs = Some (rs1, e')" and rs: "rs = (rep, ts) # rs1"
    by (auto split: option.splits)
  from readRecord_record [OF Cons.prems(3) command_record_length, of n c "journal_bytes (n + 1) cs @ tail"]
  obtain outs1 where rd: "readRecord outs [] (journal_bytes n (c # cs) @ tail) =
      (FULL, command_record n c, journal_bytes (n + 1) cs @ tail, outs1)" and fine: "io_fine outs1" by auto
  let ?res = "count_result (\<exists>ord. c = New ord) rep (length ts) n res"
  have loop: "replay_loop outs (journal_bytes n (c # cs) @ tail) n res e =
      replay_loop outs1 (journal_bytes (n + 1) cs @ tail) (n + 1) ?res e1"
    using rd replay_record_command [OF _ step, of n res] Cons.prems(2)
    by (subst replay_loop.simps) (simp add: command_record_valid)
  have "\<forall>c \<in> set cs. command_canonical c" using Cons.prems(2) by simp
  from Cons.IH [OF run this fine, of "n + 1" ?res] obtain res' outs' where IH:
    "replay_loop outs1 (journal_bytes (n + 1) cs @ tail) (n + 1) ?res e1 =
       replay_loop outs' tail (n + 1 + of_nat (length cs)) res' e'"
    "io_fine outs'" "counted cs rs1 ?res res'" by blast
  have "n + 1 + of_nat (length cs) = n + of_nat (length (c # cs))" by (simp add: add.assoc)
  with loop IH(1,2) counted_Cons [OF IH(3)] show ?case unfolding rs by metis
qed

section \<open>Appending\<close>

definition append_command :: "Os \<Rightarrow> EventJournal \<Rightarrow> EngineCommand \<Rightarrow> bool \<times> EventJournal \<times> Os" where
  "append_command os j c = (case c of New ord \<Rightarrow> appendNewOrder os j ord | Cancel i \<Rightarrow> appendCancel os j i)"

fun append_all :: "Os \<Rightarrow> EventJournal \<Rightarrow> EngineCommand list \<Rightarrow> bool \<times> EventJournal \<times> Os" where
  "append_all os j [] = (True, j, os)"
| "append_all os j (c # cs) =
     (case append_command os j c of
        (ok, j', os') \<Rightarrow> if ok then append_all os' j' cs else (False, j', os'))"

text \<open>
  An append adds a prefix of the record to the file; the ordinal moves on exactly if the record is
  complete. A complete record is reported as a failure only if the sync after it failed.
\<close>

lemma appendRecord_effect:
  assumes "j_fd j = Some path" and "appendRecord os j t ord = (ok, j', os')"
  shows "\<exists>k \<le> kRecordSize.
    file_of os' path = file_of os path @ take k (encodeRecord t (next_ordinal j) ord) \<and>
    next_ordinal j' = (if k = kRecordSize then next_ordinal j + 1 else next_ordinal j) \<and>
    j_fd j' = Some path \<and> (ok \<longrightarrow> k = kRecordSize) \<and>
    (k = kRecordSize \<longrightarrow> ok \<or> durability j = FDATASYNC_EACH_RECORD)"
proof -
  let ?bs = "encodeRecord t (next_ordinal j) ord"
  obtain failed contents outs where w: "writeAll (os_io os) (file_of os path) ?bs = (failed, contents, outs)"
    by (metis prod_cases3)
  note spec = writeAll_result [of "os_io os" "file_of os path" ?bs, unfolded w write_spec_def]
  show ?thesis
  proof (cases failed)
    case (Some e)
    with spec obtain k where "k < kRecordSize" "contents = file_of os path @ take k ?bs" by auto
    with Some assms w show ?thesis
      by (intro exI [of _ k]) (auto simp: appendRecord_def Let_def setError_def file_of_def)
  next
    case None
    with spec have "contents = file_of os path @ ?bs" by simp
    with None assms w show ?thesis
      by (intro exI [of _ kRecordSize])
        (auto simp: appendRecord_def Let_def setError_def file_of_def sync_def isOpen_def
          split: if_splits option.splits prod.splits)
  qed
qed

lemma append_command_record:
  assumes "j_fd j = Some path" and "append_command os j c = (True, j', os')"
  shows "file_of os' path = file_of os path @ command_record (next_ordinal j) c"
    and "next_ordinal j' = next_ordinal j + 1" and "j_fd j' = Some path"
proof -
  obtain t ord where c: "append_command os j c = appendRecord os j t ord"
    "command_record (next_ordinal j) c = encodeRecord t (next_ordinal j) ord"
    by (cases c) (auto simp: append_command_def appendNewOrder_def appendCancel_def command_record_def)
  from appendRecord_effect [OF assms(1), of os t ord True j' os'] assms(2) c
  show "file_of os' path = file_of os path @ command_record (next_ordinal j) c"
    "next_ordinal j' = next_ordinal j + 1" "j_fd j' = Some path" by auto
qed

lemma append_all_bytes:
  assumes "j_fd j = Some path" and "append_all os j cs = (True, j', os')"
  shows "file_of os' path = file_of os path @ journal_bytes (next_ordinal j) cs"
  using assms
proof (induction cs arbitrary: os j)
  case Nil
  then show ?case by simp
next
  case (Cons c cs)
  then obtain j1 os1 where c: "append_command os j c = (True, j1, os1)"
    and cs: "append_all os1 j1 cs = (True, j', os')" by (auto split: prod.splits if_splits)
  from append_command_record [OF Cons.prems(1) c] Cons.IH [OF _ cs] show ?case by simp
qed

section \<open>Scanning\<close>

lemma scan_loop_commands:
  assumes "scan_loop outs (journal_bytes n cs @ tail) n res = (res', outs')" and "scan_ok res'" and "\<not> scan_ok res"
  shows "\<exists>outs1. scan_loop outs1 tail (n + of_nat (length cs))
      (res\<lparr>scan_records := scan_records res + of_nat (length cs)\<rparr>) = (res', outs')"
  using assms
proof (induction cs arbitrary: n res outs)
  case Nil
  then show ?case by auto
next
  case (Cons c cs)
  let ?rest = "journal_bytes (n + 1) cs @ tail"
  from readRecord_result [of "[]" outs "command_record n c @ ?rest"] consider
    e bs r o' where "readRecord outs [] (command_record n c @ ?rest) = (READ_ERROR e, bs, r, o')"
    | o' where "readRecord outs [] (command_record n c @ ?rest) = (FULL, command_record n c, ?rest, o')"
    by (cases "readRecord outs [] (command_record n c @ ?rest)") (auto simp: read_spec_def)
  then show ?case
  proof cases
    case 1
    with Cons.prems show ?thesis by (auto simp: scan_loop.simps [of outs] scan_failed_def)
  next
    case 2
    with Cons.prems(1) have "scan_loop o' ?rest (n + 1) (res\<lparr>scan_records := scan_records res + 1\<rparr>) = (res', outs')"
      by (subst (asm) scan_loop.simps) (simp add: command_record_valid)
    from Cons.IH [OF this Cons.prems(2)] Cons.prems(3) show ?thesis by (simp add: add.assoc)
  qed
qed

lemma scan_loop_damaged:
  assumes "tail \<noteq> []" and "length tail < kRecordSize \<or> validateRecord (take kRecordSize tail) n \<noteq> None"
    and "\<not> scan_ok res"
  shows "\<not> scan_ok (fst (scan_loop outs tail n res))"
  using readRecord_result [of "[]" outs tail] assms
  by (cases "readRecord outs [] tail")
    (subst scan_loop.simps, auto simp: read_spec_def scan_failed_def split: if_splits)

lemma scan_loop_end:
  assumes "scan_loop outs [] n res = (res', outs')"
  shows "scan_records res' = scan_records res"
  using readRecord_result [of "[]" outs "[]"] assms
  by (cases "readRecord outs [] []")
    (subst (asm) scan_loop.simps, auto simp: read_spec_def scan_failed_def kRecordSize_def split: if_splits)

lemma replay_loop_damaged:
  assumes "io_fine outs" and "tail \<noteq> []"
    and "length tail < kRecordSize \<or> validateRecord (take kRecordSize tail) n \<noteq> None"
  shows "\<exists>m outs'. replay_loop outs tail n res e = Some (replay_failed m res, e, outs') \<and> m \<noteq> ''''"
proof (cases "length tail < kRecordSize")
  case True
  from readRecord_end [OF assms(1) True] assms(2) show ?thesis
    by (subst replay_loop.simps) auto
next
  case False
  then have "tail = take kRecordSize tail @ drop kRecordSize tail" "length (take kRecordSize tail) = kRecordSize"
    by simp_all
  with readRecord_record [OF assms(1), of "take kRecordSize tail" "drop kRecordSize tail"] obtain outs'
    where "readRecord outs [] tail = (FULL, take kRecordSize tail, drop kRecordSize tail, outs')" by auto
  moreover obtain m where "validateRecord (take kRecordSize tail) n = Some m" using assms(3) False by auto
  moreover from this have "m \<noteq> ''''" by (auto simp: validateRecord_def split: if_splits)
  ultimately show ?thesis by (subst replay_loop.simps) auto
qed

lemma run_canonical:
  assumes "length cs \<le> 2 ^ 32" and "\<forall>c \<in> set cs. command_canonical c"
  shows "\<exists>rs e. run_engine (init_engine l) cs = Some (rs, e)"
proof -
  have "\<forall>c \<in> set cs. command_valid c"
    using assms(2) by (auto simp: command_canonical_def command_valid_def order_canonical_def
        split: EngineCommand.splits)
  moreover have "engine_ready (length cs + 0) (init_engine l)" using assms(1) by (simp add: init_engine_ready)
  ultimately show ?thesis using engine.run_returns by blast
qed

lemma open_append_ok:
  assumes "open_journal os j path APPEND dur = (True, j1, os1)"
  shows "\<exists>res outs. (scan_loop (os_io os) (file_of os path) 1 default_scan = (res, outs) \<or> os_files os path = None) \<and>
    (scan_ok res \<or> os_files os path = None) \<and> j_fd j1 = Some path \<and> file_of os1 path = file_of os path \<and>
    (os_files os path \<noteq> None \<longrightarrow> next_ordinal j1 = scan_records res + 1)"
  using assms
  by (cases "scan_loop (os_io os) (file_of os path) 1 default_scan")
    (auto simp: open_journal_def scanFile_def Let_def file_of_def default_scan_def split: prod.splits option.splits if_splits)

lemma open_append_damaged:
  assumes "open_journal os j path APPEND dur = (ok, j', os')" and "os_files os path = Some f"
    and "\<And>res outs. scan_loop (os_io os) f 1 default_scan = (res, outs) \<Longrightarrow> \<not> scan_ok res"
  shows "\<not> ok \<and> os_files os' = os_files os \<and> \<not> isOpen j'"
  using assms
  by (cases "scan_loop (os_io os) f 1 default_scan")
    (auto simp: open_journal_def scanFile_def Let_def default_scan_def setError_def close_journal_def isOpen_def
      split: prod.splits option.splits if_splits)

text \<open>With system calls that do not fail, opening an intact journal and appending to it succeed.\<close>

definition io_good :: "IoOutcome list \<Rightarrow> bool" where
  "io_good outs \<longleftrightarrow> io_fine outs \<and> Transfer 0 \<notin> set outs"

lemma scan_loop_fine:
  assumes "io_fine outs"
  shows "\<exists>res' outs'. scan_loop outs (journal_bytes n cs) n res = (res', outs') \<and> scan_ok res' \<and>
    set outs' \<subseteq> set outs"
  using assms
proof (induction cs arbitrary: n res outs)
  case Nil
  from readRecord_result [of "[]" outs "[]"] Nil show ?case
    by (subst scan_loop.simps) (auto simp: read_spec_def io_fine_def kRecordSize_def)
next
  case (Cons c cs)
  from readRecord_record [OF Cons.prems command_record_length, of n c "journal_bytes (n + 1) cs"] obtain outs1
    where rd: "readRecord outs [] (journal_bytes n (c # cs)) = (FULL, command_record n c, journal_bytes (n + 1) cs, outs1)"
      and fine: "io_fine outs1" by auto
  have "scan_loop outs (journal_bytes n (c # cs)) n res =
      scan_loop outs1 (journal_bytes (n + 1) cs) (n + 1) (res\<lparr>scan_records := scan_records res + 1\<rparr>)"
    using rd by (subst scan_loop.simps) (simp add: command_record_valid)
  moreover have "set outs1 \<subseteq> set outs" by (rule readRecord_consumes(4) [OF rd])
  ultimately show ?case
    using Cons.IH [OF fine, of "n + 1" "res\<lparr>scan_records := scan_records res + 1\<rparr>"] by auto
qed

lemma open_append_fine:
  assumes "os_files os path = Some (journal_bytes 1 cs)" and "io_good (os_io os)" and "os_open os = []"
  shows "\<exists>j1 os1. open_journal os j path APPEND dur = (True, j1, os1) \<and> j_fd j1 = Some path \<and>
    durability j1 = dur \<and> io_good (os_io os1)"
proof -
  from scan_loop_fine [of "os_io os" 1 cs default_scan] assms(2) obtain res outs where
    "scan_loop (os_io os) (journal_bytes 1 cs) 1 default_scan = (res, outs)" "scan_ok res"
    "set outs \<subseteq> set (os_io os)" by (auto simp: io_good_def)
  with assms show ?thesis
    by (auto simp: open_journal_def scanFile_def next_result_def Let_def io_good_def io_fine_def)
qed

lemma append_all_fine:
  assumes "j_fd j = Some path" and "durability j = BUFFERED" and "io_good (os_io os)"
  shows "\<exists>j' os'. append_all os j cs = (True, j', os')"
  using assms
proof (induction cs arbitrary: os j)
  case Nil
  then show ?case by simp
next
  case (Cons c cs)
  obtain t ord where c: "append_command os j c = appendRecord os j t ord"
    by (cases c) (auto simp: append_command_def appendNewOrder_def appendCancel_def)
  let ?bs = "encodeRecord t (next_ordinal j) ord"
  obtain failed contents outs where w: "writeAll (os_io os) (file_of os path) ?bs = (failed, contents, outs)"
    by (metis prod_cases3)
  with writeAll_result [of "os_io os" "file_of os path" ?bs] Cons.prems(3) have
    "failed = None" "io_good outs"
    by (auto simp: write_spec_def io_good_def io_fine_def split: option.splits)
  with w Cons.prems c obtain j1 os1 where "append_command os j c = (True, j1, os1)" "j_fd j1 = Some path"
    "durability j1 = BUFFERED" "io_good (os_io os1)"
    by (auto simp: appendRecord_def Let_def)
  with Cons.IH show ?case by simp
qed

text \<open>
  In the mode that syncs each record, an append whose sync fails reports failure but the whole record
  stays in the file: the command is not applied now, and will be applied by the next replay.
\<close>

lemma failed_sync_keeps_record:
  assumes "j_fd j = Some path" and "durability j = FDATASYNC_EACH_RECORD" and "io_good (os_io os)"
    and "os_sync os = Some e # rs"
  shows "\<exists>j' os'. appendNewOrder os j ord = (False, j', os') \<and>
    file_of os' path = file_of os path @ encodeRecord kNewOrderRecord (next_ordinal j) ord"
proof -
  let ?bs = "encodeRecord kNewOrderRecord (next_ordinal j) ord"
  obtain failed contents outs where w: "writeAll (os_io os) (file_of os path) ?bs = (failed, contents, outs)"
    by (metis prod_cases3)
  with writeAll_result [of "os_io os" "file_of os path" ?bs] assms(3) have
    "failed = None" "contents = file_of os path @ ?bs"
    by (auto simp: write_spec_def io_good_def io_fine_def split: option.splits)
  with w assms show ?thesis
    by (auto simp: appendNewOrder_def appendRecord_def Let_def sync_def isOpen_def next_result_def file_of_def)
qed

text \<open>Replaying a whole journal, and one that ends in a damaged record.\<close>

lemma replay_intact:
  assumes "run_engine e cs = Some (rs, e')" and "\<forall>c \<in> set cs. command_canonical c" and "io_fine outs"
  shows "\<exists>res outs'. replay_loop outs (journal_bytes 1 cs) 1 default_replay e = Some (res\<lparr>rp_ok := True\<rparr>, e', outs') \<and>
    counted cs rs default_replay res"
proof -
  from replay_loop_commands [OF assms, of 1 "[]" default_replay] obtain res outs1 where r:
    "replay_loop outs (journal_bytes 1 cs) 1 default_replay e =
       replay_loop outs1 [] (1 + of_nat (length cs)) res e'" "io_fine outs1" "counted cs rs default_replay res"
    by auto
  from readRecord_end [OF r(2), of "[]"] obtain outs2 where "readRecord outs1 [] [] = (EOF_REACHED, [], [], outs2)"
    by (auto simp: kRecordSize_def)
  then have "replay_loop outs1 [] (1 + of_nat (length cs)) res e' = Some (res\<lparr>rp_ok := True\<rparr>, e', outs2)"
    by (subst replay_loop.simps) simp
  with r(1,3) show ?thesis by auto
qed

lemma replay_damaged:
  assumes "run_engine e cs = Some (rs, e')" and "\<forall>c \<in> set cs. command_canonical c" and "io_fine outs"
    and "tail \<noteq> []"
    and "length tail < kRecordSize \<or> validateRecord (take kRecordSize tail) (1 + of_nat (length cs)) \<noteq> None"
  shows "\<exists>m res outs'. replay_loop outs (journal_bytes 1 cs @ tail) 1 default_replay e = Some (replay_failed m res, e', outs') \<and>
    m \<noteq> '''' \<and> counted cs rs default_replay res"
proof -
  from replay_loop_commands [OF assms(1-3), of 1 tail default_replay] obtain res outs1 where r:
    "replay_loop outs (journal_bytes 1 cs @ tail) 1 default_replay e =
       replay_loop outs1 tail (1 + of_nat (length cs)) res e'" "io_fine outs1" "counted cs rs default_replay res"
    by auto
  from replay_loop_damaged [OF r(2) assms(4,5), of res e'] r(1,3) show ?thesis by auto
qed

section \<open>Properties\<close>

text \<open>C16: a record reads back as it was written: it passes the validation for its ordinal and no other,
  and decodes to the order (the sequence number, which the engine assigns, apart).\<close>

theorem record_roundtrip:
  assumes "order_canonical ord"
  shows "validateRecord (encodeRecord kNewOrderRecord n ord) m =
      (if m = n then None else Some ''journal ordinal gap or reordering'') \<and>
    decodeOrder (encodeRecord kNewOrderRecord n ord) = ord\<lparr>o_sequence := 0\<rparr>"
  using encodeRecord_decode [OF assms] encodeRecord_valid [of kNewOrderRecord n ord]
  by (auto simp: validateRecord_def encodeRecord_fields)

text \<open>C17: any corruption confined to four consecutive bytes of a valid record, the checksum included, is
  detected, whatever ordinal is expected.\<close>

theorem corruption_detected:
  assumes "length bs = kRecordSize" and "validateRecord bs n = None"
    and "length ws = 4" and "k + 4 \<le> kRecordSize" and "take k bs @ ws @ drop (k + 4) bs \<noteq> bs"
  shows "\<exists>e. validateRecord (take k bs @ ws @ drop (k + 4) bs) m = Some e"
  using burst_detected [OF assms, of m] by simp


text \<open>C15: a damaged journal is not replayed past the damage. If valid records are followed by an incomplete
  record or by one that does not validate, the replay reports failure at the byte offset of that
  record, and the engine is the one the commands before it give.\<close>

theorem replay_stops_at_damage:
  assumes "length cs \<le> 2 ^ 32" and "\<forall>c \<in> set cs. command_canonical c" and "io_fine outs"
    and "tail \<noteq> []"
    and "length tail < kRecordSize \<or>
      validateRecord (take kRecordSize tail) (1 + of_nat (length cs)) \<noteq> None"
  shows "\<exists>rs e res outs'. run_engine (init_engine l) cs = Some (rs, e) \<and>
    replay_loop outs (journal_bytes 1 cs @ tail) 1 default_replay (init_engine l) = Some (res, e, outs') \<and>
    \<not> rp_ok res \<and> rp_error res \<noteq> '''' \<and> rp_records res = of_nat (length cs) \<and>
    rp_error_offset res = of_nat (kRecordSize * length cs)"
proof -
  obtain rs e where run: "run_engine (init_engine l) cs = Some (rs, e)"
    using run_canonical [OF assms(1,2)] by blast
  from replay_damaged [OF run assms(2-5)] run show ?thesis
    by (force simp: counted_def default_replay_def replay_failed_def mult.commute)
qed

text \<open>C18: an append is all or a prefix. It adds a prefix of the record to the file, whatever the system
  calls do; it succeeds only with the whole record, the ordinal advances exactly with a whole record,
  and a whole record is reported as failed only when the sync after it fails.\<close>

theorem append_all_or_prefix:
  assumes "j_fd j = Some path" and "appendNewOrder os j ord = (ok, j', os')"
  shows "\<exists>k \<le> kRecordSize.
    file_of os' path = file_of os path @ take k (encodeRecord kNewOrderRecord (next_ordinal j) ord) \<and>
    next_ordinal j' = (if k = kRecordSize then next_ordinal j + 1 else next_ordinal j) \<and>
    (ok \<longrightarrow> k = kRecordSize) \<and> (k = kRecordSize \<longrightarrow> ok \<or> durability j = FDATASYNC_EACH_RECORD)"
  using appendRecord_effect [OF assms(1) assms(2) [unfolded appendNewOrder_def]] by blast

text \<open>C19: a journal that is reopened for append continues where it stopped: after appending more commands,
  the file is the journal of all commands together.\<close>

theorem reopen_continues:
  assumes "os_files os path = Some (journal_bytes 1 cs)"
    and "open_journal os j path APPEND dur = (True, j1, os1)"
    and "append_all os1 j1 ds = (True, j2, os2)"
  shows "file_of os2 path = journal_bytes 1 (cs @ ds)"
proof -
  have f: "file_of os path = journal_bytes 1 cs" using assms(1) by (simp add: file_of_def)
  from open_append_ok [OF assms(2)] assms(1) f obtain res outs where
    scan: "scan_loop (os_io os) (journal_bytes 1 cs @ []) 1 default_scan = (res, outs)" "scan_ok res"
    and j1: "j_fd j1 = Some path" "file_of os1 path = journal_bytes 1 cs" "next_ordinal j1 = scan_records res + 1"
    by auto
  from scan_loop_commands [OF scan] obtain outs1 where
    "scan_loop outs1 [] (1 + of_nat (length cs)) (default_scan\<lparr>scan_records := of_nat (length cs)\<rparr>) = (res, outs)"
    by (auto simp: default_scan_def)
  from scan_loop_end [OF this] have "next_ordinal j1 = 1 + of_nat (length cs)" using j1(3) by (simp add: add.commute)
  with append_all_bytes [OF j1(1) assms(3)] j1(2) show ?thesis by (simp add: journal_bytes_append)
qed

text \<open>C20: after an append that broke off inside a record, the journal cannot be reopened for append:
  the torn record is noticed, and nothing is written behind it.\<close>

theorem torn_record_blocks_reopen:
  assumes "os_files os path = Some (journal_bytes 1 cs @ take k (command_record (1 + of_nat (length cs)) c))"
    and "0 < k" and "k < kRecordSize"
    and "open_journal os j path APPEND dur = (ok, j', os')"
  shows "\<not> ok \<and> os_files os' = os_files os \<and> \<not> isOpen j'"
proof (rule open_append_damaged [OF assms(4,1)])
  let ?tail = "take k (command_record (1 + of_nat (length cs)) c)"
  have "length ?tail = k" using assms(3) by simp
  then have tail: "?tail \<noteq> []" "length ?tail < kRecordSize"
    using assms(2,3) by (metis length_greater_0_conv, simp)
  fix res outs assume s: "scan_loop (os_io os) (journal_bytes 1 cs @ ?tail) 1 default_scan = (res, outs)"
  show "\<not> scan_ok res"
  proof
    assume ok: "scan_ok res"
    from scan_loop_commands [OF s ok] obtain outs1 where
      "scan_loop outs1 ?tail (1 + of_nat (length cs)) (default_scan\<lparr>scan_records := of_nat (length cs)\<rparr>) = (res, outs)"
      by (auto simp: default_scan_def)
    moreover have "\<not> scan_ok (default_scan\<lparr>scan_records := of_nat (length cs)\<rparr>)" by (simp add: default_scan_def)
    ultimately show False using scan_loop_damaged [OF tail(1) disjI1 [OF tail(2)]] ok by (metis fst_conv)
  qed
qed

section \<open>Witnesses\<close>

lemma limit_order_canonical:
  "isValidSide s \<Longrightarrow> is_i64 p \<Longrightarrow> order_canonical (limit_order i s p q)"
  by (rule valid_canonical) (simp_all add: isValidOrderType_def isValidTimeInForce_def)

theorem record_roundtrip_witness:
  "validateRecord (encodeRecord kNewOrderRecord 7 (limit_order 1 SELL 101 100)) 7 = None \<and>
   decodeOrder (encodeRecord kNewOrderRecord 7 (limit_order 1 SELL 101 100)) =
     (limit_order 1 SELL 101 100)\<lparr>o_sequence := 0\<rparr>"
  using record_roundtrip [OF limit_order_canonical [of SELL 101 1 100], of 7 7]
  by (simp add: is_i64_def)

theorem corruption_detected_witness:
  "\<exists>e. validateRecord (take 36 (encodeRecord kNewOrderRecord 7 (limit_order 1 SELL 101 100)) @ [1, 2, 3, 4] @
     drop 40 (encodeRecord kNewOrderRecord 7 (limit_order 1 SELL 101 100))) 7 = Some e"
proof -
  let ?r = "encodeRecord kNewOrderRecord 7 (limit_order 1 SELL 101 100)"
  have "?r ! 36 = 100"
    by (simp add: encodeRecord_nth encodeFields_bytes order_bytes_nth(7) [of _ 0, simplified] kChecksumOffset_def)
  moreover have "(take 36 ?r @ [1, 2, 3, 4] @ drop (36 + 4) ?r) ! 36 = 1"
    by (simp add: nth_append kRecordSize_def)
  moreover have "(100 :: u8) \<noteq> 1" by simp
  ultimately have "take 36 ?r @ [1, 2, 3, 4] @ drop (36 + 4) ?r \<noteq> ?r" by metis
  then show ?thesis
    using corruption_detected [of ?r 7 "[1, 2, 3, 4]" 36 7] encodeRecord_valid [of kNewOrderRecord 7]
    by (simp add: kRecordSize_def)
qed

lemma session_canonical: "\<forall>c \<in> set session. command_canonical c"
  by (simp add: session_def demo_commands_def command_canonical_def limit_order_canonical is_i64_def)


theorem replay_stops_at_damage_witness:
  "\<exists>rs e res outs'. run_engine (init_engine default_limits) session = Some (rs, e) \<and>
    replay_loop [] (journal_bytes 1 session @ [76]) 1 default_replay (init_engine default_limits) =
      Some (res, e, outs') \<and> \<not> rp_ok res \<and> rp_error_offset res = 240"
  using replay_stops_at_damage [OF _ session_canonical, of "[]" "[76]" default_limits] session_valid(2)
  by (fastforce simp: io_fine_def kRecordSize_def)

definition demo_os :: "bytes \<Rightarrow> IoOutcome list \<Rightarrow> Os" where
  "demo_os f outs = \<lparr>os_files = [''j'' \<mapsto> f], os_io = outs, os_open = [], os_sync = []\<rparr>"

definition demo_journal :: EventJournal where
  "demo_journal = \<lparr>j_fd = Some ''j'', next_ordinal = 1, durability = BUFFERED, last_error = ''''\<rparr>"

theorem append_all_or_prefix_witness:
  "\<exists>ok j' os'. appendNewOrder (demo_os [] [Transfer 10, IoError ''EIO'']) demo_journal (limit_order 1 SELL 101 100) =
      (ok, j', os') \<and> (\<exists>k \<le> kRecordSize.
        file_of os' ''j'' = take k (encodeRecord kNewOrderRecord 1 (limit_order 1 SELL 101 100)) \<and>
        next_ordinal j' = (if k = kRecordSize then 2 else 1))"
proof -
  obtain ok j' os' where a: "appendNewOrder (demo_os [] [Transfer 10, IoError ''EIO'']) demo_journal
      (limit_order 1 SELL 101 100) = (ok, j', os')" by (metis prod_cases3)
  have "j_fd demo_journal = Some ''j''" by (simp add: demo_journal_def)
  from append_all_or_prefix [OF this a] a show ?thesis
    by (fastforce simp: demo_os_def demo_journal_def file_of_def)
qed

theorem reopen_continues_witness:
  "\<exists>j1 os1 j2 os2.
    open_journal (demo_os (journal_bytes 1 session) []) closed_journal ''j'' APPEND BUFFERED = (True, j1, os1) \<and>
    append_all os1 j1 [Cancel 8] = (True, j2, os2) \<and> file_of os2 ''j'' = journal_bytes 1 (session @ [Cancel 8])"
proof -
  let ?os = "demo_os (journal_bytes 1 session) []"
  have f: "os_files ?os ''j'' = Some (journal_bytes 1 session)" by (simp add: demo_os_def)
  have g: "io_good (os_io ?os)" "os_open ?os = []" by (simp_all add: demo_os_def io_good_def io_fine_def)
  from open_append_fine [OF f g, of closed_journal BUFFERED] obtain j1 os1 where
    o: "open_journal ?os closed_journal ''j'' APPEND BUFFERED = (True, j1, os1)"
    and j1: "j_fd j1 = Some ''j''" "durability j1 = BUFFERED" "io_good (os_io os1)"
    by blast
  from append_all_fine [OF j1, of "[Cancel 8]"] obtain j2 os2 where
    a: "append_all os1 j1 [Cancel 8] = (True, j2, os2)" by blast
  from reopen_continues [OF f o a] o a show ?thesis by blast
qed

theorem torn_record_blocks_reopen_witness:
  "\<exists>ok j os. open_journal (demo_os (journal_bytes 1 session @ take 10 (command_record 6 (Cancel 8))) [])
      closed_journal ''j'' APPEND BUFFERED = (ok, j, os) \<and> \<not> ok \<and> \<not> isOpen j"
proof -
  let ?f = "journal_bytes 1 session @ take 10 (command_record (1 + of_nat (length session)) (Cancel 8))"
  obtain ok j os where o: "open_journal (demo_os ?f []) closed_journal ''j'' APPEND BUFFERED = (ok, j, os)"
    by (metis prod_cases3)
  have "os_files (demo_os ?f []) ''j'' = Some ?f" by (simp add: demo_os_def)
  from torn_record_blocks_reopen [OF this _ _ o] have "\<not> ok \<and> \<not> isOpen j" by (simp add: kRecordSize_def)
  with o session_valid(2) show ?thesis by auto
qed

end
