(* ===== verification/Bounded_Queue.thy ===== *)
theory Bounded_Queue
  imports Lob_Prelude
begin

text \<open>
  The interface the queues of the program share: a bounded first-in first-out buffer. A client relies
  on the laws of the locale \<open>bounded_queue\<close> only; the ring buffer and the locked deque interpret it.
\<close>

datatype 'a queue_op = Push 'a | Pop

text \<open>A sequence of attempts: the items that went in, the items that came out, and the final queue.\<close>

fun run_queue ::
  "('q \<Rightarrow> 'a \<Rightarrow> 'q option) \<Rightarrow> ('q \<Rightarrow> ('a \<times> 'q) option) \<Rightarrow> 'q \<Rightarrow> 'a queue_op list \<Rightarrow> 'a list \<times> 'a list \<times> 'q" where
  "run_queue push pop q [] = ([], [], q)"
| "run_queue push pop q (Push x # ops) =
     (case push q x of
        None \<Rightarrow> run_queue push pop q ops
      | Some q' \<Rightarrow> (case run_queue push pop q' ops of (ins, outs, q'') \<Rightarrow> (x # ins, outs, q'')))"
| "run_queue push pop q (Pop # ops) =
     (case pop q of
        None \<Rightarrow> run_queue push pop q ops
      | Some (x, q') \<Rightarrow> (case run_queue push pop q' ops of (ins, outs, q'') \<Rightarrow> (ins, x # outs, q'')))"

locale bounded_queue =
  fixes push :: "'q \<Rightarrow> 'a \<Rightarrow> 'q option"
    and pop :: "'q \<Rightarrow> ('a \<times> 'q) option"
    and contents :: "'q \<Rightarrow> 'a list"
    and ok :: "'q \<Rightarrow> bool"
    and room :: "'q \<Rightarrow> nat"
  assumes contents_bound: "ok q \<Longrightarrow> length (contents q) \<le> room q"
    and push_full: "ok q \<Longrightarrow> push q x = None \<longleftrightarrow> length (contents q) = room q"
    and push_contents: "ok q \<Longrightarrow> push q x = Some q' \<Longrightarrow>
      ok q' \<and> contents q' = contents q @ [x] \<and> room q' = room q"
    and pop_empty: "ok q \<Longrightarrow> pop q = None \<longleftrightarrow> contents q = []"
    and pop_contents: "ok q \<Longrightarrow> pop q = Some (x, q') \<Longrightarrow>
      ok q' \<and> contents q = x # contents q' \<and> room q' = room q"
begin

text \<open>Nothing is lost, duplicated, invented or reordered.\<close>

lemma run_fifo:
  assumes "ok q" and "run_queue push pop q ops = (ins, outs, q')"
  shows "ok q' \<and> contents q @ ins = outs @ contents q' \<and> room q' = room q"
  using assms
proof (induction ops arbitrary: q ins outs)
  case Nil
  then show ?case by simp
next
  case (Cons op ops)
  show ?case
  proof (cases op)
    case op: (Push x)
    show ?thesis
    proof (cases "push q x")
      case None
      with Cons.IH [OF Cons.prems(1)] Cons.prems(2) op show ?thesis by simp
    next
      case (Some q1)
      note p = push_contents [OF Cons.prems(1) Some]
      from Cons.prems(2) op Some obtain ins1 where r: "run_queue push pop q1 ops = (ins1, outs, q')" "ins = x # ins1"
        by (auto split: prod.splits)
      from Cons.IH [OF _ r(1)] p r(2) show ?thesis by simp
    qed
  next
    case op: Pop
    show ?thesis
    proof (cases "pop q")
      case None
      with Cons.IH [OF Cons.prems(1)] Cons.prems(2) op show ?thesis by simp
    next
      case (Some xq)
      then obtain x q1 where Some: "pop q = Some (x, q1)" by (cases xq) simp
      note p = pop_contents [OF Cons.prems(1) Some]
      from Cons.prems(2) op Some obtain outs1 where r: "run_queue push pop q1 ops = (ins, outs1, q')" "outs = x # outs1"
        by (auto split: prod.splits)
      from Cons.IH [OF _ r(1)] p r(2) show ?thesis by simp
    qed
  qed
qed

text \<open>A burst into an empty queue is accepted up to the capacity, and the rest refused.\<close>

lemma run_burst:
  assumes "ok q"
  shows "\<exists>q'. run_queue push pop q (map Push xs) = (take (room q - length (contents q)) xs, [], q')"
  using assms
proof (induction xs arbitrary: q)
  case Nil
  then show ?case by simp
next
  case (Cons x xs)
  show ?case
  proof (cases "push q x")
    case None
    with Cons push_full show ?thesis by fastforce
  next
    case (Some q1)
    note p = push_contents [OF Cons.prems Some]
    have "length (contents q) < room q"
      using contents_bound [OF Cons.prems] push_full [OF Cons.prems, of x] Some by auto
    then have "room q - length (contents q) = Suc (room q1 - length (contents q1))" using p by simp
    with Cons.IH [of q1] p Some show ?thesis by auto
  qed
qed

end

end
