(* ===== verification/Spsc_Queue.thy ===== *)
theory Spsc_Queue
  imports Bounded_Queue
begin

unbundle bit_operations_syntax

text \<open>
  The lock-free ring buffer of \<open>include/spsc_queue.hpp\<close>: an array and two free-running 64-bit counters.
  First the operations as the code has them, run one after the other; then the same operations cut
  into their loads and stores, with one producer and one consumer interleaved in any way. The acquire
  and release orders of the code make each load of the other side's counter see a state that some
  interleaving has, so the interleavings are those of atomic loads and stores.
\<close>

section \<open>The operations\<close>

record 'a SPSCQueue =
  q_head :: u64
  q_tail :: u64
  q_buffer :: "'a list"

definition spsc_capacity :: "'a SPSCQueue \<Rightarrow> u64" where
  "spsc_capacity q = of_nat (length (q_buffer q))"

text \<open>The constructor: both counters zero; \<open>d\<close> is the value-initialised element.\<close>

definition spsc_init :: "nat \<Rightarrow> 'a \<Rightarrow> 'a SPSCQueue" where
  "spsc_init capacity d = \<lparr>q_head = 0, q_tail = 0, q_buffer = replicate capacity d\<rparr>"

definition index :: "'a SPSCQueue \<Rightarrow> u64 \<Rightarrow> nat" where
  "index q counter = unat (counter AND (spsc_capacity q - 1))"

definition spsc_try_push :: "'a SPSCQueue \<Rightarrow> 'a \<Rightarrow> 'a SPSCQueue option" where
  "spsc_try_push q item =
     (let head = q_head q; tail = q_tail q
      in if spsc_capacity q \<le> head - tail then None
         else Some (q\<lparr>q_buffer := (q_buffer q)[index q head := item], q_head := head + 1\<rparr>))"

definition spsc_try_pop :: "'a SPSCQueue \<Rightarrow> ('a \<times> 'a SPSCQueue) option" where
  "spsc_try_pop q =
     (let tail = q_tail q; head = q_head q
      in if tail = head then None
         else Some (q_buffer q ! index q tail, q\<lparr>q_tail := tail + 1\<rparr>))"

definition spsc_empty :: "'a SPSCQueue \<Rightarrow> bool" where
  "spsc_empty q \<longleftrightarrow> q_head q = q_tail q"

definition spsc_full :: "'a SPSCQueue \<Rightarrow> bool" where
  "spsc_full q \<longleftrightarrow> spsc_capacity q \<le> q_head q - q_tail q"

definition spsc_size :: "'a SPSCQueue \<Rightarrow> u64" where
  "spsc_size q = q_head q - q_tail q"

section \<open>Slots\<close>

text \<open>The static assertion: the capacity is a power of two (that fits the counter type).\<close>

definition power_of_two :: "nat \<Rightarrow> bool" where
  "power_of_two n \<longleftrightarrow> (\<exists>k < 64. n = 2 ^ k)"

definition spsc_ok :: "'a SPSCQueue \<Rightarrow> bool" where
  "spsc_ok q \<longleftrightarrow> power_of_two (length (q_buffer q)) \<and> unat (q_head q - q_tail q) \<le> length (q_buffer q)"

definition spsc_contents :: "'a SPSCQueue \<Rightarrow> 'a list" where
  "spsc_contents q = map (\<lambda>i. q_buffer q ! index q (q_tail q + of_nat i)) [0..<unat (q_head q - q_tail q)]"

lemma unat_capacity:
  assumes "power_of_two (length (q_buffer q))"
  shows "unat (spsc_capacity q) = length (q_buffer q)"
  using assms by (auto simp: power_of_two_def spsc_capacity_def unsigned_of_nat take_bit_nat_eq_self
      power_strict_increasing)

lemma index_mod:
  assumes "power_of_two (length (q_buffer q))"
  shows "index q c = unat c mod length (q_buffer q)"
proof -
  from assms obtain k where k: "k < 64" "length (q_buffer q) = 2 ^ k" by (auto simp: power_of_two_def)
  have "spsc_capacity q = 2 ^ k" by (simp add: spsc_capacity_def k(2))
  then have "index q c = unat (take_bit k c)" by (simp add: index_def take_bit_eq_mask mask_eq_exp_minus_1)
  also have "\<dots> = take_bit k (unat c)" by (simp add: unsigned_take_bit_eq)
  finally show ?thesis by (simp add: take_bit_eq_mod k(2))
qed

lemma index_offset:
  assumes "power_of_two (length (q_buffer q))"
  shows "index q (c + of_nat i) = (unat c + i) mod length (q_buffer q)"
proof -
  from assms obtain k where k: "k < 64" "length (q_buffer q) = 2 ^ k" by (auto simp: power_of_two_def)
  have dvd: "(2 :: nat) ^ k dvd 2 ^ 64" using k(1) by (intro le_imp_power_dvd) simp
  have "unat (c + of_nat i) = (unat c + i) mod 2 ^ 64"
    by (simp add: unat_word_ariths unsigned_of_nat take_bit_eq_mod mod_add_right_eq)
  then show ?thesis using dvd by (simp add: index_mod [OF assms] k(2) mod_mod_cancel)
qed

lemma mod_slot_distinct:
  fixes n :: nat
  assumes "i < n" and "j < n" and "(a + i) mod n = (a + j) mod n"
  shows "i = j"
proof -
  have "x = y" if "x \<le> y" "y < n" "(a + x) mod n = (a + y) mod n" for x y
  proof -
    from that(3) have "n dvd y - x" using that(1) by (metis add_le_cancel_left diff_add_inverse2 diff_diff_left
          mod_eq_dvd_iff_nat add_diff_cancel_left')
    with that(1,2) show ?thesis by (meson diff_is_0_eq dual_order.antisym less_imp_diff_less nat_dvd_not_less neq0_conv)
  qed
  from this [of i j] this [of j i] assms show ?thesis by (cases "i \<le> j") auto
qed

text \<open>Different positions of a full lap are different slots.\<close>

lemma index_distinct:
  assumes "power_of_two (length (q_buffer q))" and "i < length (q_buffer q)" and "j < length (q_buffer q)"
    and "index q (c + of_nat i) = index q (c + of_nat j)"
  shows "i = j"
  using mod_slot_distinct [OF assms(2,3)] assms(4) by (simp add: index_offset [OF assms(1)])

lemma power_of_two_pos: "power_of_two n \<Longrightarrow> 0 < n"
  by (auto simp: power_of_two_def)

lemma index_less: "power_of_two (length (q_buffer q)) \<Longrightarrow> index q c < length (q_buffer q)"
  using power_of_two_pos [of "length (q_buffer q)"] by (simp add: index_mod del: length_greater_0_conv)

lemma index_update [simp]:
  "index (q\<lparr>q_buffer := (q_buffer q)[k := x]\<rparr>) = index q" "index (q\<lparr>q_head := h\<rparr>) = index q"
  "index (q\<lparr>q_tail := t\<rparr>) = index q"
  by (simp_all add: index_def spsc_capacity_def fun_eq_iff)

text \<open>The distance of the counters, and what moving one of them does to it.\<close>

lemma size_push:
  assumes "unat (q_head q - q_tail q) < length (q_buffer q)" and "power_of_two (length (q_buffer q))"
  shows "unat (q_head q + 1 - q_tail q) = unat (q_head q - q_tail q) + 1"
proof -
  have "length (q_buffer q) \<le> 2 ^ 63"
    using assms(2) power_increasing [of _ 63 "2 :: nat"] by (fastforce simp: power_of_two_def)
  moreover have "q_head q + 1 - q_tail q = (q_head q - q_tail q) + 1" by simp
  ultimately show ?thesis using assms(1) by (simp only:) (rule unat_plus_one, simp)
qed

lemma size_pop:
  assumes "q_head q \<noteq> q_tail q"
  shows "unat (q_head q - (q_tail q + 1)) = unat (q_head q - q_tail q) - 1"
    and "0 < unat (q_head q - q_tail q)"
proof -
  have nz: "q_head q - q_tail q \<noteq> 0" using assms by simp
  then show "0 < unat (q_head q - q_tail q)" by (simp add: unat_gt_0)
  then have "1 \<le> q_head q - q_tail q" by (simp add: word_le_nat_alt)
  then have "unat ((q_head q - q_tail q) - 1) = unat (q_head q - q_tail q) - 1" by (simp add: unat_sub)
  then show "unat (q_head q - (q_tail q + 1)) = unat (q_head q - q_tail q) - 1" by (simp add: algebra_simps)
qed

text \<open>Writing the free slot at the head does not touch what is stored.\<close>

lemma contents_write:
  assumes "power_of_two (length (q_buffer q))" and "unat (q_head q - q_tail q) < length (q_buffer q)"
  shows "spsc_contents (q\<lparr>q_buffer := (q_buffer q)[index q (q_head q) := x]\<rparr>) = spsc_contents q"
proof -
  let ?n = "unat (q_head q - q_tail q)"
  have h: "q_head q = q_tail q + of_nat ?n" by simp
  have "index q (q_head q) \<noteq> index q (q_tail q + of_nat i)" if "i < ?n" for i
    using index_distinct [OF assms(1), of ?n i "q_tail q"] assms(2) that h by fastforce
  then show ?thesis by (auto simp: spsc_contents_def)
qed

lemma contents_publish:
  assumes "power_of_two (length (q_buffer q))" and "unat (q_head q - q_tail q) < length (q_buffer q)"
    and "q_buffer q ! index q (q_head q) = x"
  shows "spsc_contents (q\<lparr>q_head := q_head q + 1\<rparr>) = spsc_contents q @ [x]"
  using assms(3) size_push [OF assms(2,1)] by (simp add: spsc_contents_def)

lemma contents_consume:
  assumes "q_head q \<noteq> q_tail q"
  shows "spsc_contents q = q_buffer q ! index q (q_tail q) # spsc_contents (q\<lparr>q_tail := q_tail q + 1\<rparr>)"
proof -
  let ?n = "unat (q_head q - q_tail q)"
  have n: "?n = Suc (unat (q_head q - (q_tail q + 1)))" using size_pop [OF assms] by simp
  have "[0..<?n] = 0 # map Suc [0..<unat (q_head q - (q_tail q + 1))]"
    unfolding n by (simp add: upt_conv_Cons map_Suc_upt del: upt_Suc)
  then show ?thesis by (simp add: spsc_contents_def add.assoc comp_def add.commute add.left_commute)
qed

lemma length_contents: "length (spsc_contents q) = unat (q_head q - q_tail q)"
  by (simp add: spsc_contents_def)

section \<open>Run one after the other\<close>

lemma try_push_some:
  assumes "spsc_ok q" and "spsc_try_push q x = Some q'"
  shows "spsc_ok q' \<and> spsc_contents q' = spsc_contents q @ [x] \<and> length (q_buffer q') = length (q_buffer q)"
proof -
  let ?w = "q\<lparr>q_buffer := (q_buffer q)[index q (q_head q) := x]\<rparr>"
  from assms have p2: "power_of_two (length (q_buffer q))" by (simp add: spsc_ok_def)
  from assms(2) have free: "unat (q_head q - q_tail q) < length (q_buffer q)"
    and q': "q' = ?w\<lparr>q_head := q_head ?w + 1\<rparr>"
    using unat_capacity [OF p2] by (auto simp: spsc_try_push_def Let_def word_le_nat_alt split: if_splits)
  have "spsc_contents q' = spsc_contents ?w @ [x]"
    unfolding q' by (rule contents_publish) (simp_all add: p2 free index_less)
  with contents_write [OF p2 free] size_push [OF free p2] p2 free q' show ?thesis
    by (simp add: spsc_ok_def)
qed

lemma try_pop_some:
  assumes "spsc_ok q" and "spsc_try_pop q = Some (x, q')"
  shows "spsc_ok q' \<and> spsc_contents q = x # spsc_contents q' \<and> length (q_buffer q') = length (q_buffer q)"
  using assms contents_consume [of q] size_pop [of q]
  by (auto simp: spsc_try_pop_def spsc_ok_def Let_def split: if_splits)

interpretation spsc: bounded_queue spsc_try_push spsc_try_pop spsc_contents spsc_ok "length \<circ> q_buffer"
proof
  fix q :: "'a SPSCQueue" and x q'
  assume ok: "spsc_ok q"
  then show "length (spsc_contents q) \<le> (length \<circ> q_buffer) q" by (simp add: length_contents spsc_ok_def)
  from ok show "spsc_try_push q x = None \<longleftrightarrow> length (spsc_contents q) = (length \<circ> q_buffer) q"
    using unat_capacity [of q]
    by (auto simp: spsc_try_push_def Let_def length_contents spsc_ok_def word_le_nat_alt)
  show "spsc_try_push q x = Some q' \<Longrightarrow>
      spsc_ok q' \<and> spsc_contents q' = spsc_contents q @ [x] \<and> (length \<circ> q_buffer) q' = (length \<circ> q_buffer) q"
    using try_push_some [OF ok] by simp
  show "spsc_try_pop q = None \<longleftrightarrow> spsc_contents q = []"
    by (auto simp: spsc_try_pop_def Let_def spsc_contents_def unat_eq_0)
  show "spsc_try_pop q = Some (x, q') \<Longrightarrow>
      spsc_ok q' \<and> spsc_contents q = x # spsc_contents q' \<and> (length \<circ> q_buffer) q' = (length \<circ> q_buffer) q"
    using try_pop_some [OF ok] by simp
qed

section \<open>Producer and consumer interleaved\<close>

text \<open>
  Where each side is inside its operation, with the locals it holds: the producer has loaded its own
  counter, has passed the test for space, has written the slot; the consumer has loaded its own
  counter, has seen an item, has read it.
\<close>

datatype 'a producer = P_Idle | P_Loaded 'a u64 | P_Write 'a u64 | P_Publish 'a u64

datatype 'a consumer = C_Idle | C_Loaded u64 | C_Read u64 | C_Publish u64 'a

record 'a spsc_system =
  ring :: "'a SPSCQueue"
  producer :: "'a producer"
  consumer :: "'a consumer"
  pushed :: "'a list"
  popped :: "'a list"

inductive spsc_step :: "'a spsc_system \<Rightarrow> 'a spsc_system \<Rightarrow> bool" where
  push_start: "producer s = P_Idle \<Longrightarrow>
    spsc_step s (s\<lparr>producer := P_Loaded x (q_head (ring s))\<rparr>)"
| push_full: "producer s = P_Loaded x h \<Longrightarrow> spsc_capacity (ring s) \<le> h - q_tail (ring s) \<Longrightarrow>
    spsc_step s (s\<lparr>producer := P_Idle\<rparr>)"
| push_space: "producer s = P_Loaded x h \<Longrightarrow> \<not> spsc_capacity (ring s) \<le> h - q_tail (ring s) \<Longrightarrow>
    spsc_step s (s\<lparr>producer := P_Write x h\<rparr>)"
| push_write: "producer s = P_Write x h \<Longrightarrow>
    spsc_step s (s\<lparr>ring := (ring s)\<lparr>q_buffer := (q_buffer (ring s))[index (ring s) h := x]\<rparr>,
      producer := P_Publish x h\<rparr>)"
| push_publish: "producer s = P_Publish x h \<Longrightarrow>
    spsc_step s (s\<lparr>ring := (ring s)\<lparr>q_head := h + 1\<rparr>, producer := P_Idle, pushed := pushed s @ [x]\<rparr>)"
| pop_start: "consumer s = C_Idle \<Longrightarrow>
    spsc_step s (s\<lparr>consumer := C_Loaded (q_tail (ring s))\<rparr>)"
| pop_empty: "consumer s = C_Loaded t \<Longrightarrow> t = q_head (ring s) \<Longrightarrow>
    spsc_step s (s\<lparr>consumer := C_Idle\<rparr>)"
| pop_item: "consumer s = C_Loaded t \<Longrightarrow> t \<noteq> q_head (ring s) \<Longrightarrow>
    spsc_step s (s\<lparr>consumer := C_Read t\<rparr>)"
| pop_read: "consumer s = C_Read t \<Longrightarrow>
    spsc_step s (s\<lparr>consumer := C_Publish t (q_buffer (ring s) ! index (ring s) t)\<rparr>)"
| pop_publish: "consumer s = C_Publish t x \<Longrightarrow>
    spsc_step s (s\<lparr>ring := (ring s)\<lparr>q_tail := t + 1\<rparr>, consumer := C_Idle, popped := popped s @ [x]\<rparr>)"

definition spsc_start :: "nat \<Rightarrow> 'a \<Rightarrow> 'a spsc_system" where
  "spsc_start capacity d =
     \<lparr>ring = spsc_init capacity d, producer = P_Idle, consumer = C_Idle, pushed = [], popped = []\<rparr>"

definition producer_ok :: "'a SPSCQueue \<Rightarrow> 'a producer \<Rightarrow> bool" where
  "producer_ok q p = (case p of
     P_Idle \<Rightarrow> True
   | P_Loaded x h \<Rightarrow> h = q_head q
   | P_Write x h \<Rightarrow> h = q_head q \<and> unat (q_head q - q_tail q) < length (q_buffer q)
   | P_Publish x h \<Rightarrow> h = q_head q \<and> unat (q_head q - q_tail q) < length (q_buffer q) \<and>
       q_buffer q ! index q h = x)"

definition consumer_ok :: "'a SPSCQueue \<Rightarrow> 'a consumer \<Rightarrow> bool" where
  "consumer_ok q c = (case c of
     C_Idle \<Rightarrow> True
   | C_Loaded t \<Rightarrow> t = q_tail q
   | C_Read t \<Rightarrow> t = q_tail q \<and> q_head q \<noteq> q_tail q
   | C_Publish t x \<Rightarrow> t = q_tail q \<and> q_head q \<noteq> q_tail q \<and> x = q_buffer q ! index q t)"

definition spsc_inv :: "'a spsc_system \<Rightarrow> bool" where
  "spsc_inv s \<longleftrightarrow> spsc_ok (ring s) \<and> producer_ok (ring s) (producer s) \<and> consumer_ok (ring s) (consumer s) \<and>
     pushed s = popped s @ spsc_contents (ring s)"

lemma spsc_start_inv: "power_of_two capacity \<Longrightarrow> spsc_inv (spsc_start capacity d)"
  by (simp add: spsc_inv_def spsc_start_def spsc_init_def spsc_ok_def producer_ok_def consumer_ok_def
      spsc_contents_def)

lemma slot_apart:
  assumes "spsc_ok q" and "unat (q_head q - q_tail q) < length (q_buffer q)" and "q_head q \<noteq> q_tail q"
  shows "index q (q_head q) \<noteq> index q (q_tail q)"
proof
  let ?n = "unat (q_head q - q_tail q)"
  assume "index q (q_head q) = index q (q_tail q)"
  then have "?n = 0"
    using index_distinct [of q ?n 0 "q_tail q"] assms(1,2) by (cases "q_buffer q") (auto simp: spsc_ok_def)
  with assms(3) show False by (simp add: unat_eq_0)
qed

lemma spsc_step_inv:
  assumes "spsc_step s s'" and "spsc_inv s"
  shows "spsc_inv s'"
  using assms
proof (induction rule: spsc_step.induct)
  case (push_space s x h)
  then show ?case
    using unat_capacity [of "ring s"]
    by (auto simp: spsc_inv_def producer_ok_def spsc_ok_def word_le_nat_alt)
next
  case (push_write s x h)
  then have p2: "power_of_two (length (q_buffer (ring s)))" and h: "h = q_head (ring s)"
    and free: "unat (q_head (ring s) - q_tail (ring s)) < length (q_buffer (ring s))"
    by (auto simp: spsc_inv_def producer_ok_def spsc_ok_def)
  have "consumer_ok ((ring s)\<lparr>q_buffer := (q_buffer (ring s))[index (ring s) h := x]\<rparr>) (consumer s)"
    using push_write.prems slot_apart [OF _ free] h
    by (auto simp: spsc_inv_def consumer_ok_def split: consumer.splits)
  with push_write contents_write [OF p2 free, of x] index_less [OF p2] h free show ?case
    by (simp add: spsc_inv_def spsc_ok_def producer_ok_def)
next
  case (push_publish s x h)
  then have p2: "power_of_two (length (q_buffer (ring s)))" and h: "h = q_head (ring s)"
    and free: "unat (q_head (ring s) - q_tail (ring s)) < length (q_buffer (ring s))"
    and x: "q_buffer (ring s) ! index (ring s) (q_head (ring s)) = x"
    by (auto simp: spsc_inv_def producer_ok_def spsc_ok_def)
  have "q_head (ring s) + 1 \<noteq> q_tail (ring s)"
    using size_push [OF free p2] by (metis add_is_0 diff_self unsigned_0 zero_neq_one)
  then have "consumer_ok ((ring s)\<lparr>q_head := h + 1\<rparr>) (consumer s)"
    using push_publish.prems h by (auto simp: spsc_inv_def consumer_ok_def split: consumer.splits)
  with push_publish contents_publish [OF p2 free x] size_push [OF free p2] p2 free h show ?case
    by (simp add: spsc_inv_def spsc_ok_def producer_ok_def)
next
  case (pop_publish s t x)
  then have ne: "q_head (ring s) \<noteq> q_tail (ring s)" and t: "t = q_tail (ring s)"
    and x: "x = q_buffer (ring s) ! index (ring s) (q_tail (ring s))"
    by (auto simp: spsc_inv_def consumer_ok_def)
  have "producer_ok ((ring s)\<lparr>q_tail := t + 1\<rparr>) (producer s)"
    using pop_publish.prems size_pop [OF ne] t
    by (auto simp: spsc_inv_def producer_ok_def split: producer.splits)
  with pop_publish contents_consume [OF ne] size_pop [OF ne] t x show ?case
    by (auto simp: spsc_inv_def spsc_ok_def consumer_ok_def)
qed (auto simp: spsc_inv_def producer_ok_def consumer_ok_def)

lemma spsc_reachable_inv:
  assumes "spsc_step\<^sup>*\<^sup>* (spsc_start capacity d) s" and "power_of_two capacity"
  shows "spsc_inv s"
  using assms(1) by (induction rule: rtranclp_induct) (auto intro: spsc_step_inv spsc_start_inv [OF assms(2)])

text \<open>How far each side is from the end of its operation.\<close>

definition producer_rank :: "'a producer \<Rightarrow> nat" where
  "producer_rank p = (case p of P_Idle \<Rightarrow> 0 | P_Loaded _ _ \<Rightarrow> 3 | P_Write _ _ \<Rightarrow> 2 | P_Publish _ _ \<Rightarrow> 1)"

definition consumer_rank :: "'a consumer \<Rightarrow> nat" where
  "consumer_rank c = (case c of C_Idle \<Rightarrow> 0 | C_Loaded _ \<Rightarrow> 3 | C_Read _ \<Rightarrow> 2 | C_Publish _ _ \<Rightarrow> 1)"

lemma producer_progress:
  assumes "producer s \<noteq> P_Idle"
  shows "\<exists>s'. spsc_step s s' \<and> producer_rank (producer s') < producer_rank (producer s)"
proof (cases "producer s")
  case (P_Loaded x h)
  show ?thesis
  proof (cases "spsc_capacity (ring s) \<le> h - q_tail (ring s)")
    case True
    from spsc_step.push_full [OF P_Loaded this] P_Loaded show ?thesis by (force simp: producer_rank_def)
  next
    case False
    from spsc_step.push_space [OF P_Loaded this] P_Loaded show ?thesis by (force simp: producer_rank_def)
  qed
next
  case (P_Write x h)
  from spsc_step.push_write [OF this] P_Write show ?thesis by (force simp: producer_rank_def)
next
  case (P_Publish x h)
  from spsc_step.push_publish [OF this] P_Publish show ?thesis by (force simp: producer_rank_def)
qed (use assms in simp)

lemma consumer_progress:
  assumes "consumer s \<noteq> C_Idle"
  shows "\<exists>s'. spsc_step s s' \<and> consumer_rank (consumer s') < consumer_rank (consumer s)"
proof (cases "consumer s")
  case (C_Loaded t)
  show ?thesis
  proof (cases "t = q_head (ring s)")
    case True
    from spsc_step.pop_empty [OF C_Loaded this] C_Loaded show ?thesis by (force simp: consumer_rank_def)
  next
    case False
    from spsc_step.pop_item [OF C_Loaded this] C_Loaded show ?thesis by (force simp: consumer_rank_def)
  qed
next
  case (C_Read t)
  from spsc_step.pop_read [OF this] C_Read show ?thesis by (force simp: consumer_rank_def)
next
  case (C_Publish t x)
  from spsc_step.pop_publish [OF this] C_Publish show ?thesis by (force simp: consumer_rank_def)
qed (use assms in simp)

lemma step_rank:
  assumes "spsc_step s s'"
  shows "producer s \<noteq> P_Idle \<Longrightarrow> producer s' = producer s \<or> producer_rank (producer s') < producer_rank (producer s)"
    and "consumer s \<noteq> C_Idle \<Longrightarrow> consumer s' = consumer s \<or> consumer_rank (consumer s') < consumer_rank (consumer s)"
  using assms by (induction rule: spsc_step.induct) (auto simp: producer_rank_def consumer_rank_def)

text \<open>Run without interruption, the steps of a side are its operation.\<close>

lemma producer_alone:
  assumes "producer s = P_Idle" and "spsc_try_push (ring s) x = Some q'"
  shows "spsc_step\<^sup>*\<^sup>* s (s\<lparr>ring := q', pushed := pushed s @ [x]\<rparr>)"
proof -
  let ?h = "q_head (ring s)"
  let ?w = "(ring s)\<lparr>q_buffer := (q_buffer (ring s))[index (ring s) ?h := x]\<rparr>"
  from assms(2) have space: "\<not> spsc_capacity (ring s) \<le> ?h - q_tail (ring s)" and q': "q' = ?w\<lparr>q_head := ?h + 1\<rparr>"
    by (auto simp: spsc_try_push_def Let_def split: if_splits)
  have "spsc_step s (s\<lparr>producer := P_Loaded x ?h\<rparr>)" using push_start [OF assms(1)] .
  moreover have "spsc_step (s\<lparr>producer := P_Loaded x ?h\<rparr>) (s\<lparr>producer := P_Write x ?h\<rparr>)"
    using push_space [of "s\<lparr>producer := P_Loaded x ?h\<rparr>" x ?h] space by simp
  moreover have "spsc_step (s\<lparr>producer := P_Write x ?h\<rparr>) (s\<lparr>ring := ?w, producer := P_Publish x ?h\<rparr>)"
    using push_write [of "s\<lparr>producer := P_Write x ?h\<rparr>" x ?h] by simp
  moreover have "spsc_step (s\<lparr>ring := ?w, producer := P_Publish x ?h\<rparr>) (s\<lparr>ring := q', pushed := pushed s @ [x]\<rparr>)"
    using push_publish [of "s\<lparr>ring := ?w, producer := P_Publish x ?h\<rparr>" x ?h] assms(1) q' by (cases s) simp
  ultimately show ?thesis by (meson converse_rtranclp_into_rtranclp rtranclp.rtrancl_refl)
qed

lemma consumer_alone:
  assumes "consumer s = C_Idle" and "spsc_try_pop (ring s) = Some (x, q')"
  shows "spsc_step\<^sup>*\<^sup>* s (s\<lparr>ring := q', popped := popped s @ [x]\<rparr>)"
proof -
  let ?t = "q_tail (ring s)"
  from assms(2) have item: "?t \<noteq> q_head (ring s)" and x: "x = q_buffer (ring s) ! index (ring s) ?t"
    and q': "q' = (ring s)\<lparr>q_tail := ?t + 1\<rparr>"
    by (auto simp: spsc_try_pop_def Let_def split: if_splits)
  have "spsc_step s (s\<lparr>consumer := C_Loaded ?t\<rparr>)" using pop_start [OF assms(1)] .
  moreover have "spsc_step (s\<lparr>consumer := C_Loaded ?t\<rparr>) (s\<lparr>consumer := C_Read ?t\<rparr>)"
    using pop_item [of "s\<lparr>consumer := C_Loaded ?t\<rparr>" ?t] item by simp
  moreover have "spsc_step (s\<lparr>consumer := C_Read ?t\<rparr>) (s\<lparr>consumer := C_Publish ?t x\<rparr>)"
    using pop_read [of "s\<lparr>consumer := C_Read ?t\<rparr>" ?t] x by simp
  moreover have "spsc_step (s\<lparr>consumer := C_Publish ?t x\<rparr>) (s\<lparr>ring := q', popped := popped s @ [x]\<rparr>)"
    using pop_publish [of "s\<lparr>consumer := C_Publish ?t x\<rparr>" ?t x] assms(1) q' by (cases s) simp
  ultimately show ?thesis by (meson converse_rtranclp_into_rtranclp rtranclp.rtrancl_refl)
qed

section \<open>Properties\<close>

text \<open>The ring buffer is a first-in first-out queue, from any counter values: whatever sequence of
  pushes and pops is tried, also across the wrap-around of the 64-bit counters, what was stored and
  what was accepted come out in order, and nothing else does.\<close>

theorem spsc_fifo:
  assumes "spsc_ok q" and "run_queue spsc_try_push spsc_try_pop q ops = (ins, outs, q')"
  shows "spsc_ok q' \<and> spsc_contents q @ ins = outs @ spsc_contents q'"
  using spsc.run_fifo [OF assms] by simp

text \<open>C21: the same holds when one producer and one consumer run concurrently, in any interleaving of their
  loads and stores: the items popped so far followed by the items in the ring are the items pushed so
  far, in order, and the ring never holds more than its capacity.\<close>

theorem spsc_concurrent_fifo:
  assumes "spsc_step\<^sup>*\<^sup>* (spsc_start capacity d) s" and "power_of_two capacity"
  shows "pushed s = popped s @ spsc_contents (ring s) \<and> unat (spsc_size (ring s)) \<le> length (q_buffer (ring s))"
  using spsc_reachable_inv [OF assms] by (simp add: spsc_inv_def spsc_ok_def spsc_size_def)

text \<open>C22: no slot is written while it is read: whenever the producer is about to write a slot and the
  consumer is about to read one (or has read it and not yet released it), the slots are different and
  inside the array.\<close>

theorem spsc_no_data_race:
  assumes "spsc_step\<^sup>*\<^sup>* (spsc_start capacity d) s" and "power_of_two capacity"
    and "producer s = P_Write x h" and "consumer s = C_Read t \<or> consumer s = C_Publish t y"
  shows "index (ring s) h \<noteq> index (ring s) t \<and> index (ring s) h < length (q_buffer (ring s)) \<and>
    index (ring s) t < length (q_buffer (ring s))"
proof -
  note inv = spsc_reachable_inv [OF assms(1,2), unfolded spsc_inv_def]
  then have "unat (q_head (ring s) - q_tail (ring s)) < length (q_buffer (ring s))" "h = q_head (ring s)"
    "t = q_tail (ring s)" "q_head (ring s) \<noteq> q_tail (ring s)"
    using assms(3,4) by (auto simp: producer_ok_def consumer_ok_def)
  with slot_apart inv index_less show ?thesis by (auto simp: spsc_ok_def)
qed

text \<open>The queue is wait-free. A side that has started an operation can always take its next step,
  whatever the other side does, and each of its steps brings it closer to the end of the operation.\<close>

theorem spsc_wait_free:
  shows "(producer s \<noteq> P_Idle \<longrightarrow>
       (\<exists>s'. spsc_step s s' \<and> producer_rank (producer s') < producer_rank (producer s))) \<and>
     (consumer s \<noteq> C_Idle \<longrightarrow>
       (\<exists>s'. spsc_step s s' \<and> consumer_rank (consumer s') < consumer_rank (consumer s))) \<and>
     (\<forall>s'. spsc_step s s' \<longrightarrow>
       (producer s \<noteq> P_Idle \<longrightarrow>
          producer s' = producer s \<or> producer_rank (producer s') < producer_rank (producer s)) \<and>
       (consumer s \<noteq> C_Idle \<longrightarrow>
          consumer s' = consumer s \<or> consumer_rank (consumer s') < consumer_rank (consumer s)))"
  using producer_progress consumer_progress step_rank by blast

section \<open>Witnesses\<close>

definition wrapping_ring :: "nat SPSCQueue" where
  "wrapping_ring = \<lparr>q_head = - 1, q_tail = - 1, q_buffer = [0, 0]\<rparr>"

lemma power_of_two_2: "power_of_two 2"
  by (auto simp: power_of_two_def intro: exI [of _ 1])

theorem spsc_fifo_witness:
  "\<exists>ins outs q'. run_queue spsc_try_push spsc_try_pop wrapping_ring [Push 1, Push 2, Push 3, Pop] = (ins, outs, q') \<and>
    ins = [1, 2] \<and> ins = outs @ spsc_contents q'"
proof -
  have "spsc_ok wrapping_ring" using power_of_two_2 by (simp add: spsc_ok_def wrapping_ring_def numeral_2_eq_2)
  moreover obtain ins outs q' where
    r: "run_queue spsc_try_push spsc_try_pop wrapping_ring [Push 1, Push 2, Push 3, Pop] = (ins, outs, q')"
    by (metis prod_cases3)
  moreover have "fst (run_queue spsc_try_push spsc_try_pop wrapping_ring [Push 1, Push 2, Push 3, Pop]) = [1, 2]"
    by code_simp
  moreover have "spsc_contents wrapping_ring = []" by (simp add: wrapping_ring_def spsc_contents_def)
  ultimately show ?thesis using spsc_fifo [of wrapping_ring] by (metis append_Nil fst_conv)
qed

definition pushed_once :: "nat spsc_system" where
  "pushed_once = (spsc_start 2 0)\<lparr>ring := \<lparr>q_head = 1, q_tail = 0, q_buffer = [7, 0]\<rparr>, pushed := [7]\<rparr>"

lemma pushed_once_reachable: "spsc_step\<^sup>*\<^sup>* (spsc_start 2 0) pushed_once"
proof -
  let ?s0 = "spsc_start 2 (0 :: nat)"
  let ?s1 = "?s0\<lparr>producer := P_Loaded 7 0\<rparr>"
  let ?s2 = "?s0\<lparr>producer := P_Write 7 0\<rparr>"
  let ?s3 = "?s0\<lparr>ring := \<lparr>q_head = 0, q_tail = 0, q_buffer = [7, 0]\<rparr>, producer := P_Publish 7 0\<rparr>"
  have "spsc_step ?s0 ?s1" using spsc_step.push_start [of ?s0 7] by (simp add: spsc_start_def spsc_init_def)
  moreover have "spsc_step ?s1 ?s2"
    using spsc_step.push_space [of ?s1 7 0] by (simp add: spsc_start_def spsc_init_def spsc_capacity_def)
  moreover have "spsc_step ?s2 ?s3"
    using spsc_step.push_write [of ?s2 7 0]
    by (simp add: spsc_start_def spsc_init_def index_def spsc_capacity_def numeral_2_eq_2)
  moreover have "spsc_step ?s3 pushed_once"
    using spsc_step.push_publish [of ?s3 7 0] by (simp add: spsc_start_def spsc_init_def pushed_once_def)
  ultimately show ?thesis by (meson converse_rtranclp_into_rtranclp rtranclp.rtrancl_refl)
qed

theorem spsc_concurrent_fifo_witness:
  "pushed pushed_once = popped pushed_once @ spsc_contents (ring pushed_once) \<and> pushed pushed_once = [7]"
  using spsc_concurrent_fifo [OF pushed_once_reachable power_of_two_2] by (simp add: pushed_once_def)

definition both_busy :: "nat spsc_system" where
  "both_busy = pushed_once\<lparr>producer := P_Write 8 1, consumer := C_Read 0\<rparr>"

lemma both_busy_reachable: "spsc_step\<^sup>*\<^sup>* (spsc_start 2 0) both_busy"
proof -
  let ?s1 = "pushed_once\<lparr>producer := P_Loaded 8 1\<rparr>"
  let ?s2 = "pushed_once\<lparr>producer := P_Write 8 1\<rparr>"
  let ?s3 = "pushed_once\<lparr>producer := P_Write 8 1, consumer := C_Loaded 0\<rparr>"
  have "spsc_step pushed_once ?s1"
    using spsc_step.push_start [of pushed_once 8] by (simp add: spsc_start_def pushed_once_def)
  moreover have "spsc_step ?s1 ?s2"
    using spsc_step.push_space [of ?s1 8 1]
    by (simp add: pushed_once_def spsc_start_def spsc_capacity_def word_le_nat_alt)
  moreover have "spsc_step ?s2 ?s3"
    using spsc_step.pop_start [of ?s2] by (simp add: pushed_once_def spsc_start_def)
  moreover have "spsc_step ?s3 both_busy"
    using spsc_step.pop_item [of ?s3 0] by (simp add: both_busy_def pushed_once_def spsc_start_def)
  ultimately have "spsc_step\<^sup>*\<^sup>* pushed_once both_busy"
    by (meson converse_rtranclp_into_rtranclp rtranclp.rtrancl_refl)
  with pushed_once_reachable show ?thesis by (rule rtranclp_trans)
qed

theorem spsc_no_data_race_witness: "index (ring both_busy) 1 \<noteq> index (ring both_busy) 0"
  using spsc_no_data_race [OF both_busy_reachable power_of_two_2, of 8 1 0] by (simp add: both_busy_def)

theorem spsc_wait_free_witness:
  "\<exists>s'. spsc_step both_busy s' \<and> producer_rank (producer s') < producer_rank (producer both_busy)"
  using spsc_wait_free [of both_busy] by (simp add: both_busy_def)

end
