(* ===== verification/Mpmc_Queue.thy ===== *)
theory Mpmc_Queue
  imports Bounded_Queue
begin

text \<open>
  The bounded queue for several producers and several consumers: a deque under a mutex with two
  condition variables. First the bodies of the operations, each one critical section; then any number
  of threads running them, with sleeping, waking (also spuriously) and the notifications that are sent
  after the mutex is released as steps of their own.
\<close>

section \<open>The operations\<close>

record 'a MPMCQueue =
  buffer :: "'a list"
  mq_capacity :: u64
  high_watermark :: u64
  mq_closed :: bool

definition mpmc_make :: "u64 \<Rightarrow> string + 'a MPMCQueue" where
  "mpmc_make n =
     (if n = 0 then Inl ''MPMCQueue capacity must be greater than zero''
      else Inr \<lparr>buffer = [], mq_capacity = n, high_watermark = 0, mq_closed = False\<rparr>)"

definition mpmc_size :: "'a MPMCQueue \<Rightarrow> u64" where
  "mpmc_size q = of_nat (length (buffer q))"

text \<open>Storing an item, as both ways to push do.\<close>

definition mpmc_store :: "'a MPMCQueue \<Rightarrow> 'a \<Rightarrow> 'a MPMCQueue" where
  "mpmc_store q x =
     (let b = buffer q @ [x] in q\<lparr>buffer := b, high_watermark := max (high_watermark q) (of_nat (length b))\<rparr>)"

text \<open>A blocking operation is \<open>None\<close> while its wait condition is false.\<close>

definition mpmc_push :: "'a MPMCQueue \<Rightarrow> 'a \<Rightarrow> (bool \<times> 'a MPMCQueue) option" where
  "mpmc_push q x =
     (if mq_closed q \<or> mpmc_size q < mq_capacity q then
        Some (if mq_closed q then (False, q) else (True, mpmc_store q x))
      else None)"

definition mpmc_try_push :: "'a MPMCQueue \<Rightarrow> 'a \<Rightarrow> 'a MPMCQueue option" where
  "mpmc_try_push q x = (if mq_closed q \<or> mq_capacity q \<le> mpmc_size q then None else Some (mpmc_store q x))"

definition mpmc_pop :: "'a MPMCQueue \<Rightarrow> ('a option \<times> 'a MPMCQueue) option" where
  "mpmc_pop q =
     (if mq_closed q \<or> buffer q \<noteq> [] then
        Some (if buffer q = [] then (None, q) else (Some (hd (buffer q)), q\<lparr>buffer := tl (buffer q)\<rparr>))
      else None)"

definition mpmc_try_pop :: "'a MPMCQueue \<Rightarrow> ('a \<times> 'a MPMCQueue) option" where
  "mpmc_try_pop q = (if buffer q = [] then None else Some (hd (buffer q), q\<lparr>buffer := tl (buffer q)\<rparr>))"

definition mpmc_close :: "'a MPMCQueue \<Rightarrow> 'a MPMCQueue" where
  "mpmc_close q = q\<lparr>mq_closed := True\<rparr>"

definition mpmc_ok :: "'a MPMCQueue \<Rightarrow> bool" where
  "mpmc_ok q \<longleftrightarrow> 0 < mq_capacity q \<and> length (buffer q) \<le> unat (high_watermark q) \<and> high_watermark q \<le> mq_capacity q"

lemma mpmc_ok_make: "mpmc_make n = Inr q \<Longrightarrow> mpmc_ok q \<and> buffer q = [] \<and> \<not> mq_closed q"
  by (auto simp: mpmc_make_def mpmc_ok_def word_gt_0 split: if_splits)

lemma mpmc_ok_bound: "mpmc_ok q \<Longrightarrow> length (buffer q) \<le> unat (mq_capacity q)"
  by (auto simp: mpmc_ok_def word_le_nat_alt)

lemma unat_of_nat_le: "n \<le> unat (w :: u64) \<Longrightarrow> unat (of_nat n :: u64) = n"
  using le_less_trans [OF _ unat_u64_less [of w]] by (simp add: unsigned_of_nat take_bit_nat_eq_self)

lemma unat_mpmc_size: "mpmc_ok q \<Longrightarrow> unat (mpmc_size q) = length (buffer q)"
  using unat_of_nat_le [OF mpmc_ok_bound [of q]] by (simp add: mpmc_size_def)

lemma mpmc_room: "mpmc_ok q \<Longrightarrow> mpmc_size q < mq_capacity q \<longleftrightarrow> length (buffer q) < unat (mq_capacity q)"
  by (simp add: word_less_nat_alt unat_mpmc_size)

lemma unat_max_word: "unat (max a b) = max (unat a) (unat (b :: 'a :: len word))"
  by (auto simp: max_def word_le_nat_alt)

lemma mpmc_store_buffer [simp]:
  "buffer (mpmc_store q x) = buffer q @ [x]" "mq_capacity (mpmc_store q x) = mq_capacity q"
  "mq_closed (mpmc_store q x) = mq_closed q"
  by (simp_all add: mpmc_store_def Let_def)

lemma mpmc_store_ok:
  assumes "mpmc_ok q" and "mpmc_size q < mq_capacity q"
  shows "mpmc_ok (mpmc_store q x)"
proof -
  have l: "Suc (length (buffer q)) \<le> unat (mq_capacity q)" using assms mpmc_room by fastforce
  then have "unat (of_nat (Suc (length (buffer q))) :: u64) = Suc (length (buffer q))"
    by (rule unat_of_nat_le)
  with assms(1) l show ?thesis
    by (simp add: mpmc_ok_def mpmc_store_def Let_def unat_max_word word_le_nat_alt del: of_nat_Suc)
qed

lemma mpmc_take_ok: "mpmc_ok q \<Longrightarrow> mpmc_ok (q\<lparr>buffer := tl (buffer q)\<rparr>)"
  by (auto simp: mpmc_ok_def)

lemma mpmc_close_ok: "mpmc_ok q \<Longrightarrow> mpmc_ok (mpmc_close q)"
  by (simp add: mpmc_ok_def mpmc_close_def)

text \<open>While it is open, the queue is a bounded queue.\<close>

interpretation mpmc: bounded_queue mpmc_try_push mpmc_try_pop buffer "\<lambda>q. mpmc_ok q \<and> \<not> mq_closed q"
  "\<lambda>q. unat (mq_capacity q)"
proof
  fix q :: "'a MPMCQueue" and x q'
  assume ok: "mpmc_ok q \<and> \<not> mq_closed q"
  then show "length (buffer q) \<le> unat (mq_capacity q)" using mpmc_ok_bound by blast
  with ok show "mpmc_try_push q x = None \<longleftrightarrow> length (buffer q) = unat (mq_capacity q)"
    using mpmc_room [of q] by (auto simp: mpmc_try_push_def)
  show "mpmc_try_push q x = Some q' \<Longrightarrow>
      (mpmc_ok q' \<and> \<not> mq_closed q') \<and> buffer q' = buffer q @ [x] \<and> unat (mq_capacity q') = unat (mq_capacity q)"
    using ok mpmc_store_ok [of q x] by (auto simp: mpmc_try_push_def not_le split: if_splits)
  show "mpmc_try_pop q = None \<longleftrightarrow> buffer q = []" by (simp add: mpmc_try_pop_def)
  show "mpmc_try_pop q = Some (x, q') \<Longrightarrow>
      (mpmc_ok q' \<and> \<not> mq_closed q') \<and> buffer q = x # buffer q' \<and> unat (mq_capacity q') = unat (mq_capacity q)"
    using ok mpmc_take_ok [of q] by (auto simp: mpmc_try_pop_def split: if_splits)
qed

section \<open>Threads\<close>

text \<open>
  Where a thread is: outside the queue; at the mutex of an operation (on entry, or woken up inside the
  wait); asleep on a condition variable; or past its critical section with a notification to send.
\<close>

datatype 'a thread =
    Outside
  | Push_Enter 'a | Push_Asleep 'a | Try_Push 'a
  | Pop_Enter | Pop_Asleep | Try_Pop
  | Notify_Not_Empty | Notify_Not_Full
  | Close_Enter | Close_Not_Empty | Close_Not_Full

definition push_enter :: "'a thread \<Rightarrow> bool" where "push_enter t = (case t of Push_Enter x \<Rightarrow> True | _ \<Rightarrow> False)"
definition pop_asleep :: "'a thread \<Rightarrow> bool" where "pop_asleep t = (case t of Pop_Asleep \<Rightarrow> True | _ \<Rightarrow> False)"
definition push_asleep :: "'a thread \<Rightarrow> bool" where "push_asleep t = (case t of Push_Asleep x \<Rightarrow> True | _ \<Rightarrow> False)"

text \<open>Waking all sleepers of a condition variable sends them back to the mutex.\<close>

definition wake_pop :: "'a thread \<Rightarrow> 'a thread" where
  "wake_pop t = (case t of Pop_Asleep \<Rightarrow> Pop_Enter | _ \<Rightarrow> t)"

definition wake_push :: "'a thread \<Rightarrow> 'a thread" where
  "wake_push t = (case t of Push_Asleep x \<Rightarrow> Push_Enter x | _ \<Rightarrow> t)"

record 'a mpmc_system =
  queue :: "'a MPMCQueue"
  threads :: "'a thread list"
  items_in :: "'a list"
  items_out :: "'a list"
  pop_refused :: bool

definition at :: "'a mpmc_system \<Rightarrow> nat \<Rightarrow> 'a thread \<Rightarrow> bool" where
  "at s i t \<longleftrightarrow> i < length (threads s) \<and> threads s ! i = t"

definition go :: "'a mpmc_system \<Rightarrow> nat \<Rightarrow> 'a thread \<Rightarrow> 'a mpmc_system" where
  "go s i t = s\<lparr>threads := (threads s)[i := t]\<rparr>"

inductive mpmc_step :: "'a mpmc_system \<Rightarrow> 'a mpmc_system \<Rightarrow> bool" where
  call: "at s i Outside \<Longrightarrow> t \<in> {Push_Enter x, Try_Push x, Pop_Enter, Try_Pop, Close_Enter} \<Longrightarrow>
    mpmc_step s (go s i t)"
| push_sleep: "at s i (Push_Enter x) \<Longrightarrow> mpmc_push (queue s) x = None \<Longrightarrow>
    mpmc_step s (go s i (Push_Asleep x))"
| push_closed: "at s i (Push_Enter x) \<Longrightarrow> mpmc_push (queue s) x = Some (False, q') \<Longrightarrow>
    mpmc_step s ((go s i Outside)\<lparr>queue := q'\<rparr>)"
| push_done: "at s i (Push_Enter x) \<Longrightarrow> mpmc_push (queue s) x = Some (True, q') \<Longrightarrow>
    mpmc_step s ((go s i Notify_Not_Empty)\<lparr>queue := q', items_in := items_in s @ [x]\<rparr>)"
| try_push_no: "at s i (Try_Push x) \<Longrightarrow> mpmc_try_push (queue s) x = None \<Longrightarrow>
    mpmc_step s (go s i Outside)"
| try_push_done: "at s i (Try_Push x) \<Longrightarrow> mpmc_try_push (queue s) x = Some q' \<Longrightarrow>
    mpmc_step s ((go s i Notify_Not_Empty)\<lparr>queue := q', items_in := items_in s @ [x]\<rparr>)"
| pop_sleep: "at s i Pop_Enter \<Longrightarrow> mpmc_pop (queue s) = None \<Longrightarrow>
    mpmc_step s (go s i Pop_Asleep)"
| pop_drained: "at s i Pop_Enter \<Longrightarrow> mpmc_pop (queue s) = Some (None, q') \<Longrightarrow>
    mpmc_step s ((go s i Outside)\<lparr>queue := q', pop_refused := True\<rparr>)"
| pop_done: "at s i Pop_Enter \<Longrightarrow> mpmc_pop (queue s) = Some (Some x, q') \<Longrightarrow>
    mpmc_step s ((go s i Notify_Not_Full)\<lparr>queue := q', items_out := items_out s @ [x]\<rparr>)"
| try_pop_no: "at s i Try_Pop \<Longrightarrow> mpmc_try_pop (queue s) = None \<Longrightarrow>
    mpmc_step s (go s i Outside)"
| try_pop_done: "at s i Try_Pop \<Longrightarrow> mpmc_try_pop (queue s) = Some (x, q') \<Longrightarrow>
    mpmc_step s ((go s i Notify_Not_Full)\<lparr>queue := q', items_out := items_out s @ [x]\<rparr>)"
| notify_not_empty: "at s i Notify_Not_Empty \<Longrightarrow> at s j Pop_Asleep \<Longrightarrow>
    mpmc_step s (go (go s i Outside) j Pop_Enter)"
| notify_not_empty_none: "at s i Notify_Not_Empty \<Longrightarrow> \<not> list_ex pop_asleep (threads s) \<Longrightarrow>
    mpmc_step s (go s i Outside)"
| notify_not_full: "at s i Notify_Not_Full \<Longrightarrow> at s j (Push_Asleep x) \<Longrightarrow>
    mpmc_step s (go (go s i Outside) j (Push_Enter x))"
| notify_not_full_none: "at s i Notify_Not_Full \<Longrightarrow> \<not> list_ex push_asleep (threads s) \<Longrightarrow>
    mpmc_step s (go s i Outside)"
| close: "at s i Close_Enter \<Longrightarrow>
    mpmc_step s ((go s i Close_Not_Empty)\<lparr>queue := mpmc_close (queue s)\<rparr>)"
| close_not_empty: "at s i Close_Not_Empty \<Longrightarrow>
    mpmc_step s (s\<lparr>threads := (map wake_pop (threads s))[i := Close_Not_Full]\<rparr>)"
| close_not_full: "at s i Close_Not_Full \<Longrightarrow>
    mpmc_step s (s\<lparr>threads := (map wake_push (threads s))[i := Outside]\<rparr>)"
| spurious_pop: "at s i Pop_Asleep \<Longrightarrow> mpmc_step s (go s i Pop_Enter)"
| spurious_push: "at s i (Push_Asleep x) \<Longrightarrow> mpmc_step s (go s i (Push_Enter x))"

definition mpmc_start :: "u64 \<Rightarrow> nat \<Rightarrow> 'a mpmc_system" where
  "mpmc_start n k = \<lparr>queue = projr (mpmc_make n), threads = replicate k Outside, items_in = [], items_out = [],
     pop_refused = False\<rparr>"

section \<open>No wakeup is lost\<close>

definition tcount :: "('a thread \<Rightarrow> bool) \<Rightarrow> 'a mpmc_system \<Rightarrow> nat" where
  "tcount P s = length (filter P (threads s))"

text \<open>
  A consumer sleeps only while the items present are matched by consumers on their way to them or
  notifications on their way to a sleeper, and dually for producers and free places; after closing,
  only while the notification to everyone is still to come.
\<close>

definition covered :: "bool \<Rightarrow> nat \<Rightarrow> nat \<Rightarrow> nat \<Rightarrow> nat \<Rightarrow> bool" where
  "covered closed asleep closing work coming \<longleftrightarrow>
     asleep = 0 \<or> (if closed then 0 < closing else work \<le> coming)"

definition pop_side :: "'a mpmc_system \<Rightarrow> bool" where
  "pop_side s = covered (mq_closed (queue s)) (tcount pop_asleep s) (tcount ((=) Close_Not_Empty) s)
     (length (buffer (queue s))) (tcount ((=) Pop_Enter) s + tcount ((=) Notify_Not_Empty) s)"

definition push_side :: "'a mpmc_system \<Rightarrow> bool" where
  "push_side s = covered (mq_closed (queue s)) (tcount push_asleep s)
     (tcount ((=) Close_Not_Empty) s + tcount ((=) Close_Not_Full) s)
     (unat (mq_capacity (queue s)) - length (buffer (queue s)))
     (tcount push_enter s + tcount ((=) Notify_Not_Full) s)"

definition queue_side :: "'a mpmc_system \<Rightarrow> bool" where
  "queue_side s \<longleftrightarrow> mpmc_ok (queue s) \<and> items_in s = items_out s @ buffer (queue s) \<and>
     (pop_refused s \<longrightarrow> mq_closed (queue s) \<and> buffer (queue s) = [])"

lemma covered_mono:
  "covered c a p w k \<Longrightarrow> a' \<le> a \<Longrightarrow> p \<le> p' \<Longrightarrow> w' + k \<le> w + k' \<Longrightarrow> covered c a' p' w' k'"
  by (auto simp: covered_def)

lemma covered_none [simp]: "covered c 0 p w k" "covered False a p 0 k" "0 < p \<Longrightarrow> covered True a p w k"
  by (simp_all add: covered_def)

lemma filter_update_count:
  "i < length xs \<Longrightarrow>
    length (filter P (xs[i := y])) + (if P (xs ! i) then 1 else 0) = length (filter P xs) + (if P y then 1 else 0)"
proof (induction xs arbitrary: i)
  case (Cons x xs)
  then show ?case by (cases i) (force+)
qed simp

lemma tcount_go:
  "at s i u \<Longrightarrow> tcount P (go s i t) + (if P u then 1 else 0) = tcount P s + (if P t then 1 else 0)"
  using filter_update_count [of i "threads s" P t] by (auto simp: tcount_def at_def go_def)

lemma tcount_queue [simp]:
  "tcount P (s\<lparr>queue := q\<rparr>) = tcount P s" "tcount P (s\<lparr>items_in := xs\<rparr>) = tcount P s"
  "tcount P (s\<lparr>items_out := xs\<rparr>) = tcount P s" "tcount P (s\<lparr>pop_refused := b\<rparr>) = tcount P s"
  by (simp_all add: tcount_def)

lemma go_fields [simp]:
  "queue (go s i t) = queue s" "items_in (go s i t) = items_in s" "items_out (go s i t) = items_out s"
  "pop_refused (go s i t) = pop_refused s"
  by (simp_all add: go_def)

lemmas thread_kinds = push_enter_def pop_asleep_def push_asleep_def

lemma counts_go:
  assumes "at s i u"
  shows "tcount pop_asleep (go s i t) + (if pop_asleep u then 1 else 0) = tcount pop_asleep s + (if pop_asleep t then 1 else 0)"
    and "tcount push_asleep (go s i t) + (if push_asleep u then 1 else 0) = tcount push_asleep s + (if push_asleep t then 1 else 0)"
    and "tcount push_enter (go s i t) + (if push_enter u then 1 else 0) = tcount push_enter s + (if push_enter t then 1 else 0)"
    and "tcount ((=) Pop_Enter) (go s i t) + (if u = Pop_Enter then 1 else 0) =
      tcount ((=) Pop_Enter) s + (if t = Pop_Enter then 1 else 0)"
    and "tcount ((=) Notify_Not_Empty) (go s i t) + (if u = Notify_Not_Empty then 1 else 0) =
      tcount ((=) Notify_Not_Empty) s + (if t = Notify_Not_Empty then 1 else 0)"
    and "tcount ((=) Notify_Not_Full) (go s i t) + (if u = Notify_Not_Full then 1 else 0) =
      tcount ((=) Notify_Not_Full) s + (if t = Notify_Not_Full then 1 else 0)"
    and "tcount ((=) Close_Not_Empty) (go s i t) + (if u = Close_Not_Empty then 1 else 0) =
      tcount ((=) Close_Not_Empty) s + (if t = Close_Not_Empty then 1 else 0)"
    and "tcount ((=) Close_Not_Full) (go s i t) + (if u = Close_Not_Full then 1 else 0) =
      tcount ((=) Close_Not_Full) s + (if t = Close_Not_Full then 1 else 0)"
  using tcount_go [OF assms, of _ t] by (simp_all add: eq_commute)

lemma tcount_wake_pop:
  "(\<And>t. P (wake_pop t) = P t) \<Longrightarrow> length (filter P (map wake_pop ts)) = length (filter P ts)"
  "filter pop_asleep (map wake_pop ts) = []"
  by (induction ts) (simp_all add: wake_pop_def pop_asleep_def split: thread.splits)

lemma tcount_wake_push:
  "(\<And>t. P (wake_push t) = P t) \<Longrightarrow> length (filter P (map wake_push ts)) = length (filter P ts)"
  "filter push_asleep (map wake_push ts) = []"
  by (induction ts) (simp_all add: wake_push_def push_asleep_def split: thread.splits)

lemma queue_side_step:
  assumes "mpmc_step s s'" and "queue_side s"
  shows "queue_side s'"
  using assms
proof (induction rule: mpmc_step.induct)
  case (push_done s i x q')
  then show ?case using mpmc_store_ok [of "queue s" x]
    by (auto simp: queue_side_def mpmc_push_def split: if_splits)
next
  case (try_push_done s i x q')
  then show ?case using mpmc_store_ok [of "queue s" x]
    by (auto simp: queue_side_def mpmc_try_push_def not_le split: if_splits)
next
  case (pop_done s i x q')
  then show ?case using mpmc_take_ok [of "queue s"]
    by (auto simp: queue_side_def mpmc_pop_def split: if_splits)
next
  case (try_pop_done s i x q')
  then show ?case using mpmc_take_ok [of "queue s"]
    by (auto simp: queue_side_def mpmc_try_pop_def split: if_splits)
qed (auto simp: queue_side_def mpmc_push_def mpmc_pop_def mpmc_close_ok, simp_all add: mpmc_close_def split: if_splits)

lemma sides_ghost [simp]:
  "pop_side (s\<lparr>items_in := xs\<rparr>) = pop_side s" "pop_side (s\<lparr>items_out := xs\<rparr>) = pop_side s"
  "pop_side (s\<lparr>pop_refused := b\<rparr>) = pop_side s"
  "push_side (s\<lparr>items_in := xs\<rparr>) = push_side s" "push_side (s\<lparr>items_out := xs\<rparr>) = push_side s"
  "push_side (s\<lparr>pop_refused := b\<rparr>) = push_side s"
  by (simp_all add: pop_side_def push_side_def)

text \<open>A thread moves on, the flag of the queue unchanged.\<close>

lemma pop_side_queue:
  assumes "pop_side s" and "at s i u"
    and "\<not> pop_asleep t" and "u \<noteq> Close_Not_Empty" and "mq_closed q' = mq_closed (queue s)"
    and "length (buffer q') + (if u = Pop_Enter \<or> u = Notify_Not_Empty then 1 else 0) \<le>
      length (buffer (queue s)) + (if t = Pop_Enter \<or> t = Notify_Not_Empty then 1 else 0)"
  shows "pop_side ((go s i t)\<lparr>queue := q'\<rparr>)"
proof -
  have "covered (mq_closed (queue s)) (tcount pop_asleep (go s i t)) (tcount ((=) Close_Not_Empty) (go s i t))
      (length (buffer q')) (tcount ((=) Pop_Enter) (go s i t) + tcount ((=) Notify_Not_Empty) (go s i t))"
    by (rule covered_mono [OF assms(1) [unfolded pop_side_def]])
      (use counts_go [OF assms(2), of t] assms(3-6) in \<open>simp_all split: if_splits\<close>)
  with assms(5) show ?thesis by (simp add: pop_side_def)
qed

lemma push_side_queue:
  assumes "push_side s" and "at s i u"
    and "\<not> push_asleep t" and "u = Close_Not_Empty \<longrightarrow> t = Close_Not_Full" and "u \<noteq> Close_Not_Full"
    and "mq_closed q' = mq_closed (queue s)"
    and "unat (mq_capacity q') - length (buffer q') + (if push_enter u \<or> u = Notify_Not_Full then 1 else 0) \<le>
      unat (mq_capacity (queue s)) - length (buffer (queue s)) + (if push_enter t \<or> t = Notify_Not_Full then 1 else 0)"
  shows "push_side ((go s i t)\<lparr>queue := q'\<rparr>)"
proof -
  have n: "\<not> push_enter Notify_Not_Full" by (auto simp: push_enter_def)
  note c = counts_go [OF assms(2), of t]
  have "covered (mq_closed (queue s)) (tcount push_asleep (go s i t))
      (tcount ((=) Close_Not_Empty) (go s i t) + tcount ((=) Close_Not_Full) (go s i t))
      (unat (mq_capacity q') - length (buffer q'))
      (tcount push_enter (go s i t) + tcount ((=) Notify_Not_Full) (go s i t))"
  proof (rule covered_mono [OF assms(1) [unfolded push_side_def]])
    show "tcount push_asleep (go s i t) \<le> tcount push_asleep s" using c(2) assms(3) by simp
    show "tcount ((=) Close_Not_Empty) s + tcount ((=) Close_Not_Full) s \<le>
        tcount ((=) Close_Not_Empty) (go s i t) + tcount ((=) Close_Not_Full) (go s i t)"
      using c(7,8) assms(4,5) by (cases "u = Close_Not_Empty") simp_all
    show "unat (mq_capacity q') - length (buffer q') + (tcount push_enter s + tcount ((=) Notify_Not_Full) s) \<le>
        unat (mq_capacity (queue s)) - length (buffer (queue s)) +
        (tcount push_enter (go s i t) + tcount ((=) Notify_Not_Full) (go s i t))"
      using c(3,6) assms(7) n by (cases "push_enter u"; cases "push_enter t") (auto split: if_splits)
  qed
  with assms(6) show ?thesis by (simp add: push_side_def)
qed

lemma go_queue: "(go s i t)\<lparr>queue := queue s\<rparr> = go s i t"
  by (cases s) (simp add: go_def)

lemma pop_side_go:
  assumes "pop_side s" and "at s i u" and "\<not> pop_asleep t" and "u \<noteq> Close_Not_Empty"
    and "u = Pop_Enter \<or> u = Notify_Not_Empty \<Longrightarrow> t = Pop_Enter \<or> t = Notify_Not_Empty"
  shows "pop_side (go s i t)"
  using pop_side_queue [OF assms(1-4), of "queue s"] assms(5) by (auto simp: go_queue)

lemma push_side_go:
  assumes "push_side s" and "at s i u" and "\<not> push_asleep t" and "u = Close_Not_Empty \<longrightarrow> t = Close_Not_Full"
    and "u \<noteq> Close_Not_Full"
    and "push_enter u \<or> u = Notify_Not_Full \<Longrightarrow> push_enter t \<or> t = Notify_Not_Full"
  shows "push_side (go s i t)"
  using push_side_queue [OF assms(1-5), of "queue s"] assms(6) by (auto simp: go_queue)

lemma at_go: "at s i u \<Longrightarrow> at s j v \<Longrightarrow> u \<noteq> v \<Longrightarrow> at (go s i t) j v"
  by (auto simp: at_def go_def nth_list_update)

text \<open>Waking everyone leaves the other kinds of threads as they are.\<close>

lemma wake_pop_counts:
  assumes "at s i u" and "\<not> pop_asleep u"
  shows "at (s\<lparr>threads := map wake_pop (threads s)\<rparr>) i u"
    and "tcount pop_asleep (s\<lparr>threads := map wake_pop (threads s)\<rparr>) = 0"
    and "(\<And>t. P (wake_pop t) = P t) \<Longrightarrow> tcount P (s\<lparr>threads := map wake_pop (threads s)\<rparr>) = tcount P s"
  using assms tcount_wake_pop(1) [of P "threads s"] tcount_wake_pop(2) [of "threads s"]
  by (auto simp: at_def tcount_def wake_pop_def pop_asleep_def simp del: filter_map split: thread.splits)

lemma wake_push_counts:
  assumes "at s i u" and "\<not> push_asleep u"
  shows "at (s\<lparr>threads := map wake_push (threads s)\<rparr>) i u"
    and "tcount push_asleep (s\<lparr>threads := map wake_push (threads s)\<rparr>) = 0"
    and "(\<And>t. P (wake_push t) = P t) \<Longrightarrow> tcount P (s\<lparr>threads := map wake_push (threads s)\<rparr>) = tcount P s"
  using assms tcount_wake_push(1) [of P "threads s"] tcount_wake_push(2) [of "threads s"]
  by (auto simp: at_def tcount_def wake_push_def push_asleep_def simp del: filter_map split: thread.splits)

lemma pop_side_step:
  assumes "mpmc_step s s'" and "pop_side s"
  shows "pop_side s'"
  using assms
proof (induction rule: mpmc_step.induct)
  case (pop_sleep s i)
  then have "\<not> mq_closed (queue s)" "buffer (queue s) = []" by (auto simp: mpmc_pop_def split: if_splits)
  then show ?case by (simp add: pop_side_def)
next
  case (pop_drained s i q')
  then have "mq_closed (queue s)" "q' = queue s" by (auto simp: mpmc_pop_def split: if_splits)
  with pop_drained(3) counts_go [OF pop_drained(1), of Outside] show ?case
    by (auto simp: pop_side_def covered_def pop_asleep_def)
next
  case (notify_not_empty s i j)
  from at_go [OF this(1,2), of Outside] have j: "at (go s i Outside) j Pop_Asleep" by simp
  have "covered (mq_closed (queue s)) (tcount pop_asleep (go (go s i Outside) j Pop_Enter))
      (tcount ((=) Close_Not_Empty) (go (go s i Outside) j Pop_Enter)) (length (buffer (queue s)))
      (tcount ((=) Pop_Enter) (go (go s i Outside) j Pop_Enter) +
       tcount ((=) Notify_Not_Empty) (go (go s i Outside) j Pop_Enter))"
    by (rule covered_mono [OF notify_not_empty(3) [unfolded pop_side_def]])
      (use counts_go [OF notify_not_empty(1), of Outside] counts_go [OF j, of Pop_Enter] in
        \<open>simp_all add: pop_asleep_def\<close>)
  then show ?case by (simp add: pop_side_def)
next
  case (notify_not_empty_none s i)
  then have "tcount pop_asleep s = 0" by (simp add: tcount_def list_ex_iff)
  then show ?case using counts_go [OF notify_not_empty_none(1), of Outside] by (simp add: pop_side_def pop_asleep_def)
next
  case (notify_not_full s i j x)
  have i: "pop_side (go s i Outside)" by (rule pop_side_go [OF notify_not_full(3,1)]) (simp_all add: pop_asleep_def)
  from at_go [OF notify_not_full(1,2), of Outside] have j: "at (go s i Outside) j (Push_Asleep x)" by simp
  show ?case by (rule pop_side_go [OF i j]) (simp_all add: pop_asleep_def)
next
  case (close s i)
  then show ?case using counts_go [OF close(1), of Close_Not_Empty] by (simp add: pop_side_def mpmc_close_def)
next
  case (close_not_empty s i)
  note w = wake_pop_counts [OF this(1)]
  from counts_go(1) [OF w(1), of Close_Not_Full] w(2)
  have "tcount pop_asleep (go (s\<lparr>threads := map wake_pop (threads s)\<rparr>) i Close_Not_Full) = 0"
    by (simp add: pop_asleep_def)
  then show ?case by (simp add: pop_side_def go_def)
next
  case (close_not_full s i)
  note w = wake_push_counts [OF this(1)]
  have w': "pop_side (s\<lparr>threads := map wake_push (threads s)\<rparr>)"
    using close_not_full(2) w(3) [of pop_asleep] w(3) [of "(=) Close_Not_Empty"] w(3) [of "(=) Pop_Enter"]
      w(3) [of "(=) Notify_Not_Empty"]
    by (simp add: pop_side_def push_asleep_def pop_asleep_def wake_push_def split: thread.splits)
  have "pop_side (go (s\<lparr>threads := map wake_push (threads s)\<rparr>) i Outside)"
    by (rule pop_side_go [OF w' w(1)]) (simp_all add: push_asleep_def pop_asleep_def)
  then show ?case by (simp add: go_def)
next
  case (pop_done s i x q')
  then show ?case
    by (auto intro!: pop_side_queue simp: pop_asleep_def mpmc_pop_def neq_Nil_conv split: if_splits)
next
  case (try_pop_done s i x q')
  then show ?case
    by (auto intro!: pop_side_queue simp: pop_asleep_def mpmc_try_pop_def neq_Nil_conv split: if_splits)
next
  case (push_done s i x q')
  then show ?case
    by (auto intro!: pop_side_queue simp: pop_asleep_def mpmc_push_def split: if_splits)
next
  case (try_push_done s i x q')
  then show ?case
    by (auto intro!: pop_side_queue simp: pop_asleep_def mpmc_try_push_def split: if_splits)
next
  case (push_closed s i x q')
  then show ?case
    by (auto intro!: pop_side_queue simp: pop_asleep_def mpmc_push_def split: if_splits)
qed (auto intro: pop_side_go simp: pop_asleep_def)

lemma push_side_step:
  assumes "mpmc_step s s'" and "push_side s" and "mpmc_ok (queue s)"
  shows "push_side s'"
  using assms
proof (induction rule: mpmc_step.induct)
  case (push_sleep s i x)
  then have "\<not> mq_closed (queue s)" "unat (mq_capacity (queue s)) - length (buffer (queue s)) = 0"
    using mpmc_room [of "queue s"] by (auto simp: mpmc_push_def split: if_splits)
  then show ?case by (simp add: push_side_def)
next
  case (push_closed s i x q')
  then have "mq_closed (queue s)" "q' = queue s" by (auto simp: mpmc_push_def split: if_splits)
  with push_closed(3) counts_go [OF push_closed(1), of Outside] show ?case
    by (auto simp: push_side_def covered_def push_asleep_def)
next
  case (notify_not_full s i j x)
  from at_go [OF this(1,2), of Outside] have j: "at (go s i Outside) j (Push_Asleep x)" by simp
  let ?s = "go (go s i Outside) j (Push_Enter x)"
  have "covered (mq_closed (queue s)) (tcount push_asleep ?s)
      (tcount ((=) Close_Not_Empty) ?s + tcount ((=) Close_Not_Full) ?s)
      (unat (mq_capacity (queue s)) - length (buffer (queue s)))
      (tcount push_enter ?s + tcount ((=) Notify_Not_Full) ?s)"
    by (rule covered_mono [OF notify_not_full(3) [unfolded push_side_def]])
      (use counts_go [OF notify_not_full(1), of Outside] counts_go [OF j, of "Push_Enter x"] in
        \<open>simp_all add: thread_kinds\<close>)
  then show ?case by (simp add: push_side_def)
next
  case (notify_not_full_none s i)
  then have "tcount push_asleep s = 0" by (simp add: tcount_def list_ex_iff)
  then show ?case using counts_go [OF notify_not_full_none(1), of Outside] by (simp add: push_side_def push_asleep_def)
next
  case (notify_not_empty s i j)
  have i: "push_side (go s i Outside)"
    by (rule push_side_go [OF notify_not_empty(3,1)]) (simp_all add: thread_kinds)
  from at_go [OF notify_not_empty(1,2), of Outside] have j: "at (go s i Outside) j Pop_Asleep" by simp
  show ?case by (rule push_side_go [OF i j]) (simp_all add: thread_kinds)
next
  case (close s i)
  then show ?case using counts_go [OF close(1), of Close_Not_Empty] by (simp add: push_side_def mpmc_close_def)
next
  case (close_not_full s i)
  note w = wake_push_counts [OF this(1)]
  from counts_go(2) [OF w(1), of Outside] w(2)
  have "tcount push_asleep (go (s\<lparr>threads := map wake_push (threads s)\<rparr>) i Outside) = 0"
    by (simp add: push_asleep_def)
  then show ?case by (simp add: push_side_def go_def)
next
  case (close_not_empty s i)
  note w = wake_pop_counts [OF this(1)]
  have w': "push_side (s\<lparr>threads := map wake_pop (threads s)\<rparr>)"
    using close_not_empty(2) w(3) [of push_asleep] w(3) [of "(=) Close_Not_Empty"] w(3) [of "(=) Close_Not_Full"]
      w(3) [of push_enter] w(3) [of "(=) Notify_Not_Full"]
    by (simp add: push_side_def thread_kinds wake_pop_def split: thread.splits)
  have "push_side (go (s\<lparr>threads := map wake_pop (threads s)\<rparr>) i Close_Not_Full)"
    by (rule push_side_go [OF w' w(1)]) (simp_all add: thread_kinds)
  then show ?case by (simp add: go_def)
next
  case (pop_done s i x q')
  then show ?case
    by (auto intro!: push_side_queue simp: thread_kinds mpmc_pop_def neq_Nil_conv split: if_splits)
next
  case (try_pop_done s i x q')
  then show ?case
    by (auto intro!: push_side_queue simp: thread_kinds mpmc_try_pop_def neq_Nil_conv split: if_splits)
next
  case (push_done s i x q')
  then show ?case using mpmc_room [of "queue s"]
    by (auto intro!: push_side_queue simp: thread_kinds mpmc_push_def split: if_splits)
next
  case (try_push_done s i x q')
  then show ?case
    by (auto intro!: push_side_queue simp: thread_kinds mpmc_try_push_def split: if_splits)
next
  case (pop_drained s i q')
  then show ?case
    by (auto intro!: push_side_queue simp: thread_kinds mpmc_pop_def split: if_splits)
qed (auto intro: push_side_go simp: thread_kinds)

definition mpmc_inv :: "'a mpmc_system \<Rightarrow> bool" where
  "mpmc_inv s \<longleftrightarrow> queue_side s \<and> pop_side s \<and> push_side s"

lemma mpmc_reachable_inv:
  assumes "mpmc_step\<^sup>*\<^sup>* (mpmc_start n k) s" and "0 < n"
  shows "mpmc_inv s"
  using assms(1)
proof (induction rule: rtranclp_induct)
  case base
  have "mpmc_make n = Inr (projr (mpmc_make n :: string + 'a MPMCQueue))" using assms(2) by (simp add: mpmc_make_def)
  from mpmc_ok_make [OF this] show ?case
    by (simp add: mpmc_inv_def queue_side_def pop_side_def push_side_def mpmc_start_def tcount_def thread_kinds)
next
  case (step s s')
  then show ?case using queue_side_step pop_side_step push_side_step by (fastforce simp: mpmc_inv_def queue_side_def)
qed

text \<open>No thread has anything left to do but to sleep or to call the queue again.\<close>

definition quiet :: "'a thread \<Rightarrow> bool" where
  "quiet t \<longleftrightarrow> t = Outside \<or> pop_asleep t \<or> push_asleep t"

lemma tcount_pos: "0 < tcount P s \<longleftrightarrow> (\<exists>t \<in> set (threads s). P t)"
  by (auto simp: tcount_def filter_empty_conv)

lemma tcount_quiet:
  "\<forall>t \<in> set (threads s). quiet t \<Longrightarrow> (\<And>t. quiet t \<Longrightarrow> \<not> P t) \<Longrightarrow> tcount P s = 0"
  by (simp add: tcount_def filter_empty_conv)

lemma quiet_counts:
  assumes "\<forall>t \<in> set (threads s). quiet t"
  shows "tcount push_enter s = 0" "tcount ((=) Pop_Enter) s = 0" "tcount ((=) Notify_Not_Empty) s = 0"
    "tcount ((=) Notify_Not_Full) s = 0" "tcount ((=) Close_Not_Empty) s = 0" "tcount ((=) Close_Not_Full) s = 0"
  by (rule tcount_quiet [OF assms], simp add: quiet_def thread_kinds split: thread.splits)+

lemma closed_stays:
  assumes "mpmc_step\<^sup>*\<^sup>* s s'" and "mq_closed (queue s)"
  shows "mq_closed (queue s') \<and> items_in s' = items_in s"
  using assms
proof (induction rule: rtranclp_induct)
  case (step s1 s2)
  then have "mq_closed (queue s1)" "items_in s1 = items_in s" by auto
  with step.hyps(2) show ?case
    by (induction rule: mpmc_step.induct)
      (auto simp: mpmc_push_def mpmc_try_push_def mpmc_pop_def mpmc_try_pop_def mpmc_close_def split: if_splits)
qed simp

text \<open>A thread inside an operation that is not asleep can always take its next step.\<close>

lemma asleep_kinds: "pop_asleep t \<longleftrightarrow> t = Pop_Asleep" "push_asleep t \<longleftrightarrow> (\<exists>x. t = Push_Asleep x)"
  by (simp_all add: thread_kinds split: thread.splits)

lemma pop_asleep_at: "list_ex pop_asleep (threads s) \<Longrightarrow> \<exists>j. at s j Pop_Asleep"
  by (auto simp: list_ex_length at_def asleep_kinds)

lemma push_asleep_at: "list_ex push_asleep (threads s) \<Longrightarrow> \<exists>j x. at s j (Push_Asleep x)"
  by (fastforce simp: list_ex_length at_def asleep_kinds)

lemma mpmc_progress:
  assumes "t \<in> set (threads s)" and "\<not> quiet t"
  shows "\<exists>s'. mpmc_step s s'"
proof -
  from assms(1) obtain i where i: "at s i t" by (auto simp: at_def in_set_conv_nth)
  show ?thesis
  proof (cases t)
    case t: (Push_Enter x)
    consider "mpmc_push (queue s) x = None" | q' where "mpmc_push (queue s) x = Some (False, q')"
      | q' where "mpmc_push (queue s) x = Some (True, q')" by (metis option.exhaust surj_pair)
    with i t show ?thesis by cases (blast intro: mpmc_step.push_sleep mpmc_step.push_closed mpmc_step.push_done)+
  next
    case t: (Try_Push x)
    with i show ?thesis
      by (cases "mpmc_try_push (queue s) x") (blast intro: mpmc_step.try_push_no mpmc_step.try_push_done)+
  next
    case t: Pop_Enter
    consider "mpmc_pop (queue s) = None" | q' where "mpmc_pop (queue s) = Some (None, q')"
      | x q' where "mpmc_pop (queue s) = Some (Some x, q')" by (metis option.exhaust surj_pair)
    with i t show ?thesis by cases (blast intro: mpmc_step.pop_sleep mpmc_step.pop_drained mpmc_step.pop_done)+
  next
    case t: Try_Pop
    consider "mpmc_try_pop (queue s) = None" | x q' where "mpmc_try_pop (queue s) = Some (x, q')"
      by (metis option.exhaust surj_pair)
    with i t show ?thesis by cases (blast intro: mpmc_step.try_pop_no mpmc_step.try_pop_done)+
  next
    case t: Notify_Not_Empty
    with i pop_asleep_at [of s] show ?thesis
      by (meson mpmc_step.notify_not_empty mpmc_step.notify_not_empty_none)
  next
    case t: Notify_Not_Full
    with i push_asleep_at [of s] show ?thesis
      by (meson mpmc_step.notify_not_full mpmc_step.notify_not_full_none)
  qed (use i assms(2) in \<open>auto simp: quiet_def thread_kinds
      intro: mpmc_step.close mpmc_step.close_not_empty mpmc_step.close_not_full\<close>)
qed

lemma capacity_stays:
  assumes "mpmc_step\<^sup>*\<^sup>* s s'"
  shows "mq_capacity (queue s') = mq_capacity (queue s)"
  using assms
proof (induction rule: rtranclp_induct)
  case (step s1 s2)
  from step.hyps(2) have "mq_capacity (queue s2) = mq_capacity (queue s1)"
    by (induction rule: mpmc_step.induct)
      (auto simp: mpmc_push_def mpmc_try_push_def mpmc_pop_def mpmc_try_pop_def mpmc_close_def split: if_splits)
  with step.IH show ?case by simp
qed simp

lemma reachable_capacity:
  assumes "mpmc_step\<^sup>*\<^sup>* (mpmc_start n k) s" and "0 < n"
  shows "mq_capacity (queue s) = n"
  using capacity_stays [OF assms(1)] assms(2) by (simp add: mpmc_start_def mpmc_make_def word_gt_0)

section \<open>Properties\<close>

text \<open>C28: with any number of threads pushing, popping and closing in any interleaving, the items popped so
  far followed by the items in the queue are the items pushed so far, in order; the queue never holds
  more than its capacity, nor more than its high-water mark says.\<close>

theorem mpmc_fifo:
  assumes "mpmc_step\<^sup>*\<^sup>* (mpmc_start n k) s" and "0 < n"
  shows "items_in s = items_out s @ buffer (queue s) \<and>
    length (buffer (queue s)) \<le> unat (high_watermark (queue s)) \<and> high_watermark (queue s) \<le> n"
  using mpmc_reachable_inv [OF assms] reachable_capacity [OF assms]
  by (auto simp: mpmc_inv_def queue_side_def mpmc_ok_def)

text \<open>C27: no wakeup is lost and the queue does not deadlock. A thread that is inside an operation and not
  asleep can step; and when no thread can do anything but sleep, a consumer is asleep only if the
  queue is open and empty, a producer only if it is open and full (so never both), and nobody sleeps
  in a closed queue.\<close>

theorem mpmc_no_lost_wakeup:
  assumes "mpmc_step\<^sup>*\<^sup>* (mpmc_start n k) s" and "0 < n"
  shows "(\<forall>t \<in> set (threads s). \<not> quiet t \<longrightarrow> (\<exists>s'. mpmc_step s s')) \<and>
    ((\<forall>t \<in> set (threads s). quiet t) \<longrightarrow>
      ((\<exists>t \<in> set (threads s). pop_asleep t) \<longrightarrow> \<not> mq_closed (queue s) \<and> buffer (queue s) = []) \<and>
      ((\<exists>t \<in> set (threads s). push_asleep t) \<longrightarrow>
         \<not> mq_closed (queue s) \<and> length (buffer (queue s)) = unat n))"
proof (intro conjI impI ballI)
  fix t assume "t \<in> set (threads s)" and "\<not> quiet t"
  then show "\<exists>s'. mpmc_step s s'" by (rule mpmc_progress)
next
  note inv = mpmc_reachable_inv [OF assms]
  note cap = reachable_capacity [OF assms]
  have bound: "length (buffer (queue s)) \<le> unat n"
    using inv mpmc_ok_bound [of "queue s"] cap by (simp add: mpmc_inv_def queue_side_def)
  assume "\<forall>t \<in> set (threads s). quiet t"
  note quiet = quiet_counts [OF this]
  show "\<not> mq_closed (queue s)" "buffer (queue s) = []" if "\<exists>t \<in> set (threads s). pop_asleep t"
    using that [folded tcount_pos] inv quiet by (auto simp: mpmc_inv_def pop_side_def covered_def split: if_splits)
  show "\<not> mq_closed (queue s)" "length (buffer (queue s)) = unat n" if "\<exists>t \<in> set (threads s). push_asleep t"
    using that [folded tcount_pos] inv quiet cap bound
    by (auto simp: mpmc_inv_def push_side_def covered_def split: if_splits)
qed

text \<open>Shutdown loses nothing. Once a blocking pop has returned false, every item ever pushed has been
  popped, and no later push succeeds.\<close>

theorem mpmc_drained:
  assumes "mpmc_step\<^sup>*\<^sup>* (mpmc_start n k) s" and "0 < n" and "pop_refused s" and "mpmc_step\<^sup>*\<^sup>* s s'"
  shows "items_out s' = items_in s \<and> items_in s' = items_in s \<and> mq_closed (queue s')"
proof -
  have s: "mq_closed (queue s)" "items_in s = items_out s"
    using mpmc_reachable_inv [OF assms(1,2)] assms(3) by (auto simp: mpmc_inv_def queue_side_def)
  have "items_out s' = items_out s \<and> buffer (queue s') = [] \<and> mq_closed (queue s')"
    using assms(4)
  proof (induction rule: rtranclp_induct)
    case base
    then show ?case using mpmc_reachable_inv [OF assms(1,2)] assms(3) by (auto simp: mpmc_inv_def queue_side_def)
  next
    case (step s1 s2)
    from step.hyps(2) step.IH show ?case
      by (induction rule: mpmc_step.induct)
        (auto simp: mpmc_push_def mpmc_try_push_def mpmc_pop_def mpmc_try_pop_def mpmc_close_def split: if_splits)
  qed
  with s closed_stays [OF assms(4) s(1)] show ?thesis by simp
qed

section \<open>Witnesses\<close>

definition one_thread :: "nat thread \<Rightarrow> nat mpmc_system" where
  "one_thread t = (mpmc_start 1 1)\<lparr>threads := [t]\<rparr>"

lemma one_thread_call:
  "mpmc_step (one_thread Outside) (one_thread (Push_Enter 7))" "mpmc_step (one_thread Outside) (one_thread Pop_Enter)"
  "mpmc_step (one_thread Outside) (one_thread Close_Enter)" "mpmc_start 1 1 = one_thread Outside"
  using mpmc_step.call [of "one_thread Outside" 0 "Push_Enter 7" 7]
    mpmc_step.call [of "one_thread Outside" 0 Pop_Enter 7] mpmc_step.call [of "one_thread Outside" 0 Close_Enter 7]
  by (simp_all add: one_thread_def mpmc_start_def at_def go_def)

definition one_item :: "nat mpmc_system" where
  "one_item = (one_thread Notify_Not_Empty)\<lparr>queue := mpmc_store (queue (one_thread Outside)) 7, items_in := [7]\<rparr>"

lemma one_item_reachable: "mpmc_step\<^sup>*\<^sup>* (mpmc_start 1 1) one_item"
proof -
  have "mpmc_step (one_thread (Push_Enter 7)) one_item"
    using mpmc_step.push_done [of "one_thread (Push_Enter 7)" 0 7 "mpmc_store (queue (one_thread Outside)) 7"]
    by (simp add: one_item_def one_thread_def mpmc_start_def mpmc_make_def at_def go_def mpmc_push_def mpmc_size_def)
  with one_thread_call show ?thesis by (metis converse_rtranclp_into_rtranclp rtranclp.rtrancl_refl)
qed

theorem mpmc_fifo_witness: "items_in one_item = items_out one_item @ buffer (queue one_item) \<and> items_in one_item = [7]"
  using mpmc_fifo [OF one_item_reachable] by (simp add: one_item_def)

lemma sleeper_reachable: "mpmc_step\<^sup>*\<^sup>* (mpmc_start 1 1) (one_thread Pop_Asleep)"
proof -
  have "mpmc_step (one_thread Pop_Enter) (one_thread Pop_Asleep)"
    using mpmc_step.pop_sleep [of "one_thread Pop_Enter" 0]
    by (simp add: one_thread_def mpmc_start_def mpmc_make_def at_def go_def mpmc_pop_def)
  with one_thread_call show ?thesis by (metis converse_rtranclp_into_rtranclp rtranclp.rtrancl_refl)
qed

theorem mpmc_no_lost_wakeup_witness:
  "pop_asleep Pop_Asleep \<and> threads (one_thread Pop_Asleep) = [Pop_Asleep] \<and> buffer (queue (one_thread Pop_Asleep)) = []"
  using mpmc_no_lost_wakeup [OF sleeper_reachable] by (simp add: one_thread_def quiet_def pop_asleep_def)

definition shut :: "nat thread \<Rightarrow> nat mpmc_system" where
  "shut t = (one_thread t)\<lparr>queue := mpmc_close (queue (one_thread t))\<rparr>"

lemma shut_reachable: "mpmc_step\<^sup>*\<^sup>* (mpmc_start 1 1) ((shut Outside)\<lparr>pop_refused := True\<rparr>)"
proof -
  have "mpmc_step (one_thread Close_Enter) (shut Close_Not_Empty)"
    using mpmc_step.close [of "one_thread Close_Enter" 0] by (simp add: one_thread_def mpmc_start_def at_def go_def shut_def)
  moreover have "mpmc_step (shut Close_Not_Empty) (shut Close_Not_Full)"
    using mpmc_step.close_not_empty [of "shut Close_Not_Empty" 0]
    by (simp add: one_thread_def mpmc_start_def at_def go_def shut_def)
  moreover have "mpmc_step (shut Close_Not_Full) (shut Outside)"
    using mpmc_step.close_not_full [of "shut Close_Not_Full" 0]
    by (simp add: one_thread_def mpmc_start_def at_def go_def shut_def)
  moreover have "mpmc_step (shut Outside) (shut Pop_Enter)"
    using mpmc_step.call [of "shut Outside" 0 Pop_Enter 7] by (simp add: one_thread_def mpmc_start_def at_def go_def shut_def)
  moreover have "mpmc_step (shut Pop_Enter) ((shut Outside)\<lparr>pop_refused := True\<rparr>)"
    using mpmc_step.pop_drained [of "shut Pop_Enter" 0 "queue (shut Outside)"]
    by (simp add: one_thread_def mpmc_start_def mpmc_make_def at_def go_def shut_def mpmc_pop_def mpmc_close_def)
  ultimately have "mpmc_step\<^sup>*\<^sup>* (one_thread Close_Enter) ((shut Outside)\<lparr>pop_refused := True\<rparr>)"
    by (elim converse_rtranclp_into_rtranclp [OF _ r_into_rtranclp] converse_rtranclp_into_rtranclp)
  with one_thread_call(3) show ?thesis unfolding one_thread_call(4) by (rule converse_rtranclp_into_rtranclp)
qed

theorem mpmc_drained_witness: "mq_closed (queue ((shut Outside)\<lparr>pop_refused := True\<rparr>))"
  using mpmc_drained [OF shut_reachable _ _ rtranclp.rtrancl_refl] by simp

end
