(* ===== verification/Symbols.thy ===== *)
theory Symbols
  imports Order_Types
begin

text \<open>
  Instrument symbols: the fixed-width character buffer, its comparison and its hash, and the choice
  of a shard by the hash. The maps keyed by symbols use the comparison below, that is the first
  eight characters, as their key.
\<close>

unbundle bit_operations_syntax

definition NUL :: char where "NUL = CHR 0x00"

definition kMaxLen :: nat where "kMaxLen = 8"

datatype Symbol = Symbol (data: string)

definition default_symbol :: Symbol where
  "default_symbol = Symbol (replicate (kMaxLen + 1) NUL)"

text \<open>The C string a symbol is made of ends at its first null character; \<open>None\<close> is the null pointer.\<close>

definition strncpy :: "string \<Rightarrow> nat \<Rightarrow> string" where
  "strncpy s n = (let t = take n (takeWhile (\<lambda>c. c \<noteq> NUL) s) in t @ replicate (n - length t) NUL)"

definition make_symbol :: "string option \<Rightarrow> Symbol" where
  "make_symbol s = (case s of
     None \<Rightarrow> Symbol ((data default_symbol)[kMaxLen := NUL])
   | Some cs \<Rightarrow> Symbol ((strncpy cs kMaxLen @ drop kMaxLen (data default_symbol))[kMaxLen := NUL]))"

definition symbol_key :: "Symbol \<Rightarrow> string" where
  "symbol_key s = take kMaxLen (data s)"

definition symbol_eq :: "Symbol \<Rightarrow> Symbol \<Rightarrow> bool" where
  "symbol_eq s t \<longleftrightarrow> symbol_key s = symbol_key t"

definition c_str :: "Symbol \<Rightarrow> string" where
  "c_str s = takeWhile (\<lambda>c. c \<noteq> NUL) (data s)"

definition hash_symbol :: "Symbol \<Rightarrow> u64" where
  "hash_symbol s =
     foldl (\<lambda>h c. (h XOR of_char c) * 1099511628211) 1469598103934665603 (symbol_key s)"

text \<open>The shard of a symbol, for a number of shards that is a power of two.\<close>

definition shard_of :: "u64 \<Rightarrow> Symbol \<Rightarrow> nat" where
  "shard_of shard_count s = unat (hash_symbol s AND (shard_count - 1))"

record SymbolOrder =
  so_symbol :: Symbol
  so_order :: Order

lemma length_strncpy [simp]: "length (strncpy s n) = n"
  by (simp add: strncpy_def Let_def)

lemma data_make_symbol:
  "data (make_symbol (Some s)) = strncpy s kMaxLen @ [NUL]" "data (make_symbol None) = data default_symbol"
  by (simp_all add: make_symbol_def default_symbol_def kMaxLen_def list_update_append)
    (simp add: eval_nat_numeral)

lemma strncpy_plain:
  assumes "NUL \<notin> set s"
  shows "strncpy s n = take n s @ replicate (n - length s) NUL"
proof -
  have t: "takeWhile (\<lambda>c. c \<noteq> NUL) s = s" using assms by (auto simp: takeWhile_eq_all_conv)
  show ?thesis unfolding strncpy_def t Let_def by (cases "length s \<le> n") simp_all
qed

lemma takeWhile_prefix_end:
  "(\<forall>c \<in> set xs. P c) \<Longrightarrow> \<not> P y \<Longrightarrow> takeWhile P (xs @ replicate n y @ [y]) = xs"
  by (induction xs) (simp_all, cases n, simp_all)

text \<open>A code of at most eight characters comes back as it was; a longer one is cut, never unterminated.\<close>

lemma c_str_make_symbol:
  assumes "NUL \<notin> set s"
  shows "c_str (make_symbol (Some s)) = take kMaxLen s"
proof -
  have t: "\<forall>c \<in> set (take kMaxLen s). c \<noteq> NUL" using assms by (auto dest: in_set_takeD)
  show ?thesis
    unfolding c_str_def data_make_symbol strncpy_plain [OF assms] append_assoc
    by (rule takeWhile_prefix_end [OF t]) simp
qed

lemma symbol_key_make:
  "symbol_key (make_symbol (Some s)) = strncpy s kMaxLen"
  by (simp add: symbol_key_def data_make_symbol)

lemma symbol_eq_make:
  assumes "NUL \<notin> set s" and "NUL \<notin> set t"
  shows "symbol_eq (make_symbol (Some s)) (make_symbol (Some t)) \<longleftrightarrow> take kMaxLen s = take kMaxLen t"
proof
  assume "symbol_eq (make_symbol (Some s)) (make_symbol (Some t))"
  then have "data (make_symbol (Some s)) = data (make_symbol (Some t))"
    by (simp add: symbol_eq_def symbol_key_make data_make_symbol)
  then show "take kMaxLen s = take kMaxLen t"
    using c_str_make_symbol [OF assms(1)] c_str_make_symbol [OF assms(2)] by (simp add: c_str_def)
next
  assume eq: "take kMaxLen s = take kMaxLen t"
  then have "min kMaxLen (length s) = min kMaxLen (length t)" by (metis length_take min.commute)
  then have "kMaxLen - length s = kMaxLen - length t" by (auto simp: min_def split: if_splits)
  with eq show "symbol_eq (make_symbol (Some s)) (make_symbol (Some t))"
    by (simp add: symbol_eq_def symbol_key_make strncpy_plain assms)
qed

text \<open>The hash respects the comparison, and the routing stays inside the array of shards.\<close>

lemma hash_respects_eq: "symbol_eq s t \<Longrightarrow> hash_symbol s = hash_symbol t"
  by (simp add: symbol_eq_def hash_symbol_def)

lemma shard_of_less:
  assumes "0 < n"
  shows "shard_of n s < unat n"
proof -
  have "hash_symbol s AND (n - 1) \<le> n - 1" by (rule word_and_le1)
  moreover have "unat (n - 1) < unat n" using assms by (simp add: unat_minus_one word_gt_0 unat_gt_0)
  ultimately show ?thesis by (simp add: shard_of_def word_le_nat_alt)
qed

lemma shard_of_eq: "symbol_eq s t \<Longrightarrow> shard_of n s = shard_of n t"
  by (simp add: shard_of_def hash_respects_eq)

end
