(* ===== verification/Trade_Log.thy ===== *)
theory Trade_Log
  imports Symbols
begin

text \<open>
  The bounded history of the last trades per instrument. Each operation is one critical section of
  the log's mutex.
\<close>

record TradeLog =
  max_per_symbol :: u64
  by_symbol :: "string \<rightharpoonup> Trade list"

definition make_log :: "u64 \<Rightarrow> TradeLog" where
  "make_log n = \<lparr>max_per_symbol = n, by_symbol = Map.empty\<rparr>"

definition record_trade :: "Symbol \<Rightarrow> Trade \<Rightarrow> TradeLog \<Rightarrow> TradeLog" where
  "record_trade s t l =
     (let dq = (case by_symbol l (symbol_key s) of None \<Rightarrow> [] | Some dq \<Rightarrow> dq) @ [t];
          dq' = (if max_per_symbol l < of_nat (length dq) then tl dq else dq)
      in l\<lparr>by_symbol := (by_symbol l)(symbol_key s \<mapsto> dq')\<rparr>)"

definition recent :: "TradeLog \<Rightarrow> Symbol \<Rightarrow> u64 \<Rightarrow> Trade list" where
  "recent l s n = (case by_symbol l (symbol_key s) of
     None \<Rightarrow> []
   | Some dq \<Rightarrow> (let k = min (unat n) (length dq) in map (\<lambda>i. dq ! i) [length dq - k ..< length dq]))"

definition count_trades :: "TradeLog \<Rightarrow> Symbol \<Rightarrow> u64" where
  "count_trades l s = (case by_symbol l (symbol_key s) of None \<Rightarrow> 0 | Some dq \<Rightarrow> of_nat (length dq))"

definition logged :: "TradeLog \<Rightarrow> string \<Rightarrow> Trade list" where
  "logged l k = (case by_symbol l k of None \<Rightarrow> [] | Some dq \<Rightarrow> dq)"

text \<open>The log abstracts the whole history of a symbol to its last trades.\<close>

definition last_n :: "nat \<Rightarrow> 'a list \<Rightarrow> 'a list" where
  "last_n n xs = drop (length xs - n) xs"

lemma length_last_n [simp]: "length (last_n n xs) = min n (length xs)"
  by (auto simp: last_n_def)

lemma last_n_snoc:
  "last_n n (xs @ [x]) =
    (if n < Suc (length (last_n n xs)) then tl (last_n n xs @ [x]) else last_n n xs @ [x])"
proof (cases "n \<le> length xs")
  case True
  then show ?thesis
  proof (cases n)
    case 0
    then show ?thesis by (simp add: last_n_def)
  next
    case (Suc m)
    then have "drop (length xs - n) xs \<noteq> []" using True by simp
    moreover have "Suc (length xs) - n = Suc (length xs - n)" using True by simp
    ultimately show ?thesis using True by (simp add: last_n_def drop_Suc tl_drop)
  qed
next
  case False
  then show ?thesis by (simp add: last_n_def)
qed

lemma last_n_last_n: "last_n m (last_n n xs) = last_n (min m n) xs"
  by (cases "length xs \<le> n"; cases "m \<le> n") (simp_all add: last_n_def)

lemma logged_record:
  assumes "logged l k = last_n (unat (max_per_symbol l)) xs" and "max_per_symbol l < 0xFFFFFFFFFFFFFFFF"
  shows "logged (record_trade s t l) k =
    last_n (unat (max_per_symbol l)) (if symbol_key s = k then xs @ [t] else xs)"
proof (cases "symbol_key s = k")
  case True
  let ?dq = "logged l k @ [t]"
  have "length ?dq \<le> Suc (unat (max_per_symbol l))" using assms(1) by simp
  moreover have "Suc (unat (max_per_symbol l)) < 2 ^ 64"
    using assms(2) by (simp add: word_less_nat_alt)
  ultimately have "unat (of_nat (length ?dq) :: u64) = length ?dq"
    unfolding unsigned_of_nat by (simp add: take_bit_nat_eq_self del: length_append)
  then have "max_per_symbol l < of_nat (length ?dq) \<longleftrightarrow> unat (max_per_symbol l) < Suc (length (logged l k))"
    by (simp add: word_less_nat_alt)
  moreover have "logged (record_trade s t l) k = (if max_per_symbol l < of_nat (length ?dq) then tl ?dq else ?dq)"
    using True by (simp add: logged_def record_trade_def Let_def)
  ultimately show ?thesis using True assms(1) by (simp add: last_n_snoc)
next
  case False
  with assms(1) show ?thesis by (simp add: logged_def record_trade_def Let_def)
qed

lemma max_record [simp]: "max_per_symbol (record_trade s t l) = max_per_symbol l"
  by (simp add: record_trade_def Let_def)

text \<open>A run of recordings, for any mix of symbols.\<close>

definition record_all :: "(Symbol \<times> Trade) list \<Rightarrow> TradeLog \<Rightarrow> TradeLog" where
  "record_all rs l = fold (\<lambda>(s, t). record_trade s t) rs l"

definition trades_of :: "string \<Rightarrow> (Symbol \<times> Trade) list \<Rightarrow> Trade list" where
  "trades_of k rs = map snd (filter (\<lambda>(s, t). symbol_key s = k) rs)"

lemma record_all_snoc: "record_all (rs @ [(s, t)]) l = record_trade s t (record_all rs l)"
  by (simp add: record_all_def)

lemma logged_record_all:
  assumes "n < 0xFFFFFFFFFFFFFFFF"
  shows "logged (record_all rs (make_log n)) k = last_n (unat n) (trades_of k rs) \<and>
    max_per_symbol (record_all rs (make_log n)) = n"
proof (induction rs rule: rev_induct)
  case Nil
  then show ?case by (simp add: record_all_def logged_def make_log_def trades_of_def last_n_def)
next
  case (snoc r rs)
  obtain s t where r: "r = (s, t)" by (cases r)
  with assms snoc logged_record [of "record_all rs (make_log n)" k "trades_of k rs" s t] show ?case
    by (auto simp: record_all_snoc trades_of_def)
qed

lemma map_nth_last_n: "k \<le> length xs \<Longrightarrow> map (\<lambda>i. xs ! i) [length xs - k ..< length xs] = last_n k xs"
  by (rule nth_equalityI) (simp_all add: last_n_def)

lemma recent_logged: "recent l s n = last_n (unat n) (logged l (symbol_key s))"
  by (auto simp: recent_def logged_def map_nth_last_n Let_def last_n_def min_def split: option.splits)

section \<open>Properties\<close>

text \<open>The log is the tail of the history. After any recordings for any mix of symbols, a query for the
  last \<open>k\<close> trades of a symbol gives, oldest first, the last \<open>k\<close> trades of that symbol, or as many as
  the log keeps; trades of other symbols make no difference.\<close>

theorem recent_is_history_tail:
  assumes "n < 0xFFFFFFFFFFFFFFFF"
  shows "recent (record_all rs (make_log n)) s k = last_n (min (unat k) (unat n)) (trades_of (symbol_key s) rs) \<and>
    unat (count_trades (record_all rs (make_log n)) s) = min (unat n) (length (trades_of (symbol_key s) rs))"
proof -
  note log = logged_record_all [OF assms, of rs "symbol_key s"]
  have "unat (count_trades l s) = length (logged l (symbol_key s))"
    if "length (logged l (symbol_key s)) \<le> unat n" for l
    using that le_less_trans [OF _ unat_u64_less [of n]]
    by (auto simp: count_trades_def logged_def unsigned_of_nat take_bit_nat_eq_self split: option.splits)
  with log show ?thesis by (simp add: recent_logged last_n_last_n)
qed

definition demo_trades :: "(Symbol \<times> Trade) list" where
  "demo_trades = map (\<lambda>(s, i). (make_symbol (Some s), \<lparr>t_trade_id = i, t_buy_order_id = 1, t_sell_order_id = 2, t_price = 100,
     t_quantity = 5, t_sequence = i\<rparr>)) [(''AAPL'', 1), (''MSFT'', 2), (''AAPL'', 3), (''AAPL'', 4)]"

theorem recent_is_history_tail_witness:
  "unat (count_trades (record_all demo_trades (make_log 2)) (make_symbol (Some ''AAPL''))) =
    min 2 (length (trades_of (symbol_key (make_symbol (Some ''AAPL''))) demo_trades))"
  using recent_is_history_tail [of 2 demo_trades "make_symbol (Some ''AAPL'')" 1] by (simp add: word_less_nat_alt)

end
