(* ===== verification/Doubles.thy ===== *)
theory Doubles
  imports Complex_Main Lob_Prelude
begin

text \<open>
  Floating-point numbers. A number is modelled as the rational it denotes, and every operation rounds the
  exact result to the nearest representable number, ties to even: with a significand of \<open>p\<close> bits and
  multiples of \<open>2\<^sup>-\<^sup>e\<close> as the smallest numbers. A \<open>double\<close> has 53 bits and the smallest number
  \<open>2\<^sup>-\<^sup>1\<^sup>0\<^sup>7\<^sup>4\<close>, the \<open>long double\<close> of the supported targets 64 bits and \<open>2\<^sup>-\<^sup>1\<^sup>6\<^sup>4\<^sup>4\<^sup>5\<close>.
\<close>

section \<open>Width of a number\<close>

fun bit_width :: "nat \<Rightarrow> nat" where
  "bit_width n = (if n = 0 then 0 else Suc (bit_width (n div 2)))"

declare bit_width.simps [simp del]

lemma bit_width_less: "n < 2 ^ bit_width n"
proof (induction n rule: bit_width.induct)
  case (1 n)
  then show ?case by (subst bit_width.simps) auto
qed

lemma bit_width_pos: "0 < n \<Longrightarrow> 2 ^ bit_width n \<le> 2 * n"
proof (induction n rule: bit_width.induct)
  case (1 n)
  show ?case
  proof (cases "n div 2 = 0")
    case True
    with 1 have "n = 1" by auto
    then show ?thesis by (simp add: bit_width.simps)
  next
    case False
    with 1 have "2 ^ bit_width (n div 2) \<le> 2 * (n div 2)" by auto
    with 1 show ?thesis by (subst bit_width.simps) auto
  qed
qed

lemma bit_width_le: "bit_width n \<le> k \<longleftrightarrow> n < 2 ^ k"
proof
  assume "bit_width n \<le> k"
  then show "n < 2 ^ k" using bit_width_less [of n] by (meson less_le_trans one_le_numeral power_increasing)
next
  assume n: "n < 2 ^ k"
  show "bit_width n \<le> k"
  proof (cases "n = 0")
    case False
    with bit_width_pos [of n] n have "2 ^ bit_width n < (2 :: nat) ^ Suc k" by simp
    then show ?thesis by (metis less_Suc_eq_le one_less_numeral_iff power_strict_increasing_iff semiring_norm(76))
  qed (simp add: bit_width.simps)
qed

lemma bit_width_power: "bit_width (2 ^ k) = Suc k"
  by (induction k) (simp_all add: bit_width.simps [of "Suc 0"] bit_width.simps [of 0] bit_width.simps [of "2 * 2 ^ _"])

section \<open>Rounding\<close>

definition round_even :: "rat \<Rightarrow> int" where
  "round_even x =
     (let f = \<lfloor>x\<rfloor>; d = x - of_int f
      in if d < 1 / 2 then f else if 1 / 2 < d then f + 1 else if even f then f else f + 1)"

text \<open>The distance of the representable numbers around a number that is not negative.\<close>

definition unit_at :: "nat \<Rightarrow> nat \<Rightarrow> rat \<Rightarrow> rat" where
  "unit_at p e x = 2 ^ (bit_width (nat \<lfloor>x * 2 ^ e\<rfloor>) - p) / 2 ^ e"

definition rounded :: "nat \<Rightarrow> nat \<Rightarrow> rat \<Rightarrow> rat" where
  "rounded p e x = of_int (round_even (x / unit_at p e x)) * unit_at p e x"

definition double_of :: "rat \<Rightarrow> rat" where
  "double_of x = rounded 53 1074 x"

definition long_double_of :: "rat \<Rightarrow> rat" where
  "long_double_of x = rounded 64 16445 x"

definition double_signed :: "rat \<Rightarrow> rat" where
  "double_signed x = (if x < 0 then - double_of (- x) else double_of x)"

lemma round_even_le:
  assumes "x \<le> of_int n"
  shows "round_even x \<le> n"
proof (cases "\<lfloor>x\<rfloor> = n")
  case True
  with assms have "x = of_int n" by linarith
  then show ?thesis by (simp add: round_even_def)
next
  case False
  with assms have "\<lfloor>x\<rfloor> + 1 \<le> n" by linarith
  then show ?thesis by (simp add: round_even_def Let_def)
qed

lemma round_even_ge: "of_int n \<le> x \<Longrightarrow> n \<le> round_even x"
  using floor_mono [of "of_int n" x] by (auto simp: round_even_def Let_def)

lemma round_even_of_int [simp]: "round_even (of_int n) = n"
  by (simp add: round_even_def)

lemma round_even_error: "\<bar>of_int (round_even x) - x\<bar> \<le> 1 / 2"
proof -
  have "of_int \<lfloor>x\<rfloor> \<le> x" "x < of_int \<lfloor>x\<rfloor> + 1" by linarith+
  then show ?thesis by (auto simp: round_even_def Let_def abs_le_iff field_simps)
qed

lemma unit_pos [simp]: "0 < unit_at p e x"
  by (simp add: unit_at_def)

lemma nat_less_of_int: "z < int n \<Longrightarrow> 0 < n \<Longrightarrow> nat z < n"
  by arith

text \<open>Rounding does not cross an integer that is representable.\<close>

lemma unit_grid:
  assumes "x < 2 ^ p"
  obtains j where "unit_at p e x * 2 ^ j = 1"
proof -
  let ?k = "bit_width (nat \<lfloor>x * 2 ^ e\<rfloor>)"
  have "x * 2 ^ e < of_int (2 ^ p * 2 ^ e)" using assms by simp
  then have "\<lfloor>x * 2 ^ e\<rfloor> < int (2 ^ (p + e))" by (simp add: floor_less_iff power_add)
  then have "nat \<lfloor>x * 2 ^ e\<rfloor> < 2 ^ (p + e)" by (rule nat_less_of_int) simp
  then have "?k \<le> p + e" by (simp only: bit_width_le)
  then have "(2 :: rat) ^ e = 2 ^ (?k - p) * 2 ^ (e - (?k - p))" by (simp flip: power_add)
  then have "unit_at p e x * 2 ^ (e - (?k - p)) = 1" by (simp add: unit_at_def)
  then show thesis by (rule that)
qed

lemma rounded_le_int:
  assumes "x \<le> of_int n" and "n < 2 ^ p"
  shows "rounded p e x \<le> of_int n"
proof -
  have "x < 2 ^ p" using assms by (metis le_less_trans of_int_less_iff of_int_numeral of_int_power)
  then obtain j where j: "unit_at p e x * 2 ^ j = 1" by (rule unit_grid)
  define u where "u = unit_at p e x"
  have u: "0 < u" "u * 2 ^ j = 1" using j by (simp_all add: u_def)
  have "x / u \<le> of_int n / u" using assms(1) u(1) by (simp add: divide_right_mono)
  also have "\<dots> = of_int n * (u * 2 ^ j) / u" unfolding u(2) by simp
  also have "\<dots> = of_int (n * 2 ^ j)" using u(1) by simp
  finally have "round_even (x / u) \<le> n * 2 ^ j" by (rule round_even_le)
  then have "of_int (round_even (x / u)) * u \<le> of_int (n * 2 ^ j) * u"
    using u(1) by (intro mult_right_mono) (simp_all only: of_int_le_iff less_imp_le)
  also have "\<dots> = of_int n * (u * 2 ^ j)" by simp
  finally have "of_int (round_even (x / u)) * u \<le> of_int n" unfolding u(2) by simp
  then show ?thesis by (simp add: rounded_def u_def)
qed

lemma rounded_ge_int:
  assumes "of_int n \<le> x" and "x < 2 ^ p"
  shows "of_int n \<le> rounded p e x"
proof -
  from assms(2) obtain j where j: "unit_at p e x * 2 ^ j = 1" by (rule unit_grid)
  define u where "u = unit_at p e x"
  have u: "0 < u" "u * 2 ^ j = 1" using j by (simp_all add: u_def)
  have "of_int (n * 2 ^ j) = of_int n * (u * 2 ^ j) / u" using u(1) by simp
  also have "\<dots> = of_int n / u" unfolding u(2) by simp
  also have "\<dots> \<le> x / u" using assms(1) u(1) by (simp add: divide_right_mono)
  finally have "n * 2 ^ j \<le> round_even (x / u)" by (rule round_even_ge)
  then have "of_int (n * 2 ^ j) * u \<le> of_int (round_even (x / u)) * u"
    using u(1) by (intro mult_right_mono) (simp_all only: of_int_le_iff less_imp_le)
  moreover have "of_int (n * 2 ^ j) * u = of_int n * (u * 2 ^ j)" by simp
  ultimately have "of_int n \<le> of_int (round_even (x / u)) * u" unfolding u(2) by (simp only: mult_1_right)
  then show ?thesis by (simp add: rounded_def u_def)
qed

lemma rounded_nonneg: "0 \<le> x \<Longrightarrow> 0 \<le> rounded p e x"
  using round_even_ge [of 0 "x / unit_at p e x"] unit_pos [of p e x] by (simp add: rounded_def less_imp_le)

text \<open>Away from the smallest numbers, the relative error is at most \<open>2\<^sup>-\<^sup>p\<close>.\<close>

lemma rounded_error:
  assumes "2 ^ p \<le> x * 2 ^ e"
  shows "\<bar>rounded p e x - x\<bar> \<le> x / 2 ^ p"
proof -
  let ?m = "nat \<lfloor>x * 2 ^ e\<rfloor>" and ?u = "unit_at p e x"
  have "of_int (2 ^ p) \<le> x * 2 ^ e" using assms by simp
  then have f: "2 ^ p \<le> \<lfloor>x * 2 ^ e\<rfloor>" by (simp only: le_floor_iff)
  then have m: "2 ^ p \<le> ?m" using nat_mono [OF f] by (simp add: nat_power_eq)
  then have "\<not> bit_width ?m \<le> p" by (simp add: bit_width_le)
  moreover have "0 < ?m" using m by (metis less_le_trans zero_less_numeral zero_less_power)
  then have "2 ^ bit_width ?m \<le> 2 * ?m" by (rule bit_width_pos)
  then have "of_nat (2 ^ bit_width ?m) \<le> (of_nat (2 * ?m) :: rat)" by (simp only: of_nat_le_iff)
  then have "(2 :: rat) ^ bit_width ?m \<le> 2 * of_nat ?m" by simp
  moreover have "(of_nat ?m :: rat) = of_int \<lfloor>x * 2 ^ e\<rfloor>" using \<open>0 < ?m\<close> by simp
  then have "(of_nat ?m :: rat) \<le> x * 2 ^ e" by linarith
  ultimately have b: "(2 :: rat) ^ bit_width ?m \<le> 2 * (x * 2 ^ e)" "p \<le> bit_width ?m" by linarith+
  have "?u * 2 ^ p = 2 ^ bit_width ?m / 2 ^ e" using b(2) by (simp add: unit_at_def flip: power_add)
  also have "\<dots> \<le> 2 * x" using b(1) by (simp add: divide_le_eq mult.assoc)
  finally have "?u / 2 \<le> x / 2 ^ p" by (simp add: field_simps)
  moreover have "\<bar>rounded p e x - x\<bar> = \<bar>of_int (round_even (x / ?u)) - x / ?u\<bar> * ?u"
  proof -
    have "rounded p e x - x = (of_int (round_even (x / ?u)) - x / ?u) * ?u"
      using less_imp_neq [OF unit_pos, of p e x] by (simp add: rounded_def left_diff_distrib)
    then show ?thesis using unit_pos [of p e x] by (simp only: abs_mult)
  qed
  moreover have "\<dots> \<le> 1 / 2 * ?u"
    by (intro mult_right_mono round_even_error) (simp add: less_imp_le)
  ultimately show ?thesis by linarith
qed

section \<open>Doubles\<close>

lemma double_of_le_int: "x \<le> of_int n \<Longrightarrow> n < 2 ^ 53 \<Longrightarrow> double_of x \<le> of_int n"
  unfolding double_of_def by (rule rounded_le_int)

lemma double_of_ge_int: "of_int n \<le> x \<Longrightarrow> x < 2 ^ 53 \<Longrightarrow> of_int n \<le> double_of x"
  unfolding double_of_def by (rule rounded_ge_int)

lemma double_of_le: "x \<le> of_nat n \<Longrightarrow> n < 2 ^ 53 \<Longrightarrow> double_of x \<le> of_nat n"
  using double_of_le_int [of x "int n"] by simp

lemma double_of_nonneg: "0 \<le> x \<Longrightarrow> 0 \<le> double_of x"
  unfolding double_of_def by (rule rounded_nonneg)

lemma double_of_int: "0 \<le> n \<Longrightarrow> n < 2 ^ 53 \<Longrightarrow> double_of (of_int n) = of_int n"
  using double_of_le_int [of "of_int n" n] double_of_ge_int [of n "of_int n"]
  by (metis antisym of_int_less_iff of_int_numeral of_int_power order_refl)

lemma double_of_error:
  assumes "1 / 2 ^ 500 \<le> x"
  shows "\<bar>double_of x - x\<bar> \<le> x / 2 ^ 53"
  unfolding double_of_def
proof (rule rounded_error)
  have "(2 :: rat) ^ 53 * 2 ^ 500 \<le> 2 ^ 1074" unfolding power_add [symmetric] by (intro power_increasing) simp_all
  then have "(2 :: rat) ^ 53 \<le> 1 / 2 ^ 500 * 2 ^ 1074" by (simp only: mult_1 times_divide_eq_left le_divide_eq) simp
  also have "\<dots> \<le> x * 2 ^ 1074" by (intro mult_right_mono assms) simp
  finally show "2 ^ 53 \<le> x * 2 ^ 1074" .
qed

lemma double_of_zero [simp]: "double_of 0 = 0"
  using double_of_int [of 0] by simp

end
