(* ===== verification/Latency_Histogram.thy ===== *)
theory Latency_Histogram
  imports Doubles
begin

text \<open>
  The logarithmic latency histogram: 64 buckets of powers of two, and percentiles read off as upper
  bounds. The percentile rank is computed by the code in double precision.
\<close>

section \<open>The histogram\<close>

definition kBucketCount :: nat where "kBucketCount = 64"

record LatencySnapshot =
  s_count :: u64
  s_min_ns :: u64
  s_mean_ns :: rat
  s_p50_ns :: u64
  s_p95_ns :: u64
  s_p99_ns :: u64
  s_p999_ns :: u64
  s_max_ns :: u64

definition default_snapshot :: LatencySnapshot where
  "default_snapshot = \<lparr>s_count = 0, s_min_ns = 0, s_mean_ns = 0, s_p50_ns = 0, s_p95_ns = 0, s_p99_ns = 0,
     s_p999_ns = 0, s_max_ns = 0\<rparr>"

record AtomicLatencyHistogram =
  h_buckets :: "u64 list"
  h_count :: u64
  h_total_ns :: u64
  h_min_ns :: u64
  h_max_ns :: u64

definition init_histogram :: AtomicLatencyHistogram where
  "init_histogram = \<lparr>h_buckets = replicate kBucketCount 0, h_count = 0, h_total_ns = 0, h_min_ns = - 1, h_max_ns = 0\<rparr>"

definition bucketFor :: "u64 \<Rightarrow> nat" where
  "bucketFor v =
     (if v \<le> 1 then 0
      else let width = bit_width (unat (v - 1)) in if kBucketCount \<le> width then kBucketCount - 1 else width)"

definition bucketUpperBound :: "nat \<Rightarrow> u64" where
  "bucketUpperBound b = (if 63 \<le> b then - 1 else push_bit b 1)"

definition record_latency :: "u64 \<Rightarrow> AtomicLatencyHistogram \<Rightarrow> AtomicLatencyHistogram" where
  "record_latency ns h =
     (let b = bucketFor ns
      in \<lparr>h_buckets = (h_buckets h)[b := h_buckets h ! b + 1], h_count = h_count h + 1,
          h_total_ns = h_total_ns h + ns, h_min_ns = (if ns < h_min_ns h then ns else h_min_ns h),
          h_max_ns = (if h_max_ns h < ns then ns else h_max_ns h)\<rparr>)"

definition percentile_rank :: "rat \<Rightarrow> u64 \<Rightarrow> u64" where
  "percentile_rank percentile n =
     (let rank = of_int \<lceil>double_of (percentile * double_of (of_nat (unat n)))\<rceil> in if rank = 0 then 1 else rank)"

fun percentile_loop :: "u64 list \<Rightarrow> nat \<Rightarrow> u64 \<Rightarrow> u64 \<Rightarrow> u64 option" where
  "percentile_loop [] i cumulative rank = None"
| "percentile_loop (b # bs) i cumulative rank =
     (let cumulative' = cumulative + b
      in if rank \<le> cumulative' then Some (bucketUpperBound i) else percentile_loop bs (Suc i) cumulative' rank)"

definition percentileUpperBound :: "AtomicLatencyHistogram \<Rightarrow> rat \<Rightarrow> u64 \<Rightarrow> u64" where
  "percentileUpperBound h percentile n =
     (case percentile_loop (h_buckets h) 0 0 (percentile_rank percentile n) of
        Some b \<Rightarrow> b
      | None \<Rightarrow> h_max_ns h)"

definition snapshot_latency :: "AtomicLatencyHistogram \<Rightarrow> LatencySnapshot" where
  "snapshot_latency h =
     (if h_count h = 0 then default_snapshot
      else \<lparr>s_count = h_count h, s_min_ns = h_min_ns h,
        s_mean_ns = double_of (double_of (of_nat (unat (h_total_ns h))) / double_of (of_nat (unat (h_count h)))),
        s_p50_ns = percentileUpperBound h (double_of (50 / 100)) (h_count h),
        s_p95_ns = percentileUpperBound h (double_of (95 / 100)) (h_count h),
        s_p99_ns = percentileUpperBound h (double_of (99 / 100)) (h_count h),
        s_p999_ns = percentileUpperBound h (double_of (999 / 1000)) (h_count h),
        s_max_ns = h_max_ns h\<rparr>)"

definition record_samples :: "u64 list \<Rightarrow> AtomicLatencyHistogram" where
  "record_samples xs = fold record_latency xs init_histogram"

section \<open>Buckets\<close>

text \<open>The first 63 buckets are exactly the samples up to their bound; the last takes the rest.\<close>

lemma bucketFor_less: "bucketFor v < kBucketCount"
  by (simp add: bucketFor_def kBucketCount_def Let_def)

lemma unat_bucketUpperBound:
  assumes "i < 63"
  shows "unat (bucketUpperBound i) = 2 ^ i"
proof -
  have "(2 :: nat) ^ i < 2 ^ 64" using assms by (intro power_strict_increasing) simp_all
  then have "unat (of_nat (2 ^ i) :: u64) = 2 ^ i"
    unfolding unsigned_of_nat using assms by (simp add: take_bit_nat_eq_self)
  with assms show ?thesis by (simp add: bucketUpperBound_def)
qed

lemma bucketFor_le:
  assumes "i < kBucketCount"
  shows "bucketFor v \<le> i \<longleftrightarrow> v \<le> bucketUpperBound i"
proof (cases "i = 63")
  case True
  then show ?thesis using bucketFor_less [of v] by (simp add: bucketUpperBound_def kBucketCount_def)
next
  case False
  with assms have i: "i < 63" by (simp add: kBucketCount_def)
  have p: "(1 :: nat) \<le> 2 ^ i" by simp
  show ?thesis
  proof (cases "v \<le> 1")
    case True
    then have "unat v \<le> 1" by (simp add: word_le_nat_alt)
    then have "unat v \<le> 2 ^ i" using p by (rule order_trans)
    with True i show ?thesis by (simp add: bucketFor_def word_le_nat_alt unat_bucketUpperBound)
  next
    case False
    then have v: "1 < unat v" by (simp add: word_le_nat_alt)
    then have "unat (v - 1) = unat v - 1" by (intro unat_minus_one) auto
    with False i v bit_width_le [of "unat v - 1" i] show ?thesis
      by (auto simp: bucketFor_def Let_def kBucketCount_def word_le_nat_alt unat_bucketUpperBound)
  qed
qed

section \<open>Recording\<close>

lemma record_samples_snoc: "record_samples (xs @ [x]) = record_latency x (record_samples xs)"
  by (simp add: record_samples_def)

lemma record_samples_counts:
  "length (h_buckets (record_samples xs)) = kBucketCount \<and>
   (\<forall>i < kBucketCount. h_buckets (record_samples xs) ! i = of_nat (length (filter (\<lambda>x. bucketFor x = i) xs))) \<and>
   h_count (record_samples xs) = of_nat (length xs) \<and> h_total_ns (record_samples xs) = sum_list xs"
proof (induction xs rule: rev_induct)
  case Nil
  then show ?case by (simp add: record_samples_def init_histogram_def)
next
  case (snoc x xs)
  then show ?case
    using bucketFor_less [of x]
    by (auto simp: record_samples_snoc record_latency_def Let_def nth_list_update add.commute)
qed

lemma record_samples_extremes:
  "(\<forall>x \<in> set xs. h_min_ns (record_samples xs) \<le> x \<and> x \<le> h_max_ns (record_samples xs)) \<and>
   (xs \<noteq> [] \<longrightarrow> h_min_ns (record_samples xs) \<in> set xs \<and> h_max_ns (record_samples xs) \<in> set xs)"
proof (induction xs rule: rev_induct)
  case Nil
  then show ?case by simp
next
  case (snoc x xs)
  show ?case
  proof (cases "xs = []")
    case True
    then show ?thesis
      by (auto simp: record_samples_def record_latency_def init_histogram_def Let_def not_less
          word_order.extremum_unique)
  next
    case False
    with snoc show ?thesis by (auto simp: record_samples_snoc record_latency_def Let_def)
  qed
qed

lemma filter_bucket_Suc:
  "length (filter (\<lambda>x. bucketFor x < Suc i) xs) =
    length (filter (\<lambda>x. bucketFor x < i) xs) + length (filter (\<lambda>x. bucketFor x = i) xs)"
  by (induction xs) (auto simp: less_Suc_eq)

text \<open>The loop over the buckets stops at the first bucket that reaches the rank.\<close>

lemma percentile_loop_result:
  assumes "bs = drop i (h_buckets (record_samples xs))" and "i \<le> kBucketCount" and "length xs < 2 ^ 64"
    and "c = of_nat (length (filter (\<lambda>x. bucketFor x < i) xs))"
    and "length (filter (\<lambda>x. bucketFor x < i) xs) < unat rank" and "unat rank \<le> length xs"
  shows "\<exists>j < kBucketCount. percentile_loop bs i c rank = Some (bucketUpperBound j) \<and>
    unat rank \<le> length (filter (\<lambda>x. bucketFor x \<le> j) xs) \<and>
    length (filter (\<lambda>x. bucketFor x < j) xs) < unat rank"
  using assms
proof (induction bs arbitrary: i c)
  case Nil
  note counts = record_samples_counts [of xs]
  then have "i = kBucketCount" using Nil by simp
  then have "length (filter (\<lambda>x. bucketFor x < i) xs) = length xs" using bucketFor_less by simp
  with Nil show ?case by simp
next
  case (Cons b bs)
  note counts = record_samples_counts [of xs]
  have i: "i < kBucketCount" using Cons.prems(1,2) counts by (cases "i = kBucketCount") auto
  with Cons.prems(1) counts have b: "b = h_buckets (record_samples xs) ! i"
    and bs: "bs = drop (Suc i) (h_buckets (record_samples xs))"
    by (metis Cons_nth_drop_Suc list.inject)+
  let ?n = "length (filter (\<lambda>x. bucketFor x < Suc i) xs)"
  have c': "c + b = of_nat ?n" using Cons.prems(4) b counts i by (simp add: filter_bucket_Suc)
  have "?n < 2 ^ 64" using Cons.prems(3) length_filter_le [of _ xs] by (meson le_less_trans)
  then have n: "unat (c + b) = ?n" unfolding c' unsigned_of_nat by (simp add: take_bit_nat_eq_self)
  show ?case
  proof (cases "rank \<le> c + b")
    case True
    then show ?thesis using i n Cons.prems(5) by (intro exI [of _ i]) (simp add: word_le_nat_alt less_Suc_eq_le)
  next
    case False
    with Cons.IH [OF bs _ Cons.prems(3) c'] n i Cons.prems(6) show ?thesis by (simp add: word_le_nat_alt Let_def)
  qed
qed

section \<open>The rank\<close>

lemma percentile_rank_bounds:
  assumes "0 \<le> p" and "p \<le> 1" and "0 < n" and "unat n < 2 ^ 53"
  shows "0 < unat (percentile_rank p n) \<and> unat (percentile_rank p n) \<le> unat n"
proof -
  define k where "k = unat n"
  then have k: "0 < k" "k < 2 ^ 53" using assms(3,4) by (simp_all add: word_less_nat_alt)
  let ?c = "double_of (of_nat k)"
  let ?r = "\<lceil>double_of (p * ?c)\<rceil>"
  have c: "?c \<le> of_nat k" "0 \<le> ?c" using k(2) by (simp_all add: double_of_le double_of_nonneg)
  with assms(2) have "p * ?c \<le> 1 * ?c" by (intro mult_right_mono)
  with c k(2) have "double_of (p * ?c) \<le> of_nat k" by (intro double_of_le) simp_all
  moreover have "0 \<le> double_of (p * ?c)" using assms(1) c(2) by (intro double_of_nonneg) simp
  ultimately have r: "?r \<le> int k" "0 \<le> ?r" by (simp_all add: ceiling_le_iff)
  then obtain m where m: "?r = int m" "m \<le> k" by (metis nat_0_le nat_int_comparison(3))
  define w where "w = (of_int ?r :: u64)"
  have "w = of_nat m" by (simp add: w_def m(1))
  then have w: "unat w \<le> k" using m(2) k(2) by (simp add: unsigned_of_nat take_bit_nat_eq_self)
  have "percentile_rank p n = (if w = 0 then 1 else w)"
    unfolding percentile_rank_def Let_def w_def k_def ..
  with w k(1) show ?thesis unfolding k_def [symmetric] by (cases "w = 0") (simp_all add: unat_gt_0)
qed

section \<open>Properties\<close>

text \<open>C29: a reported percentile is the tightest bucket bound with enough samples below it: at least as
  many samples as the rank asks for are at most the reported value, fewer are at most any smaller
  bucket bound; the reported minimum and maximum are those of the samples. The rank, computed in
  double precision, never exceeds the number of samples.\<close>

theorem percentile_tight:
  assumes "xs \<noteq> []" and "length xs < 2 ^ 53" and "0 \<le> p" and "p \<le> 1"
  shows "let h = record_samples xs; n = h_count h; r = unat (percentile_rank p n)
    in unat n = length xs \<and> 0 < r \<and> r \<le> length xs \<and>
       (\<exists>j < kBucketCount. percentileUpperBound h p n = bucketUpperBound j \<and>
         r \<le> length (filter (\<lambda>x. x \<le> bucketUpperBound j) xs) \<and>
         (\<forall>i < j. length (filter (\<lambda>x. x \<le> bucketUpperBound i) xs) < r)) \<and>
       h_min_ns h = Min (set xs) \<and> h_max_ns h = Max (set xs)"
proof -
  note counts = record_samples_counts [of xs]
  let ?n = "h_count (record_samples xs)"
  let ?r = "percentile_rank p ?n"
  have n: "unat ?n = length xs" using counts assms(2) by (simp add: unsigned_of_nat take_bit_nat_eq_self)
  then have "0 < ?n" using assms(1) by (simp add: word_gt_0 flip: unat_gt_0)
  with percentile_rank_bounds [OF assms(3,4), of ?n] n assms(2) have r: "0 < unat ?r" "unat ?r \<le> length xs" by simp_all
  from percentile_loop_result [of "h_buckets (record_samples xs)" 0 xs 0 ?r] r assms(2)
  obtain j where j: "j < kBucketCount"
    "percentile_loop (h_buckets (record_samples xs)) 0 0 ?r = Some (bucketUpperBound j)"
    "unat ?r \<le> length (filter (\<lambda>x. bucketFor x \<le> j) xs)" "length (filter (\<lambda>x. bucketFor x < j) xs) < unat ?r"
    by auto
  have below: "length (filter (\<lambda>x. x \<le> bucketUpperBound i) xs) < unat ?r" if "i < j" for i
  proof -
    have "filter (\<lambda>x. x \<le> bucketUpperBound i) xs = filter (\<lambda>x. bucketFor x \<le> i) xs"
      using that j(1) by (simp add: bucketFor_le)
    moreover have "length (filter (\<lambda>x. bucketFor x \<le> i) xs) \<le> length (filter (\<lambda>x. bucketFor x < j) xs)"
      using that by (induction xs) auto
    ultimately show ?thesis using j(4) by simp
  qed
  have "h_min_ns (record_samples xs) = Min (set xs)" "h_max_ns (record_samples xs) = Max (set xs)"
    using record_samples_extremes [of xs] assms(1) by (auto intro!: Min_eqI [symmetric] Max_eqI [symmetric])
  with n r j below show ?thesis by (auto simp: Let_def percentileUpperBound_def bucketFor_le)
qed

theorem percentile_tight_witness:
  "\<exists>j < kBucketCount. percentileUpperBound (record_samples [3, 900, 5]) (1 / 2) (h_count (record_samples [3, 900, 5])) =
    bucketUpperBound j"
  using percentile_tight [of "[3, 900, 5]" "1 / 2"] by (auto simp: Let_def)

end
