(* ===== verification/Partitioned_Engine.thy ===== *)
theory Partitioned_Engine
  imports Engine_Commands Mpmc_Queue Trade_Log Latency_Histogram
begin

text \<open>
  The multi-instrument engine: one bounded queue and one owner thread per shard, symbols routed to
  shards by their hash, one matching engine per symbol. This theory has the data and the sequential
  pieces the threads are made of; the threads themselves are in \<open>Partitioned_System\<close>.

  Time stamps are in nanoseconds of the steady clock; a promise is a number.
\<close>

record PartitionedCommandResult =
  res_report :: ExecutionReport
  res_trades :: "Trade list"

record PartitionedEngineStats =
  ps_submitted :: u64
  ps_processed :: u64
  ps_accepted :: u64
  ps_rejected :: u64
  ps_trades :: u64
  ps_pending :: u64
  ps_max_queue_high_watermark :: u64
  ps_end_to_end_latency :: LatencySnapshot

record Snapshot =
  sn_exists :: bool
  sn_best_bid :: "int option"
  sn_best_ask :: "int option"
  sn_order_count :: nat
  sn_buy_depth :: nat
  sn_sell_depth :: nat
  sn_sequence :: u64

record Command =
  c_type :: CommandType
  c_symbol :: Symbol
  c_order :: Order
  c_completion :: "nat option"
  c_enqueued_at :: int

record Shard =
  sh_queue :: "Command MPMCQueue"
  sh_engines :: "string \<rightharpoonup> MatchingEngine"

record PartitionedMatchingEngine =
  pe_shard_count :: u64
  pe_risk_limits :: RiskLimits
  pe_shards :: "Shard list"
  pe_trade_log :: TradeLog
  pe_latency :: AtomicLatencyHistogram
  pe_accepting :: bool
  pe_submitted :: u64
  pe_processed :: u64
  pe_accepted :: u64
  pe_rejected :: u64
  pe_trades :: u64
  pe_pending :: u64

text \<open>The constructor, its threads apart; the queues throw on a capacity of zero.\<close>

definition make_partitioned ::
  "u64 \<Rightarrow> u64 \<Rightarrow> RiskLimits \<Rightarrow> u64 \<Rightarrow> string + PartitionedMatchingEngine" where
  "make_partitioned shard_count queue_capacity l log_depth =
     (if shard_count = 0 \<or> shard_count AND (shard_count - 1) \<noteq> 0
      then Inl ''shard_count must be a non-zero power of two''
      else case mpmc_make queue_capacity of
          Inl e \<Rightarrow> Inl e
        | Inr q \<Rightarrow> Inr \<lparr>pe_shard_count = shard_count, pe_risk_limits = l,
            pe_shards = replicate (unat shard_count) \<lparr>sh_queue = q, sh_engines = Map.empty\<rparr>,
            pe_trade_log = make_log log_depth, pe_latency = init_histogram, pe_accepting = True,
            pe_submitted = 0, pe_processed = 0, pe_accepted = 0, pe_rejected = 0, pe_trades = 0, pe_pending = 0\<rparr>)"

section \<open>Commands\<close>

definition order_command :: "Symbol \<Rightarrow> Order \<Rightarrow> nat option \<Rightarrow> int \<Rightarrow> Command" where
  "order_command s ord completion now =
     \<lparr>c_type = NEW_ORDER, c_symbol = s, c_order = ord, c_completion = completion, c_enqueued_at = now\<rparr>"

definition cancel_command :: "Symbol \<Rightarrow> u64 \<Rightarrow> nat option \<Rightarrow> int \<Rightarrow> Command" where
  "cancel_command s i completion now =
     \<lparr>c_type = CANCEL_ORDER, c_symbol = s, c_order = default_order\<lparr>o_id := i\<rparr>, c_completion = completion,
      c_enqueued_at = now\<rparr>"

text \<open>The entry points: the command each of them hands to \<open>enqueueCommand\<close>, and whether it may block there.\<close>

definition pe_enqueue :: "Symbol \<Rightarrow> Order \<Rightarrow> int \<Rightarrow> Command \<times> bool" where
  "pe_enqueue s ord now = (order_command s ord None now, True)"

definition pe_enqueueCancel :: "Symbol \<Rightarrow> u64 \<Rightarrow> int \<Rightarrow> Command \<times> bool" where
  "pe_enqueueCancel s i now = (cancel_command s i None now, True)"

definition pe_tryEnqueue :: "Symbol \<Rightarrow> Order \<Rightarrow> int \<Rightarrow> Command \<times> bool" where
  "pe_tryEnqueue s ord now = (order_command s ord None now, False)"

definition pe_submit :: "Symbol \<Rightarrow> Order \<Rightarrow> nat \<Rightarrow> int \<Rightarrow> Command \<times> bool" where
  "pe_submit s ord completion now = (order_command s ord (Some completion) now, True)"

definition pe_cancel :: "Symbol \<Rightarrow> u64 \<Rightarrow> nat \<Rightarrow> int \<Rightarrow> Command \<times> bool" where
  "pe_cancel s i completion now = (cancel_command s i (Some completion) now, True)"

definition shardIndex :: "PartitionedMatchingEngine \<Rightarrow> Symbol \<Rightarrow> nat" where
  "shardIndex pe s = shard_of (pe_shard_count pe) s"

definition shardFor :: "PartitionedMatchingEngine \<Rightarrow> Symbol \<Rightarrow> Shard" where
  "shardFor pe s = pe_shards pe ! shardIndex pe s"

definition completeRejected :: "u64 \<Rightarrow> CommandType \<Rightarrow> RejectReason \<Rightarrow> PartitionedCommandResult" where
  "completeRejected i command reason =
     \<lparr>res_report = default_report\<lparr>r_order_id := i, r_command := command, r_status := REJECTED, r_reject_reason := reason\<rparr>,
      res_trades = []\<rparr>"

text \<open>Whether the last pending command was finished, so that the waiters are to be notified.\<close>

definition finishOnePending :: "PartitionedMatchingEngine \<Rightarrow> bool \<times> PartitionedMatchingEngine" where
  "finishOnePending pe = (pe_pending pe = 1, pe\<lparr>pe_pending := pe_pending pe - 1\<rparr>)"

section \<open>One command in the owner thread\<close>

text \<open>The critical section of the shard: the engine of the symbol, made on first sight, runs the command.\<close>

definition run_command ::
  "RiskLimits \<Rightarrow> Command \<Rightarrow> Shard \<Rightarrow> (PartitionedCommandResult \<times> Shard) option" where
  "run_command l c sh =
     (let k = symbol_key (c_symbol c);
          e = (case sh_engines sh k of None \<Rightarrow> init_engine l | Some e \<Rightarrow> e)
      in case c_type c of
           NEW_ORDER \<Rightarrow>
             (case processOrder e (c_order c) [] of
                None \<Rightarrow> None
              | Some (rep, e', ts) \<Rightarrow>
                  Some (\<lparr>res_report = rep, res_trades = ts\<rparr>, sh\<lparr>sh_engines := (sh_engines sh)(k \<mapsto> e')\<rparr>))
         | CANCEL_ORDER \<Rightarrow>
             (case cancel e (o_id (c_order c)) of
                None \<Rightarrow> None
              | Some (rep, e') \<Rightarrow>
                  Some (\<lparr>res_report = rep, res_trades = []\<rparr>, sh\<lparr>sh_engines := (sh_engines sh)(k \<mapsto> e')\<rparr>)))"

text \<open>After the critical section: the trade log, the counters and the latency.\<close>

definition latency_ns :: "int \<Rightarrow> int \<Rightarrow> u64" where
  "latency_ns now enqueued_at = (let latency = now - enqueued_at in if latency < 0 then 0 else of_int latency)"

definition account :: "Command \<Rightarrow> PartitionedCommandResult \<Rightarrow> int \<Rightarrow> PartitionedMatchingEngine \<Rightarrow> PartitionedMatchingEngine" where
  "account c r now pe = pe\<lparr>
     pe_trade_log := fold (record_trade (c_symbol c)) (res_trades r) (pe_trade_log pe),
     pe_processed := pe_processed pe + 1,
     pe_accepted := (if accepted (res_report r) then pe_accepted pe + 1 else pe_accepted pe),
     pe_rejected := (if accepted (res_report r) then pe_rejected pe else pe_rejected pe + 1),
     pe_trades := pe_trades pe + of_nat (length (res_trades r)),
     pe_latency := record_latency (latency_ns now (c_enqueued_at c)) (pe_latency pe)\<rparr>"

section \<open>Observers\<close>

definition pe_snapshot :: "PartitionedMatchingEngine \<Rightarrow> Symbol \<Rightarrow> Snapshot" where
  "pe_snapshot pe s = (case sh_engines (shardFor pe s) (symbol_key s) of
     None \<Rightarrow> \<lparr>sn_exists = False, sn_best_bid = None, sn_best_ask = None, sn_order_count = 0, sn_buy_depth = 0,
       sn_sell_depth = 0, sn_sequence = 0\<rparr>
   | Some e \<Rightarrow> \<lparr>sn_exists = True, sn_best_bid = bestBid (book e), sn_best_ask = bestAsk (book e),
       sn_order_count = orderCount (book e), sn_buy_depth = depth (book e) BUY, sn_sell_depth = depth (book e) SELL,
       sn_sequence = sequence e\<rparr>)"

definition pe_validate :: "PartitionedMatchingEngine \<Rightarrow> Symbol \<Rightarrow> bool" where
  "pe_validate pe s = (case sh_engines (shardFor pe s) (symbol_key s) of
     None \<Rightarrow> True | Some e \<Rightarrow> checkInvariants (book e))"

definition pe_stats :: "PartitionedMatchingEngine \<Rightarrow> PartitionedEngineStats" where
  "pe_stats pe = \<lparr>ps_submitted = pe_submitted pe, ps_processed = pe_processed pe, ps_accepted = pe_accepted pe,
     ps_rejected = pe_rejected pe, ps_trades = pe_trades pe, ps_pending = pe_pending pe,
     ps_max_queue_high_watermark = fold (\<lambda>sh m. max m (high_watermark (sh_queue sh))) (pe_shards pe) 0,
     ps_end_to_end_latency = snapshot_latency (pe_latency pe)\<rparr>"

section \<open>A command is a command of the symbol's engine\<close>

definition engine_command :: "Command \<Rightarrow> EngineCommand" where
  "engine_command c = (case c_type c of NEW_ORDER \<Rightarrow> New (c_order c) | CANCEL_ORDER \<Rightarrow> Cancel (o_id (c_order c)))"

definition engine_of :: "RiskLimits \<Rightarrow> Shard \<Rightarrow> string \<Rightarrow> MatchingEngine" where
  "engine_of l sh k = (case sh_engines sh k of None \<Rightarrow> init_engine l | Some e \<Rightarrow> e)"

lemma run_command_engine:
  "run_command l c sh =
    (case apply_command (engine_of l sh (symbol_key (c_symbol c))) (engine_command c) of
       None \<Rightarrow> None
     | Some ((rep, ts), e') \<Rightarrow> Some (\<lparr>res_report = rep, res_trades = ts\<rparr>,
         sh\<lparr>sh_engines := (sh_engines sh)(symbol_key (c_symbol c) \<mapsto> e')\<rparr>))"
  by (auto simp: run_command_def apply_command_def engine_command_def engine_of_def Let_def
      split: CommandType.splits option.splits)

lemma run_command_keeps:
  assumes "run_command l c sh = Some (r, sh')"
  shows "sh_queue sh' = sh_queue sh"
  using assms by (auto simp: run_command_engine split: option.splits)

lemma make_partitioned_ok:
  assumes "make_partitioned n cap l d = Inr pe"
  shows "0 < n \<and> 0 < cap \<and> pe_shard_count pe = n \<and> pe_risk_limits pe = l \<and> length (pe_shards pe) = unat n \<and>
    (\<forall>sh \<in> set (pe_shards pe). mpmc_ok (sh_queue sh) \<and> buffer (sh_queue sh) = [] \<and> \<not> mq_closed (sh_queue sh) \<and>
       mq_capacity (sh_queue sh) = cap \<and> sh_engines sh = Map.empty) \<and>
    pe_accepting pe \<and> pe_pending pe = 0 \<and> pe_trade_log pe = make_log d \<and>
    pe_processed pe = 0 \<and> pe_accepted pe = 0 \<and> pe_rejected pe = 0"
  using assms mpmc_ok_make [of cap]
  by (auto simp: make_partitioned_def mpmc_make_def word_gt_0 split: if_splits sum.splits)

end
