(* ===== verification/Partitioned_System.thy ===== *)
theory Partitioned_System
  imports Partitioned_Engine Engine_Properties
begin

text \<open>
  The threads of the partitioned engine: callers that enqueue commands, one owner per shard, threads
  that wait until the engine is idle, and the shutdown. Each access to an atomic, each operation of a
  queue and each critical section is a step; the steps of the threads interleave in any order.
\<close>

section \<open>Threads and steps\<close>

text \<open>A caller: the command it holds, and whether it may block.\<close>

datatype caller =
    C_Idle | C_Admitted Command bool | C_Counted Command bool | C_Pushed
  | C_Refused Command | C_Notify Command | C_Failed Command

datatype owner =
    W_Pop | W_Run Command | W_Account Command PartitionedCommandResult | W_Complete Command PartitionedCommandResult
  | W_Finish | W_Notify | W_Done

text \<open>A waiter has evaluated its condition before it falls asleep: two steps, for the code that
  finishes a command does not hold the waiters' mutex.\<close>

datatype waiter = I_Out | I_Check | I_Falling | I_Asleep | I_Done

datatype closer = S_Out | S_Close nat | S_Join nat | S_Notify | S_Done

record system =
  eng :: PartitionedMatchingEngine
  callers :: "caller list"
  owners :: "nat \<Rightarrow> owner"
  waiters :: "waiter list"
  closing :: closer
  arrived :: "nat \<Rightarrow> Command list"
  executed :: "nat \<Rightarrow> (Command \<times> PartitionedCommandResult) list"
  completions :: "(nat \<times> PartitionedCommandResult) list"

definition shard_count :: "system \<Rightarrow> nat" where
  "shard_count s = unat (pe_shard_count (eng s))"

definition queue_at :: "system \<Rightarrow> nat \<Rightarrow> Command MPMCQueue" where
  "queue_at s i = sh_queue (pe_shards (eng s) ! i)"

definition set_shard :: "system \<Rightarrow> nat \<Rightarrow> Shard \<Rightarrow> system" where
  "set_shard s i sh = s\<lparr>eng := (eng s)\<lparr>pe_shards := (pe_shards (eng s))[i := sh]\<rparr>\<rparr>"

definition set_queue :: "system \<Rightarrow> nat \<Rightarrow> Command MPMCQueue \<Rightarrow> system" where
  "set_queue s i q = set_shard s i ((pe_shards (eng s) ! i)\<lparr>sh_queue := q\<rparr>)"

definition caller_at :: "system \<Rightarrow> nat \<Rightarrow> caller \<Rightarrow> bool" where
  "caller_at s j c \<longleftrightarrow> j < length (callers s) \<and> callers s ! j = c"

definition set_caller :: "system \<Rightarrow> nat \<Rightarrow> caller \<Rightarrow> system" where
  "set_caller s j c = s\<lparr>callers := (callers s)[j := c]\<rparr>"

definition set_owner :: "system \<Rightarrow> nat \<Rightarrow> owner \<Rightarrow> system" where
  "set_owner s i w = s\<lparr>owners := (owners s)(i := w)\<rparr>"

definition waiter_at :: "system \<Rightarrow> nat \<Rightarrow> waiter \<Rightarrow> bool" where
  "waiter_at s j w \<longleftrightarrow> j < length (waiters s) \<and> waiters s ! j = w"

definition set_waiter :: "system \<Rightarrow> nat \<Rightarrow> waiter \<Rightarrow> system" where
  "set_waiter s j w = s\<lparr>waiters := (waiters s)[j := w]\<rparr>"

definition notify_idle :: "system \<Rightarrow> system" where
  "notify_idle s = s\<lparr>waiters := map (\<lambda>w. if w = I_Asleep then I_Check else w) (waiters s)\<rparr>"

definition finish_pending :: "system \<Rightarrow> system" where
  "finish_pending s = s\<lparr>eng := snd (finishOnePending (eng s))\<rparr>"

definition complete :: "system \<Rightarrow> Command \<Rightarrow> PartitionedCommandResult \<Rightarrow> system" where
  "complete s c r = (case c_completion c of
     None \<Rightarrow> s | Some p \<Rightarrow> s\<lparr>completions := completions s @ [(p, r)]\<rparr>)"

abbreviation shard_id :: "system \<Rightarrow> Command \<Rightarrow> nat" where
  "shard_id s c \<equiv> shardIndex (eng s) (c_symbol c)"

inductive part_step :: "system \<Rightarrow> system \<Rightarrow> bool" where
  call_refused: "caller_at s j C_Idle \<Longrightarrow> \<not> pe_accepting (eng s) \<Longrightarrow>
    part_step s (set_caller s j (C_Failed c))"
| call: "caller_at s j C_Idle \<Longrightarrow> pe_accepting (eng s) \<Longrightarrow> command_valid (engine_command c) \<Longrightarrow>
    part_step s (set_caller s j (C_Admitted c b))"
| count: "caller_at s j (C_Admitted c b) \<Longrightarrow>
    part_step s (set_caller (s\<lparr>eng := (eng s)\<lparr>pe_pending := pe_pending (eng s) + 1\<rparr>\<rparr>) j (C_Counted c b))"
| push: "caller_at s j (C_Counted c True) \<Longrightarrow> mpmc_push (queue_at s (shard_id s c)) c = Some (True, q) \<Longrightarrow>
    part_step s ((set_caller (set_queue s (shard_id s c) q) j C_Pushed)
      \<lparr>arrived := (arrived s)(shard_id s c := arrived s (shard_id s c) @ [c])\<rparr>)"
| push_refused: "caller_at s j (C_Counted c True) \<Longrightarrow> mpmc_push (queue_at s (shard_id s c)) c = Some (False, q) \<Longrightarrow>
    part_step s (set_caller (set_queue s (shard_id s c) q) j (C_Refused c))"
| try_push: "caller_at s j (C_Counted c False) \<Longrightarrow> mpmc_try_push (queue_at s (shard_id s c)) c = Some q \<Longrightarrow>
    part_step s ((set_caller (set_queue s (shard_id s c) q) j C_Pushed)
      \<lparr>arrived := (arrived s)(shard_id s c := arrived s (shard_id s c) @ [c])\<rparr>)"
| try_push_refused: "caller_at s j (C_Counted c False) \<Longrightarrow> mpmc_try_push (queue_at s (shard_id s c)) c = None \<Longrightarrow>
    part_step s (set_caller s j (C_Refused c))"
| submitted: "caller_at s j C_Pushed \<Longrightarrow>
    part_step s (set_caller (s\<lparr>eng := (eng s)\<lparr>pe_submitted := pe_submitted (eng s) + 1\<rparr>\<rparr>) j C_Idle)"
| refused: "caller_at s j (C_Refused c) \<Longrightarrow>
    part_step s (set_caller (finish_pending s) j (if fst (finishOnePending (eng s)) then C_Notify c else C_Failed c))"
| refused_notify: "caller_at s j (C_Notify c) \<Longrightarrow>
    part_step s (set_caller (notify_idle s) j (C_Failed c))"
| failed: "caller_at s j (C_Failed c) \<Longrightarrow>
    part_step s (set_caller (complete s c (completeRejected (o_id (c_order c)) (c_type c) ENGINE_SHUTTING_DOWN)) j C_Idle)"
| pop: "i < shard_count s \<Longrightarrow> owners s i = W_Pop \<Longrightarrow> mpmc_pop (queue_at s i) = Some (Some c, q) \<Longrightarrow>
    part_step s (set_owner (set_queue s i q) i (W_Run c))"
| pop_end: "i < shard_count s \<Longrightarrow> owners s i = W_Pop \<Longrightarrow> mpmc_pop (queue_at s i) = Some (None, q) \<Longrightarrow>
    part_step s (set_owner (set_queue s i q) i W_Done)"
| run: "i < shard_count s \<Longrightarrow> owners s i = W_Run c \<Longrightarrow>
    run_command (pe_risk_limits (eng s)) c (pe_shards (eng s) ! i) = Some (r, sh) \<Longrightarrow>
    part_step s ((set_owner (set_shard s i sh) i (W_Account c r))\<lparr>executed := (executed s)(i := executed s i @ [(c, r)])\<rparr>)"
| account: "i < shard_count s \<Longrightarrow> owners s i = W_Account c r \<Longrightarrow>
    part_step s (set_owner (s\<lparr>eng := account c r now (eng s)\<rparr>) i (W_Complete c r))"
| complete: "i < shard_count s \<Longrightarrow> owners s i = W_Complete c r \<Longrightarrow>
    part_step s (set_owner (complete s c r) i W_Finish)"
| finish: "i < shard_count s \<Longrightarrow> owners s i = W_Finish \<Longrightarrow>
    part_step s (set_owner (finish_pending s) i (if fst (finishOnePending (eng s)) then W_Notify else W_Pop))"
| finish_notify: "i < shard_count s \<Longrightarrow> owners s i = W_Notify \<Longrightarrow>
    part_step s (set_owner (notify_idle s) i W_Pop)"
| wait: "waiter_at s j I_Out \<Longrightarrow> part_step s (set_waiter s j I_Check)"
| wait_idle: "waiter_at s j I_Check \<Longrightarrow> pe_pending (eng s) = 0 \<Longrightarrow> part_step s (set_waiter s j I_Done)"
| wait_busy: "waiter_at s j I_Check \<Longrightarrow> pe_pending (eng s) \<noteq> 0 \<Longrightarrow> part_step s (set_waiter s j I_Falling)"
| wait_sleep: "waiter_at s j I_Falling \<Longrightarrow> part_step s (set_waiter s j I_Asleep)"
| wait_spurious: "waiter_at s j I_Asleep \<Longrightarrow> part_step s (set_waiter s j I_Check)"
| shutdown: "closing s = S_Out \<Longrightarrow> pe_accepting (eng s) \<Longrightarrow>
    part_step s (s\<lparr>eng := (eng s)\<lparr>pe_accepting := False\<rparr>, closing := S_Close 0\<rparr>)"
| close_queue: "closing s = S_Close i \<Longrightarrow> i < shard_count s \<Longrightarrow>
    part_step s ((set_queue s i (mpmc_close (queue_at s i)))\<lparr>closing := S_Close (Suc i)\<rparr>)"
| all_closed: "closing s = S_Close i \<Longrightarrow> i = shard_count s \<Longrightarrow>
    part_step s (s\<lparr>closing := S_Join 0\<rparr>)"
| join: "closing s = S_Join i \<Longrightarrow> i < shard_count s \<Longrightarrow> owners s i = W_Done \<Longrightarrow>
    part_step s (s\<lparr>closing := S_Join (Suc i)\<rparr>)"
| all_joined: "closing s = S_Join i \<Longrightarrow> i = shard_count s \<Longrightarrow>
    part_step s (s\<lparr>closing := S_Notify\<rparr>)"
| shutdown_notify: "closing s = S_Notify \<Longrightarrow>
    part_step s ((notify_idle s)\<lparr>closing := S_Done\<rparr>)"

definition part_start :: "PartitionedMatchingEngine \<Rightarrow> nat \<Rightarrow> nat \<Rightarrow> system" where
  "part_start pe ncallers nwaiters = \<lparr>eng = pe, callers = replicate ncallers C_Idle, owners = (\<lambda>_. W_Pop),
     waiters = replicate nwaiters I_Out, closing = S_Out, arrived = (\<lambda>_. []), executed = (\<lambda>_. []), completions = []\<rparr>"

section \<open>What each shard keeps\<close>

definition in_hand :: "owner \<Rightarrow> Command list" where
  "in_hand w = (case w of W_Run c \<Rightarrow> [c] | _ \<Rightarrow> [])"

definition runs_of :: "string \<Rightarrow> (Command \<times> PartitionedCommandResult) list \<Rightarrow> (Command \<times> PartitionedCommandResult) list" where
  "runs_of k rs = filter (\<lambda>(c, r). symbol_key (c_symbol c) = k) rs"

definition outcome :: "PartitionedCommandResult \<Rightarrow> ExecutionReport \<times> Trade list" where
  "outcome r = (res_report r, res_trades r)"

text \<open>
  The commands that arrived at a shard are those that executed, then the one in the owner's hand, then those
  in the queue; and the engine of every symbol is what the symbol's commands among those that executed give.
\<close>

definition shard_inv ::
  "u64 \<Rightarrow> RiskLimits \<Rightarrow> nat \<Rightarrow> Shard \<Rightarrow> owner \<Rightarrow> Command list \<Rightarrow> (Command \<times> PartitionedCommandResult) list \<Rightarrow> bool" where
  "shard_inv n l i sh w as rs \<longleftrightarrow> mpmc_ok (sh_queue sh) \<and>
     as = map fst rs @ in_hand w @ buffer (sh_queue sh) \<and>
     (w = W_Done \<longrightarrow> mq_closed (sh_queue sh) \<and> buffer (sh_queue sh) = []) \<and>
     (\<forall>c \<in> set as. shard_of n (c_symbol c) = i \<and> command_valid (engine_command c)) \<and>
     (\<forall>k. run_engine (init_engine l) (map (engine_command \<circ> fst) (runs_of k rs)) =
        Some (map (outcome \<circ> snd) (runs_of k rs), engine_of l sh k))"

text \<open>The price field of an order in a caller's hands is an \<open>int64_t\<close>.\<close>

definition caller_ok :: "caller \<Rightarrow> bool" where
  "caller_ok x = (case x of
     C_Admitted c b \<Rightarrow> command_valid (engine_command c) | C_Counted c b \<Rightarrow> command_valid (engine_command c) | _ \<Rightarrow> True)"

definition shards_inv :: "system \<Rightarrow> bool" where
  "shards_inv s \<longleftrightarrow> length (pe_shards (eng s)) = shard_count s \<and> 0 < pe_shard_count (eng s) \<and>
     (\<forall>i < shard_count s. shard_inv (pe_shard_count (eng s)) (pe_risk_limits (eng s)) i (pe_shards (eng s) ! i)
        (owners s i) (arrived s i) (executed s i)) \<and>
     list_all caller_ok (callers s)"

lemma shard_inv_push:
  assumes "shard_inv n l i sh w as rs" and "mpmc_push (sh_queue sh) c = Some (True, q) \<or> mpmc_try_push (sh_queue sh) c = Some q"
    and "shard_of n (c_symbol c) = i" and "command_valid (engine_command c)"
  shows "shard_inv n l i (sh\<lparr>sh_queue := q\<rparr>) w (as @ [c]) rs"
proof -
  have q: "q = mpmc_store (sh_queue sh) c" "\<not> mq_closed (sh_queue sh)" "mpmc_size (sh_queue sh) < mq_capacity (sh_queue sh)"
    using assms(2) by (auto simp: mpmc_push_def mpmc_try_push_def split: if_splits)
  with assms mpmc_store_ok [of "sh_queue sh" c] show ?thesis
    by (auto simp: shard_inv_def engine_of_def)
qed

lemma shard_inv_pop:
  assumes "shard_inv n l i sh W_Pop as rs" and "mpmc_pop (sh_queue sh) = Some (Some c, q)"
  shows "shard_inv n l i (sh\<lparr>sh_queue := q\<rparr>) (W_Run c) as rs"
  using assms mpmc_take_ok [of "sh_queue sh"]
  by (auto simp: shard_inv_def mpmc_pop_def in_hand_def engine_of_def split: if_splits)

lemma shard_inv_end:
  assumes "shard_inv n l i sh W_Pop as rs" and "mpmc_pop (sh_queue sh) = Some (None, q)"
  shows "shard_inv n l i (sh\<lparr>sh_queue := q\<rparr>) W_Done as rs"
  using assms by (auto simp: shard_inv_def mpmc_pop_def in_hand_def engine_of_def split: if_splits)

lemma shard_inv_run:
  assumes "shard_inv n l i sh (W_Run c) as rs" and "run_command l c sh = Some (r, sh')"
  shows "shard_inv n l i sh' (W_Account c r) as (rs @ [(c, r)])"
proof -
  from assms(2) obtain rep ts e' where
    a: "apply_command (engine_of l sh (symbol_key (c_symbol c))) (engine_command c) = Some ((rep, ts), e')"
    and r: "r = \<lparr>res_report = rep, res_trades = ts\<rparr>"
    and sh': "sh' = sh\<lparr>sh_engines := (sh_engines sh)(symbol_key (c_symbol c) \<mapsto> e')\<rparr>"
    by (auto simp: run_command_engine split: option.splits)
  have "run_engine (init_engine l) (map (engine_command \<circ> fst) (runs_of k (rs @ [(c, r)]))) =
      Some (map (outcome \<circ> snd) (runs_of k (rs @ [(c, r)])), engine_of l sh' k)" for k
  proof (cases "symbol_key (c_symbol c) = k")
    case True
    then show ?thesis using assms(1) a r sh'
      by (simp add: shard_inv_def runs_of_def run_machine_append outcome_def engine_of_def)
  next
    case False
    then show ?thesis using assms(1) sh' by (simp add: shard_inv_def runs_of_def engine_of_def)
  qed
  then show ?thesis using assms(1) sh' by (simp add: shard_inv_def in_hand_def)
qed

lemma shard_inv_owner:
  "shard_inv n l i sh w as rs \<Longrightarrow> in_hand w' = in_hand w \<Longrightarrow> w' \<noteq> W_Done \<Longrightarrow> shard_inv n l i sh w' as rs"
  by (simp add: shard_inv_def)

lemma shard_inv_close:
  "shard_inv n l i sh w as rs \<Longrightarrow> shard_inv n l i (sh\<lparr>sh_queue := mpmc_close (sh_queue sh)\<rparr>) w as rs"
  using mpmc_close_ok [of "sh_queue sh"] by (auto simp: shard_inv_def mpmc_close_def engine_of_def)

lemmas updates = set_shard_def set_queue_def set_caller_def set_owner_def set_waiter_def notify_idle_def
  finish_pending_def finishOnePending_def shard_count_def queue_at_def

lemma complete_fields [simp]:
  "eng (complete s c r) = eng s" "callers (complete s c r) = callers s" "owners (complete s c r) = owners s"
  "arrived (complete s c r) = arrived s" "executed (complete s c r) = executed s" "closing (complete s c r) = closing s"
  "waiters (complete s c r) = waiters s"
  by (simp_all add: complete_def split: option.splits)

lemma account_fields [simp]:
  "pe_shards (account c r t pe) = pe_shards pe" "pe_shard_count (account c r t pe) = pe_shard_count pe"
  "pe_risk_limits (account c r t pe) = pe_risk_limits pe" "pe_pending (account c r t pe) = pe_pending pe"
  "pe_accepting (account c r t pe) = pe_accepting pe"
  by (simp_all add: account_def)

lemma list_all_update: "list_all P xs \<Longrightarrow> P y \<Longrightarrow> list_all P (xs[j := y])"
  by (auto simp: list_all_iff dest!: subsetD [OF set_update_subset_insert])

lemma caller_at_ok: "caller_at s j x \<Longrightarrow> list_all caller_ok (callers s) \<Longrightarrow> caller_ok x"
  by (auto simp: caller_at_def list_all_length)

lemma shard_id_less: "shards_inv s \<Longrightarrow> shard_id s c < shard_count s"
  by (simp add: shards_inv_def shardIndex_def shard_count_def shard_of_less)

text \<open>A step that changes one shard keeps the invariant if it keeps it for that shard.\<close>

lemma shards_inv_update:
  assumes "shards_inv s" and "i < shard_count s"
    and "pe_shards (eng s') = (pe_shards (eng s))[i := sh]" and "pe_shard_count (eng s') = pe_shard_count (eng s)"
    and "pe_risk_limits (eng s') = pe_risk_limits (eng s)"
    and "shard_inv (pe_shard_count (eng s)) (pe_risk_limits (eng s)) i sh (owners s' i) (arrived s' i) (executed s' i)"
    and "\<And>k. k \<noteq> i \<Longrightarrow> owners s' k = owners s k \<and> arrived s' k = arrived s k \<and> executed s' k = executed s k"
    and "list_all caller_ok (callers s')"
  shows "shards_inv s'"
  using assms by (auto simp: shards_inv_def shard_count_def nth_list_update)

text \<open>A step that changes no shard keeps it if the owners keep what they have in hand.\<close>

lemma shards_inv_same:
  assumes "shards_inv s"
    and "pe_shards (eng s') = pe_shards (eng s)" and "pe_shard_count (eng s') = pe_shard_count (eng s)"
    and "pe_risk_limits (eng s') = pe_risk_limits (eng s)" and "arrived s' = arrived s" and "executed s' = executed s"
    and "owners s' = owners s" and "list_all caller_ok (callers s')"
  shows "shards_inv s'"
  using assms by (simp add: shards_inv_def shard_count_def)

lemma shards_inv_at:
  "shards_inv s \<Longrightarrow> i < shard_count s \<Longrightarrow>
    shard_inv (pe_shard_count (eng s)) (pe_risk_limits (eng s)) i (pe_shards (eng s) ! i) (owners s i) (arrived s i) (executed s i)"
  by (simp add: shards_inv_def)

lemma shards_inv_owner:
  assumes "shards_inv s" and "i < shard_count s" and "in_hand w = in_hand (owners s i)" and "w \<noteq> W_Done"
  shows "shards_inv (set_owner s i w)"
  using shards_inv_update [OF assms(1,2), of "set_owner s i w" "pe_shards (eng s) ! i"] shards_inv_at [OF assms(1,2)]
    assms shard_inv_owner
  by (simp add: set_owner_def shards_inv_def)

lemma shards_inv_arrive:
  assumes "shards_inv s" and "caller_at s j (C_Counted c b)" and "i = shard_id s c"
    and "mpmc_push (queue_at s i) c = Some (True, q) \<or> mpmc_try_push (queue_at s i) c = Some q"
  shows "shards_inv ((set_caller (set_queue s i q) j C_Pushed)\<lparr>arrived := (arrived s)(i := arrived s i @ [c])\<rparr>)"
proof -
  have i: "i < shard_count s" using shard_id_less [OF assms(1)] assms(3) by simp
  note inv = shards_inv_at [OF assms(1) i]
  have "command_valid (engine_command c)"
    using caller_at_ok [OF assms(2)] assms(1) by (simp add: shards_inv_def caller_ok_def)
  moreover have "shard_of (pe_shard_count (eng s)) (c_symbol c) = i" using assms(3) by (simp add: shardIndex_def)
  ultimately have "shard_inv (pe_shard_count (eng s)) (pe_risk_limits (eng s)) i ((pe_shards (eng s) ! i)\<lparr>sh_queue := q\<rparr>)
      (owners s i) (arrived s i @ [c]) (executed s i)"
    using shard_inv_push [OF inv assms(4) [unfolded queue_at_def]] by blast
  moreover have "list_all caller_ok ((callers s)[j := C_Pushed])"
    using assms(1) by (simp add: shards_inv_def list_all_update caller_ok_def)
  ultimately show ?thesis
    using shards_inv_update [OF assms(1) i] by (simp add: set_caller_def set_queue_def set_shard_def)
qed

lemma shards_inv_caller: "shards_inv s \<Longrightarrow> caller_ok x \<Longrightarrow> shards_inv (set_caller s j x)"
  by (rule shards_inv_same) (auto simp: set_caller_def shards_inv_def list_all_update)

lemma shards_inv_others:
  assumes "shards_inv s"
  shows "shards_inv (set_waiter s j w)" "shards_inv (notify_idle s)" "shards_inv (finish_pending s)"
    "shards_inv (complete s c r)" "shards_inv (s\<lparr>closing := x\<rparr>)" "shards_inv (s\<lparr>eng := account c r t (eng s)\<rparr>)"
    "shards_inv (s\<lparr>eng := (eng s)\<lparr>pe_pending := n\<rparr>\<rparr>)" "shards_inv (s\<lparr>eng := (eng s)\<lparr>pe_submitted := n\<rparr>\<rparr>)"
    "shards_inv (s\<lparr>eng := (eng s)\<lparr>pe_accepting := b\<rparr>\<rparr>)"
  using assms
  by (simp_all add: set_waiter_def notify_idle_def finish_pending_def finishOnePending_def shards_inv_def shard_count_def)

lemma set_queue_same: "set_queue s i (queue_at s i) = s"
  by (simp add: set_queue_def set_shard_def queue_at_def)

lemma shards_inv_pop:
  assumes "shards_inv s" and "i < shard_count s" and "owners s i = W_Pop" and "mpmc_pop (queue_at s i) = Some (x, q)"
  shows "shards_inv (set_owner (set_queue s i q) i (case x of None \<Rightarrow> W_Done | Some c \<Rightarrow> W_Run c))"
proof -
  let ?sh = "(pe_shards (eng s) ! i)\<lparr>sh_queue := q\<rparr>"
  note inv = shards_inv_at [OF assms(1,2), unfolded assms(3)]
  have "shard_inv (pe_shard_count (eng s)) (pe_risk_limits (eng s)) i ?sh
      (case x of None \<Rightarrow> W_Done | Some c \<Rightarrow> W_Run c) (arrived s i) (executed s i)"
    using shard_inv_pop [OF inv] shard_inv_end [OF inv] assms(4) by (cases x) (simp_all add: queue_at_def)
  moreover have "list_all caller_ok (callers s)" using assms(1) by (simp add: shards_inv_def)
  ultimately show ?thesis
    using shards_inv_update [OF assms(1,2)] by (simp add: set_owner_def set_queue_def set_shard_def)
qed

lemma shards_inv_run:
  assumes "shards_inv s" and "i < shard_count s" and "owners s i = W_Run c"
    and "run_command (pe_risk_limits (eng s)) c (pe_shards (eng s) ! i) = Some (r, sh)"
  shows "shards_inv ((set_owner (set_shard s i sh) i (W_Account c r))\<lparr>executed := (executed s)(i := executed s i @ [(c, r)])\<rparr>)"
proof -
  note inv = shard_inv_run [OF shards_inv_at [OF assms(1,2), unfolded assms(3)] assms(4)]
  moreover have "list_all caller_ok (callers s)" using assms(1) by (simp add: shards_inv_def)
  ultimately show ?thesis
    using shards_inv_update [OF assms(1,2)] by (simp add: set_owner_def set_shard_def)
qed

lemma shards_inv_close:
  assumes "shards_inv s" and "i < shard_count s"
  shows "shards_inv (set_queue s i (mpmc_close (queue_at s i)))"
proof -
  note inv = shard_inv_close [OF shards_inv_at [OF assms]]
  moreover have "list_all caller_ok (callers s)" using assms(1) by (simp add: shards_inv_def)
  ultimately show ?thesis
    using shards_inv_update [OF assms] by (simp add: set_queue_def set_shard_def queue_at_def)
qed

lemma owners_others [simp]:
  "owners (set_waiter s j w) = owners s" "owners (notify_idle s) = owners s" "owners (finish_pending s) = owners s"
  "shard_count (notify_idle s) = shard_count s" "shard_count (finish_pending s) = shard_count s"
  "shard_count (complete s c r) = shard_count s"
  by (simp_all add: set_waiter_def notify_idle_def finish_pending_def finishOnePending_def shard_count_def)

lemma shards_inv_step:
  assumes "part_step s s'" and "shards_inv s"
  shows "shards_inv s'"
  using assms
proof (induction rule: part_step.induct)
  case (push_refused s j c q)
  then have "q = queue_at s (shard_id s c)" by (auto simp: mpmc_push_def split: if_splits)
  then show ?case using push_refused(3) by (simp add: set_queue_same shards_inv_caller caller_ok_def)
next
  case (count s j c b)
  then have "caller_ok (C_Counted c b)" using caller_at_ok by (fastforce simp: shards_inv_def caller_ok_def)
  then show ?case using count by (intro shards_inv_caller shards_inv_others)
next
  case (pop i s c q)
  then show ?case using shards_inv_pop [OF pop(4,1,2), of "Some c"] by simp
next
  case (pop_end i s q)
  then show ?case using shards_inv_pop [OF pop_end(4,1,2), of None] by simp
next
  case (account i s c r now)
  have "shards_inv (s\<lparr>eng := account c r now (eng s)\<rparr>)" by (rule shards_inv_others) (rule account)
  then show ?case using account by (intro shards_inv_owner) (simp_all add: in_hand_def shard_count_def)
next
  case (shutdown s)
  then show ?case using shards_inv_others(5) [OF shards_inv_others(9) [OF shutdown(3), of False]] by simp
qed (auto intro!: shards_inv_caller shards_inv_others shards_inv_owner shards_inv_arrive shards_inv_run shards_inv_close
    simp: caller_ok_def in_hand_def)

section \<open>Pending commands\<close>

definition counted_caller :: "caller \<Rightarrow> bool" where
  "counted_caller x = (case x of C_Counted c b \<Rightarrow> True | C_Refused c \<Rightarrow> True | _ \<Rightarrow> False)"

definition busy :: "owner \<Rightarrow> nat" where
  "busy w = (case w of W_Run c \<Rightarrow> 1 | W_Account c r \<Rightarrow> 1 | W_Complete c r \<Rightarrow> 1 | W_Finish \<Rightarrow> 1 | _ \<Rightarrow> 0)"

text \<open>The commands between the increment of the counter and its decrement.\<close>

definition load :: "system \<Rightarrow> nat" where
  "load s = length (filter counted_caller (callers s)) +
     (\<Sum>i < shard_count s. length (buffer (queue_at s i)) + busy (owners s i))"

definition pending_inv :: "system \<Rightarrow> bool" where
  "pending_inv s \<longleftrightarrow> pe_pending (eng s) = of_nat (load s)"

lemma sum_update:
  fixes f :: "nat \<Rightarrow> nat"
  assumes "i < n" and "\<And>j. j < n \<Longrightarrow> j \<noteq> i \<Longrightarrow> f' j = f j"
  shows "(\<Sum>j < n. f' j) + f i = (\<Sum>j < n. f j) + f' i"
proof -
  have "(\<Sum>j < n. f' j) = f' i + (\<Sum>j \<in> {..<n} - {i}. f' j)" "(\<Sum>j < n. f j) = f i + (\<Sum>j \<in> {..<n} - {i}. f j)"
    using assms(1) by (simp_all add: sum.remove)
  moreover have "(\<Sum>j \<in> {..<n} - {i}. f' j) = (\<Sum>j \<in> {..<n} - {i}. f j)"
    using assms(2) by (intro sum.cong) auto
  ultimately show ?thesis by simp
qed

lemma load_caller:
  assumes "caller_at s j x"
  shows "load (set_caller s j y) + (if counted_caller x then 1 else 0) = load s + (if counted_caller y then 1 else 0)"
  using assms filter_update_count [of j "callers s" counted_caller y]
  by (simp add: load_def set_caller_def caller_at_def shard_count_def queue_at_def)

lemma load_owner:
  assumes "i < shard_count s"
  shows "load (set_owner s i w) + busy (owners s i) = load s + busy w"
proof -
  let ?f = "\<lambda>s j. length (buffer (queue_at s j)) + busy (owners s j)"
  have "(\<Sum>j < shard_count s. ?f (set_owner s i w) j) + ?f s i = (\<Sum>j < shard_count s. ?f s j) + ?f (set_owner s i w) i"
    by (rule sum_update) (simp_all add: assms set_owner_def queue_at_def)
  moreover have "shard_count (set_owner s i w) = shard_count s" "callers (set_owner s i w) = callers s"
    "queue_at (set_owner s i w) i = queue_at s i" "owners (set_owner s i w) i = w"
    by (simp_all add: set_owner_def shard_count_def queue_at_def)
  ultimately show ?thesis by (simp add: load_def)
qed

lemma load_shard:
  assumes "i < shard_count s" and "length (pe_shards (eng s)) = shard_count s"
  shows "load (set_shard s i sh) + length (buffer (queue_at s i)) = load s + length (buffer (sh_queue sh))"
proof -
  let ?f = "\<lambda>s j. length (buffer (queue_at s j)) + busy (owners s j)"
  have "(\<Sum>j < shard_count s. ?f (set_shard s i sh) j) + ?f s i = (\<Sum>j < shard_count s. ?f s j) + ?f (set_shard s i sh) i"
    by (rule sum_update) (simp_all add: assms set_shard_def queue_at_def)
  moreover have "shard_count (set_shard s i sh) = shard_count s" "callers (set_shard s i sh) = callers s"
    "queue_at (set_shard s i sh) i = sh_queue sh" "owners (set_shard s i sh) i = owners s i"
    using assms by (simp_all add: set_shard_def shard_count_def queue_at_def)
  ultimately show ?thesis by (simp add: load_def)
qed

lemma load_queue:
  assumes "i < shard_count s" and "length (pe_shards (eng s)) = shard_count s"
  shows "load (set_queue s i q) + length (buffer (queue_at s i)) = load s + length (buffer q)"
  using load_shard [OF assms] by (simp add: set_queue_def)

lemma load_others [simp]:
  "load (set_waiter s j w) = load s" "load (notify_idle s) = load s" "load (finish_pending s) = load s"
  "load (complete s c r) = load s" "load (s\<lparr>closing := x\<rparr>) = load s" "load (s\<lparr>arrived := a\<rparr>) = load s"
  "load (s\<lparr>executed := e\<rparr>) = load s" "load (s\<lparr>eng := account c r t (eng s)\<rparr>) = load s"
  "load (s\<lparr>eng := (eng s)\<lparr>pe_pending := n\<rparr>\<rparr>) = load s" "load (s\<lparr>eng := (eng s)\<lparr>pe_submitted := n\<rparr>\<rparr>) = load s"
  "load (s\<lparr>eng := (eng s)\<lparr>pe_accepting := b\<rparr>\<rparr>) = load s"
  by (simp_all add: load_def set_waiter_def notify_idle_def finish_pending_def finishOnePending_def shard_count_def queue_at_def)

lemma pending_fields [simp]:
  "pe_pending (eng (set_caller s j x)) = pe_pending (eng s)" "pe_pending (eng (set_owner s i w)) = pe_pending (eng s)"
  "pe_pending (eng (set_shard s i sh)) = pe_pending (eng s)" "pe_pending (eng (set_queue s i q)) = pe_pending (eng s)"
  "pe_pending (eng (set_waiter s j v)) = pe_pending (eng s)" "pe_pending (eng (notify_idle s)) = pe_pending (eng s)"
  "pe_pending (eng (finish_pending s)) = pe_pending (eng s) - 1"
  by (simp_all add: set_caller_def set_owner_def set_shard_def set_queue_def set_waiter_def notify_idle_def
      finish_pending_def finishOnePending_def)

lemma caller_at_others [simp]:
  "caller_at (set_queue s i q) = caller_at s" "caller_at (finish_pending s) = caller_at s"
  "caller_at (notify_idle s) = caller_at s" "caller_at (complete s c r) = caller_at s"
  "caller_at (s\<lparr>eng := e\<rparr>) = caller_at s"
  by (simp_all add: fun_eq_iff caller_at_def set_queue_def set_shard_def finish_pending_def notify_idle_def)

lemma shard_count_others [simp]:
  "shard_count (set_queue s i q) = shard_count s" "shard_count (set_shard s i sh) = shard_count s"
  "shard_count (s\<lparr>eng := account c r t (eng s)\<rparr>) = shard_count s"
  "owners (set_queue s i q) = owners s" "owners (set_shard s i sh) = owners s"
  by (simp_all add: shard_count_def set_queue_def set_shard_def)

lemma shards_inv_length: "shards_inv s \<Longrightarrow> length (pe_shards (eng s)) = shard_count s"
  by (simp add: shards_inv_def)

lemma push_length:
  "mpmc_push q c = Some (True, q') \<or> mpmc_try_push q c = Some q' \<Longrightarrow> length (buffer q') = Suc (length (buffer q))"
  by (auto simp: mpmc_push_def mpmc_try_push_def split: if_splits)

lemma pending_inv_arrive:
  assumes "pending_inv s" and "shards_inv s" and "caller_at s j (C_Counted c b)"
    and "mpmc_push (queue_at s (shard_id s c)) c = Some (True, q) \<or> mpmc_try_push (queue_at s (shard_id s c)) c = Some q"
  shows "pending_inv ((set_caller (set_queue s (shard_id s c) q) j C_Pushed)\<lparr>arrived := a\<rparr>)"
  using assms(1) load_queue [OF shard_id_less [OF assms(2)] shards_inv_length [OF assms(2)], of c q] push_length [OF assms(4)]
    load_caller [of "set_queue s (shard_id s c) q" j "C_Counted c b" C_Pushed] assms(3)
  by (simp add: pending_inv_def counted_caller_def)

lemma pending_inv_step:
  assumes "part_step s s'" and "pending_inv s" and "shards_inv s"
  shows "pending_inv s'"
  using assms
proof (induction rule: part_step.induct)
  case (call_refused s j c)
  then show ?case using load_caller [OF call_refused(1), of "C_Failed c"] by (simp add: pending_inv_def counted_caller_def)
next
  case (call s j c b)
  then show ?case using load_caller [OF call(1), of "C_Admitted c b"] by (simp add: pending_inv_def counted_caller_def)
next
  case (count s j c b)
  let ?s = "s\<lparr>eng := (eng s)\<lparr>pe_pending := pe_pending (eng s) + 1\<rparr>\<rparr>"
  have "load (set_caller ?s j (C_Counted c b)) = Suc (load s)"
    using load_caller [of ?s j "C_Admitted c b" "C_Counted c b"] count(1) by (simp add: counted_caller_def)
  with count(2) show ?case by (simp add: pending_inv_def)
next
  case (push s j c q)
  then show ?case by (intro pending_inv_arrive) auto
next
  case (try_push s j c q)
  then show ?case by (intro pending_inv_arrive) auto
next
  case (push_refused s j c q)
  then have "q = queue_at s (shard_id s c)" by (auto simp: mpmc_push_def split: if_splits)
  with push_refused(3) load_caller [OF push_refused(1), of "C_Refused c"] show ?case
    by (simp add: set_queue_same pending_inv_def counted_caller_def)
next
  case (try_push_refused s j c)
  with load_caller [OF try_push_refused(1), of "C_Refused c"] show ?case by (simp add: pending_inv_def counted_caller_def)
next
  case (submitted s j)
  then show ?case
    using load_caller [of "s\<lparr>eng := (eng s)\<lparr>pe_submitted := pe_submitted (eng s) + 1\<rparr>\<rparr>" j C_Pushed C_Idle]
    by (simp add: pending_inv_def counted_caller_def)
next
  case (refused s j c)
  let ?x = "if fst (finishOnePending (eng s)) then C_Notify c else C_Failed c"
  have "load s = Suc (load (set_caller (finish_pending s) j ?x))"
    using load_caller [of "finish_pending s" j "C_Refused c" ?x] refused(1) by (simp add: counted_caller_def split: if_splits)
  with refused(2) show ?case by (simp add: pending_inv_def)
next
  case (refused_notify s j c)
  then show ?case using load_caller [of "notify_idle s" j "C_Notify c" "C_Failed c"]
    by (simp add: pending_inv_def counted_caller_def)
next
  case (failed s j c)
  then show ?case
    using load_caller [of "complete s c (completeRejected (o_id (c_order c)) (c_type c) ENGINE_SHUTTING_DOWN)" j "C_Failed c" C_Idle]
    by (simp add: pending_inv_def counted_caller_def)
next
  case (pop i s c q)
  then have "length (buffer (queue_at s i)) = Suc (length (buffer q))"
    by (auto simp: mpmc_pop_def neq_Nil_conv split: if_splits)
  then show ?case
    using pop load_queue [OF pop(1) shards_inv_length [OF pop(5)], of q] load_owner [of i "set_queue s i q" "W_Run c"]
    by (simp add: pending_inv_def busy_def)
next
  case (pop_end i s q)
  then have "q = queue_at s i" by (auto simp: mpmc_pop_def split: if_splits)
  with pop_end load_owner [OF pop_end(1), of W_Done] show ?case by (simp add: set_queue_same pending_inv_def busy_def)
next
  case (run i s c r sh)
  have "buffer (sh_queue sh) = buffer (queue_at s i)" using run_command_keeps [OF run(3)] by (simp add: queue_at_def)
  then show ?case
    using run load_shard [OF run(1) shards_inv_length [OF run(5)], of sh] load_owner [of i "set_shard s i sh" "W_Account c r"]
    by (simp add: pending_inv_def busy_def)
next
  case (account i s c r now)
  then show ?case using load_owner [of i "s\<lparr>eng := account c r now (eng s)\<rparr>" "W_Complete c r"]
    by (simp add: pending_inv_def busy_def)
next
  case (complete i s c r)
  then show ?case using load_owner [of i "complete s c r" W_Finish] by (simp add: pending_inv_def busy_def)
next
  case (finish i s)
  let ?w = "if fst (finishOnePending (eng s)) then W_Notify else W_Pop"
  have "load s = Suc (load (set_owner (finish_pending s) i ?w))"
    using load_owner [of i "finish_pending s" ?w] finish by (simp add: busy_def split: if_splits)
  with finish(3) show ?case by (simp add: pending_inv_def)
next
  case (finish_notify i s)
  then show ?case using load_owner [of i "notify_idle s" W_Pop] by (simp add: pending_inv_def busy_def)
next
  case (close_queue s i)
  then show ?case using load_queue [OF close_queue(2) shards_inv_length [OF close_queue(4)], of "mpmc_close (queue_at s i)"]
    by (simp add: pending_inv_def mpmc_close_def)
next
  case (shutdown s)
  have "load (s\<lparr>eng := (eng s)\<lparr>pe_accepting := False\<rparr>, closing := S_Close 0\<rparr>) = load s"
    by (simp add: load_def shard_count_def queue_at_def)
  with shutdown show ?case by (simp add: pending_inv_def)
qed (simp_all add: pending_inv_def)

section \<open>Completion, shutdown and bookkeeping\<close>

text \<open>What ran is completed, or still in its owner's hands.\<close>

definition completed_inv :: "system \<Rightarrow> bool" where
  "completed_inv s \<longleftrightarrow> (\<forall>i c r p. (c, r) \<in> set (executed s i) \<and> c_completion c = Some p \<longrightarrow>
     (p, r) \<in> set (completions s) \<or> owners s i = W_Account c r \<or> owners s i = W_Complete c r)"

definition closing_inv :: "system \<Rightarrow> bool" where
  "closing_inv s \<longleftrightarrow> (case closing s of
     S_Join j \<Rightarrow> \<forall>i < j. owners s i = W_Done
   | S_Notify \<Rightarrow> \<forall>i < shard_count s. owners s i = W_Done
   | S_Done \<Rightarrow> \<forall>i < shard_count s. owners s i = W_Done
   | _ \<Rightarrow> True)"

lemmas system_defs = set_caller_def set_owner_def set_shard_def set_queue_def set_waiter_def notify_idle_def
  finish_pending_def finishOnePending_def

lemma completed_inv_step:
  assumes "part_step s s'" and "completed_inv s"
  shows "completed_inv s'"
  using assms
proof (induction rule: part_step.induct)
  case (run i s c r sh)
  then show ?case by (fastforce simp: completed_inv_def system_defs)
next
  case (complete i s c r)
  have c: "c_completion c = Some p \<Longrightarrow> (p, r) \<in> set (completions (complete s c r))"
    "x \<in> set (completions s) \<Longrightarrow> x \<in> set (completions (complete s c r))" for p x
    by (auto simp: complete_def split: option.splits)
  show ?case
    unfolding completed_inv_def
  proof (intro allI impI)
    fix i' c' r' p
    assume "(c', r') \<in> set (executed (set_owner (complete s c r) i W_Finish) i') \<and> c_completion c' = Some p"
    with complete(3) have "(p, r') \<in> set (completions s) \<or> owners s i' = W_Account c' r' \<or> owners s i' = W_Complete c' r'"
      by (auto simp: completed_inv_def set_owner_def)
    with complete(2) c \<open>_ \<and> _\<close> show "(p, r') \<in> set (completions (set_owner (complete s c r) i W_Finish)) \<or>
        owners (set_owner (complete s c r) i W_Finish) i' = W_Account c' r' \<or>
        owners (set_owner (complete s c r) i W_Finish) i' = W_Complete c' r'"
      by (cases "i' = i") (auto simp: set_owner_def)
  qed
next
  case (failed s j c)
  then show ?case by (auto simp: completed_inv_def system_defs complete_def split: option.splits)
qed (fastforce simp: completed_inv_def system_defs)+

lemma owners_done:
  assumes "part_step s s'" and "owners s i = W_Done"
  shows "owners s' i = W_Done"
  using assms by (induction rule: part_step.induct) (auto simp: system_defs)

lemma closing_inv_step:
  assumes "part_step s s'" and "closing_inv s"
  shows "closing_inv s'"
proof -
  have d: "\<And>i. owners s i = W_Done \<Longrightarrow> owners s' i = W_Done" using owners_done [OF assms(1)] .
  have n: "shard_count s' = shard_count s"
    using assms(1) by (induction rule: part_step.induct) (simp_all add: system_defs shard_count_def)
  from assms(1) consider "closing s' = closing s" | "closing s = S_Out" "closing s' = S_Close 0"
    | j where "closing s = S_Close j" "closing s' = S_Close (Suc j) \<or> closing s' = S_Join 0"
    | j where "closing s = S_Join j" "closing s' = S_Join (Suc j)" "owners s j = W_Done"
    | "closing s = S_Join (shard_count s)" "closing s' = S_Notify"
    | "closing s = S_Notify" "closing s' = S_Done"
    by (induction rule: part_step.induct) (simp_all add: system_defs)
  then show ?thesis
  proof cases
    case 1
    then show ?thesis using assms(2) d n by (auto simp: closing_inv_def split: closer.splits)
  qed (use assms(2) d n in \<open>auto simp: closing_inv_def less_Suc_eq\<close>)
qed

text \<open>The commands whose results are in the log and the counters.\<close>

definition accounted :: "system \<Rightarrow> nat \<Rightarrow> (Command \<times> PartitionedCommandResult) list" where
  "accounted s i = (case owners s i of W_Account c r \<Rightarrow> butlast (executed s i) | _ \<Rightarrow> executed s i)"

definition trades_for :: "string \<Rightarrow> (Command \<times> PartitionedCommandResult) list \<Rightarrow> Trade list" where
  "trades_for k rs = concat (map (res_trades \<circ> snd) (runs_of k rs))"

text \<open>A command to be accounted for is the last that ran; the log of a symbol is the tail of its trades.\<close>

definition log_inv :: "u64 \<Rightarrow> system \<Rightarrow> bool" where
  "log_inv d s \<longleftrightarrow> max_per_symbol (pe_trade_log (eng s)) = d \<and>
     (\<forall>i < shard_count s. \<forall>c r. owners s i = W_Account c r \<longrightarrow> (\<exists>rs. executed s i = rs @ [(c, r)])) \<and>
     (\<forall>x. logged (pe_trade_log (eng s)) (symbol_key x) =
        last_n (unat d) (trades_for (symbol_key x) (accounted s (shardIndex (eng s) x)))) \<and>
     pe_processed (eng s) = pe_accepted (eng s) + pe_rejected (eng s)"

lemma logged_fold:
  assumes "logged l k = last_n (unat (max_per_symbol l)) xs" and "max_per_symbol l < 0xFFFFFFFFFFFFFFFF"
  shows "logged (fold (record_trade x) ts l) k =
      last_n (unat (max_per_symbol l)) (if symbol_key x = k then xs @ ts else xs) \<and>
    max_per_symbol (fold (record_trade x) ts l) = max_per_symbol l"
  using assms
proof (induction ts arbitrary: l xs)
  case (Cons t ts)
  show ?case
    using Cons.IH [of "record_trade x t l" "if symbol_key x = k then xs @ [t] else xs"] logged_record [OF Cons.prems, of x t]
      Cons.prems(2)
    by simp
qed simp

lemma log_inv_same:
  assumes "log_inv d s" and "pe_trade_log (eng s') = pe_trade_log (eng s)" and "pe_shard_count (eng s') = pe_shard_count (eng s)"
    and "executed s' = executed s" and "\<And>i. owners s' i = owners s i \<or> (\<forall>c r. owners s i \<noteq> W_Account c r \<and> owners s' i \<noteq> W_Account c r)"
    and "pe_processed (eng s') = pe_processed (eng s)" "pe_accepted (eng s') = pe_accepted (eng s)" "pe_rejected (eng s') = pe_rejected (eng s)"
  shows "log_inv d s'"
proof -
  have "accounted s' i = accounted s i" for i
    using assms(4) assms(5) [of i] by (auto simp: accounted_def split: owner.splits)
  moreover have "shardIndex (eng s') = shardIndex (eng s)" "shard_count s' = shard_count s"
    using assms(3) by (simp_all add: fun_eq_iff shardIndex_def shard_count_def)
  ultimately show ?thesis using assms by (auto simp: log_inv_def) metis
qed

lemma executed_shard:
  assumes "shards_inv s" and "i < shard_count s" and "(c, r) \<in> set (executed s i)"
  shows "shardIndex (eng s) (c_symbol c) = i"
proof -
  have "c \<in> set (arrived s i)"
    using shards_inv_at [OF assms(1,2)] assms(3) by (force simp: shard_inv_def)
  then show ?thesis using shards_inv_at [OF assms(1,2)] by (simp add: shard_inv_def shardIndex_def)
qed

lemma log_inv_run:
  assumes "log_inv d s" and "owners s i = W_Run c"
  shows "log_inv d ((set_owner (set_shard s i sh) i (W_Account c r))\<lparr>executed := (executed s)(i := executed s i @ [(c, r)])\<rparr>)"
    (is "log_inv d ?s")
proof -
  have "accounted ?s j = accounted s j" for j
    using assms(2) by (cases "j = i") (simp_all add: accounted_def system_defs split: owner.splits)
  moreover have "shardIndex (eng ?s) = shardIndex (eng s)" "shard_count ?s = shard_count s"
    by (simp_all add: fun_eq_iff shardIndex_def shard_count_def system_defs)
  ultimately show ?thesis using assms(1) by (simp add: log_inv_def system_defs)
qed

lemma log_inv_account:
  assumes "log_inv d s" and "shards_inv s" and "i < shard_count s" and "owners s i = W_Account c r"
    and "d < 0xFFFFFFFFFFFFFFFF"
  shows "log_inv d (set_owner (s\<lparr>eng := account c r t (eng s)\<rparr>) i (W_Complete c r))" (is "log_inv d ?s")
proof -
  from assms(1,3,4) obtain rs where rs: "executed s i = rs @ [(c, r)]" unfolding log_inv_def by blast
  then have ci: "shardIndex (eng s) (c_symbol c) = i" using executed_shard [OF assms(2,3), of c r] by simp
  have acc: "accounted ?s j = (if j = i then rs @ [(c, r)] else accounted s j)" "accounted s i = rs" for j
    using rs assms(4) by (simp_all add: accounted_def set_owner_def split: owner.splits)
  have idx: "shardIndex (eng ?s) = shardIndex (eng s)" by (simp add: fun_eq_iff shardIndex_def set_owner_def)
  have "logged (pe_trade_log (eng ?s)) (symbol_key x) =
      last_n (unat d) (trades_for (symbol_key x) (accounted ?s (shardIndex (eng ?s) x)))" for x
  proof (cases "symbol_key (c_symbol c) = symbol_key x")
    case True
    then have xi: "shardIndex (eng s) x = i"
      using ci shard_of_eq [of "c_symbol c" x] by (simp add: shardIndex_def symbol_eq_def)
    have "logged (pe_trade_log (eng s)) (symbol_key x) = last_n (unat d) (trades_for (symbol_key x) rs)"
      using assms(1) xi acc(2) by (simp add: log_inv_def)
    then have "logged (pe_trade_log (eng ?s)) (symbol_key x) =
        last_n (unat d) (trades_for (symbol_key x) rs @ res_trades r)"
      using logged_fold [of "pe_trade_log (eng s)" "symbol_key x" _ "c_symbol c" "res_trades r"] assms(1,5) True
      by (simp add: log_inv_def set_owner_def account_def)
    then show ?thesis using True xi acc(1) idx by (simp add: trades_for_def runs_of_def)
  next
    case False
    have "trades_for (symbol_key x) (accounted ?s j) = trades_for (symbol_key x) (accounted s j)" for j
      using acc False by (simp add: trades_for_def runs_of_def)
    then show ?thesis
      using logged_fold [of "pe_trade_log (eng s)" "symbol_key x" _ "c_symbol c" "res_trades r"] assms(1,5) False idx
      by (simp add: log_inv_def set_owner_def account_def)
  qed
  moreover have "max_per_symbol (pe_trade_log (eng ?s)) = d"
    using logged_fold [of "pe_trade_log (eng s)" "symbol_key (c_symbol c)"] assms(1,5)
    by (simp add: log_inv_def set_owner_def account_def)
  ultimately show ?thesis
    using assms(1) by (auto simp: log_inv_def set_owner_def shard_count_def account_def)
qed

lemma log_inv_step:
  assumes "part_step s s'" and "log_inv d s" and "shards_inv s" and "d < 0xFFFFFFFFFFFFFFFF"
  shows "log_inv d s'"
  using assms
proof (induction rule: part_step.induct)
  case (run i s c r sh)
  then show ?case by (simp add: log_inv_run)
next
  case (account i s c r now)
  then show ?case by (simp add: log_inv_account)
qed (erule log_inv_same; simp add: system_defs)+

definition system_inv :: "u64 \<Rightarrow> system \<Rightarrow> bool" where
  "system_inv d s \<longleftrightarrow> shards_inv s \<and> pending_inv s \<and> completed_inv s \<and> closing_inv s \<and> log_inv d s"

lemma part_start_inv:
  assumes "make_partitioned n cap l d = Inr pe"
  shows "system_inv d (part_start pe m w)"
proof -
  note pe = make_partitioned_ok [OF assms]
  have sh: "mpmc_ok (sh_queue (pe_shards pe ! i)) \<and> buffer (sh_queue (pe_shards pe ! i)) = [] \<and>
      sh_engines (pe_shards pe ! i) = Map.empty" if "i < unat n" for i
    using pe that nth_mem by metis
  have "shards_inv (part_start pe m w)"
    using pe sh
    by (auto simp: shards_inv_def part_start_def shard_count_def shard_inv_def in_hand_def runs_of_def engine_of_def
        list_all_length caller_ok_def)
  moreover have "pending_inv (part_start pe m w)"
    using pe sh by (simp add: pending_inv_def load_def part_start_def shard_count_def queue_at_def busy_def counted_caller_def)
  moreover have "log_inv d (part_start pe m w)"
    using pe by (simp add: log_inv_def part_start_def accounted_def trades_for_def runs_of_def last_n_def logged_def make_log_def)
  ultimately show ?thesis
    by (simp add: system_inv_def completed_inv_def closing_inv_def part_start_def)
qed

lemma part_reachable_inv:
  assumes "make_partitioned n cap l d = Inr pe" and "part_step\<^sup>*\<^sup>* (part_start pe m w) s" and "d < 0xFFFFFFFFFFFFFFFF"
  shows "system_inv d s"
  using assms(2)
proof (induction rule: rtranclp_induct)
  case base
  show ?case by (rule part_start_inv [OF assms(1)])
next
  case (step s s')
  then show ?case
    using shards_inv_step pending_inv_step completed_inv_step closing_inv_step log_inv_step assms(3)
    unfolding system_inv_def by metis
qed

lemma part_constants:
  assumes "part_step\<^sup>*\<^sup>* s s'"
  shows "pe_shard_count (eng s') = pe_shard_count (eng s) \<and> pe_risk_limits (eng s') = pe_risk_limits (eng s) \<and>
    length (callers s') = length (callers s)"
  using assms
proof (induction rule: rtranclp_induct)
  case (step s1 s2)
  from step.hyps(2) have "pe_shard_count (eng s2) = pe_shard_count (eng s1) \<and>
    pe_risk_limits (eng s2) = pe_risk_limits (eng s1) \<and> length (callers s2) = length (callers s1)"
    by (induction rule: part_step.induct) (simp_all add: system_defs)
  with step.IH show ?case by simp
qed simp

lemma completed_at:
  assumes "completed_inv s" and "\<And>c r. owners s i \<noteq> W_Account c r \<and> owners s i \<noteq> W_Complete c r"
  shows "\<forall>c r p. (c, r) \<in> set (executed s i) \<and> c_completion c = Some p \<longrightarrow> (p, r) \<in> set (completions s)"
  using assms unfolding completed_inv_def by blast

section \<open>Owners do not get stuck\<close>

lemma engine_of_ready:
  assumes "shard_inv n l i sh w as rs" and "length rs + m \<le> 2 ^ 32"
  shows "engine_ready m (engine_of l sh k)"
proof (rule run_engine_ready)
  show "run_engine (init_engine l) (map (engine_command \<circ> fst) (runs_of k rs)) =
      Some (map (outcome \<circ> snd) (runs_of k rs), engine_of l sh k)"
    using assms(1) by (simp add: shard_inv_def)
  show "\<forall>c \<in> set (map (engine_command \<circ> fst) (runs_of k rs)). command_valid c"
    using assms(1) by (auto simp: shard_inv_def runs_of_def)
  have "length (runs_of k rs) \<le> length rs" by (simp add: runs_of_def)
  then show "length (map (engine_command \<circ> fst) (runs_of k rs)) + m \<le> 2 ^ 32" using assms(2) by simp
qed

lemma run_command_returns:
  assumes "shard_inv n l i sh (W_Run c) as rs" and "length as \<le> 2 ^ 32"
  shows "\<exists>r sh'. run_command l c sh = Some (r, sh')"
proof -
  have "engine_ready (Suc 0) (engine_of l sh (symbol_key (c_symbol c)))"
    using assms(2) by (intro engine_of_ready [OF assms(1)]) (use assms(1) in \<open>simp add: shard_inv_def in_hand_def\<close>)
  moreover have "command_valid (engine_command c)" using assms(1) by (simp add: shard_inv_def in_hand_def)
  ultimately show ?thesis
    using engine.step_returns [of 0 "engine_of l sh (symbol_key (c_symbol c))" "engine_command c"]
    by (auto simp: run_command_engine)
qed

lemma owner_steps:
  assumes "shards_inv s" and "i < shard_count s" and "length (arrived s i) \<le> 2 ^ 32"
    and "owners s i \<noteq> W_Done" and "owners s i = W_Pop \<Longrightarrow> mq_closed (queue_at s i) \<or> buffer (queue_at s i) \<noteq> []"
  shows "\<exists>s'. part_step s s' \<and> owners s' i \<noteq> owners s i"
proof (cases "owners s i")
  case W_Pop
  with assms(5) have "mpmc_pop (queue_at s i) \<noteq> None" by (auto simp: mpmc_pop_def)
  then obtain x q where "mpmc_pop (queue_at s i) = Some (x, q)" by auto
  with W_Pop assms(2) part_step.pop [OF assms(2) W_Pop] part_step.pop_end [OF assms(2) W_Pop] show ?thesis
    by (cases x) (force simp: set_owner_def)+
next
  case (W_Run c)
  note inv = shards_inv_at [OF assms(1,2), unfolded W_Run]
  from run_command_returns [OF inv assms(3)] part_step.run [OF assms(2) W_Run] W_Run show ?thesis
    by (force simp: set_owner_def)
next
  case (W_Account c r)
  from part_step.account [OF assms(2) W_Account] W_Account show ?thesis by (force simp: set_owner_def)
next
  case (W_Complete c r)
  from part_step.complete [OF assms(2) W_Complete] W_Complete show ?thesis by (force simp: set_owner_def)
next
  case W_Finish
  from part_step.finish [OF assms(2) W_Finish] W_Finish show ?thesis by (force simp: set_owner_def split: if_splits)
next
  case W_Notify
  from part_step.finish_notify [OF assms(2) W_Notify] W_Notify show ?thesis by (force simp: set_owner_def)
qed (use assms(4) in simp)

section \<open>Properties\<close>

text \<open>C23: deterministic sequencing. In every reachable state, whatever the interleaving of callers, owners,
  waiters and shutdown: the commands of a symbol all arrive at one shard; a shard executes its commands
  in the order of their arrival; and the engine of a symbol, with all reports and trades, is exactly
  what a single engine gives on the symbol's commands in that order.\<close>

theorem partitioned_deterministic:
  assumes "make_partitioned n cap l d = Inr pe" and "part_step\<^sup>*\<^sup>* (part_start pe m w) s" and "d < 0xFFFFFFFFFFFFFFFF"
  shows "let i = shardIndex (eng s) x; k = symbol_key x; rs = runs_of k (executed s i)
    in (\<forall>j < unat n. \<forall>c \<in> set (arrived s j). symbol_key (c_symbol c) = k \<longrightarrow> j = i) \<and>
       (\<exists>rest. arrived s i = map fst (executed s i) @ rest) \<and>
       run_engine (init_engine l) (map (engine_command \<circ> fst) rs) =
         Some (map (outcome \<circ> snd) rs, engine_of l (shardFor (eng s) x) k)"
proof -
  note inv = part_reachable_inv [OF assms]
  then have sh: "shards_inv s" by (simp add: system_inv_def)
  have c: "pe_risk_limits (eng s) = l" "shard_count s = unat n"
    using part_constants [OF assms(2)] make_partitioned_ok [OF assms(1)] by (simp_all add: part_start_def shard_count_def)
  let ?i = "shardIndex (eng s) x"
  have i: "?i < shard_count s" using sh by (simp add: shards_inv_def shardIndex_def shard_count_def shard_of_less)
  have "j = ?i" if "j < unat n" "c \<in> set (arrived s j)" "symbol_key (c_symbol c) = symbol_key x" for j c
  proof -
    have "shard_of (pe_shard_count (eng s)) (c_symbol c) = j"
      using shards_inv_at [OF sh, of j] that c(2) by (simp add: shard_inv_def)
    then show ?thesis
      using that(3) shard_of_eq [of "c_symbol c" x] by (simp add: shardIndex_def symbol_eq_def)
  qed
  with shards_inv_at [OF sh i] c(1) show ?thesis by (auto simp: shard_inv_def shardFor_def)
qed

lemma books_validate:
  assumes "shards_inv s" and "\<forall>i < shard_count s. length (arrived s i) \<le> 2 ^ 32"
  shows "pe_validate (eng s) x"
proof -
  let ?i = "shardIndex (eng s) x"
  have i: "?i < shard_count s" using assms(1) by (simp add: shards_inv_def shardIndex_def shard_count_def shard_of_less)
  note si = shards_inv_at [OF assms(1) i]
  then have "length (executed s ?i) + 0 \<le> 2 ^ 32" using assms(2) i by (fastforce simp: shard_inv_def)
  from engine_of_ready [OF si this, of "symbol_key x"] have
    "checkInvariants (book (engine_of (pe_risk_limits (eng s)) (pe_shards (eng s) ! ?i) (symbol_key x)))"
    using engine_ok_checkInvariants by (auto simp: engine_ready_def)
  then show ?thesis by (auto simp: pe_validate_def shardFor_def engine_of_def split: option.splits)
qed

text \<open>Without load, everything that arrived has been executed and accounted for.\<close>

lemma no_load_executed:
  assumes "shards_inv s" and "load s = 0" and "i < shard_count s"
  shows "busy (owners s i) = 0 \<and> arrived s i = map fst (executed s i)"
proof -
  have "(\<Sum>j < shard_count s. length (buffer (queue_at s j)) + busy (owners s j)) = 0" using assms(2) by (simp add: load_def)
  with assms(3) have b: "buffer (queue_at s i) = []" "busy (owners s i) = 0" by auto
  moreover from this(2) have "in_hand (owners s i) = []" by (auto simp: busy_def in_hand_def split: owner.splits)
  ultimately show ?thesis using shards_inv_at [OF assms(1,3)] by (simp add: shard_inv_def queue_at_def)
qed

text \<open>C24: the engines never fail and never stall. As long as a shard was sent at most \<open>2\<^sup>3\<^sup>2\<close> commands, its
  owner can always take its next step, except to wait on an empty open queue or to have ended; and
  every book passes the self-check at every moment.\<close>

theorem partitioned_never_stuck:
  assumes "make_partitioned n cap l d = Inr pe" and "part_step\<^sup>*\<^sup>* (part_start pe m w) s" and "d < 0xFFFFFFFFFFFFFFFF"
    and "\<forall>i < unat n. length (arrived s i) \<le> 2 ^ 32"
  shows "(\<forall>i < unat n. owners s i = W_Done \<or>
      owners s i = W_Pop \<and> buffer (queue_at s i) = [] \<and> \<not> mq_closed (queue_at s i) \<or>
      (\<exists>s'. part_step s s' \<and> owners s' i \<noteq> owners s i)) \<and> (\<forall>x. pe_validate (eng s) x)"
proof -
  have sh: "shards_inv s" using part_reachable_inv [OF assms(1-3)] by (simp add: system_inv_def)
  have c: "pe_risk_limits (eng s) = l" "shard_count s = unat n"
    using part_constants [OF assms(2)] make_partitioned_ok [OF assms(1)] by (simp_all add: part_start_def shard_count_def)
  have "pe_validate (eng s) x" for x using books_validate [OF sh] assms(4) c(2) by simp
  with owner_steps [OF sh] assms(4) c(2) show ?thesis by metis
qed

text \<open>C25: idle means done. When the counter of pending commands is zero, every command that arrived at a
  shard has been executed, and every promise of such a command holds its result.\<close>

theorem idle_means_done:
  assumes "make_partitioned n cap l d = Inr pe" and "part_step\<^sup>*\<^sup>* (part_start pe m w) s" and "d < 0xFFFFFFFFFFFFFFFF"
    and "pe_pending (eng s) = 0" and "load s < 2 ^ 64" and "i < unat n"
  shows "arrived s i = map fst (executed s i) \<and>
    (\<forall>c r p. (c, r) \<in> set (executed s i) \<and> c_completion c = Some p \<longrightarrow> (p, r) \<in> set (completions s))"
proof -
  note inv = part_reachable_inv [OF assms(1-3), unfolded system_inv_def]
  have n: "shard_count s = unat n"
    using part_constants [OF assms(2)] make_partitioned_ok [OF assms(1)] by (simp add: part_start_def shard_count_def)
  have "unat (of_nat (load s) :: u64) = 0" using inv assms(4) by (simp add: pending_inv_def)
  then have "load s = 0" using assms(5) unfolding unsigned_of_nat by (simp add: take_bit_nat_eq_self)
  then have "busy (owners s i) = 0 \<and> arrived s i = map fst (executed s i)"
    using no_load_executed [of s i] inv assms(6) n by simp
  moreover from this have "owners s i \<noteq> W_Account c r \<and> owners s i \<noteq> W_Complete c r" for c r
    by (auto simp: busy_def)
  ultimately show ?thesis using inv completed_at [of s i] by simp
qed

text \<open>C26: shutdown drains. When \<open>shutdown\<close> has joined its owners, every command that a queue accepted has been
  executed and its promise, if any, is fulfilled; no owner is left running.\<close>

theorem shutdown_drains:
  assumes "make_partitioned n cap l d = Inr pe" and "part_step\<^sup>*\<^sup>* (part_start pe m w) s" and "d < 0xFFFFFFFFFFFFFFFF"
    and "closing s = S_Notify \<or> closing s = S_Done" and "i < unat n"
  shows "owners s i = W_Done \<and> arrived s i = map fst (executed s i) \<and> mq_closed (queue_at s i) \<and>
    (\<forall>c r p. (c, r) \<in> set (executed s i) \<and> c_completion c = Some p \<longrightarrow> (p, r) \<in> set (completions s))"
proof -
  note inv = part_reachable_inv [OF assms(1-3), unfolded system_inv_def]
  have n: "shard_count s = unat n"
    using part_constants [OF assms(2)] make_partitioned_ok [OF assms(1)] by (simp add: part_start_def shard_count_def)
  have w: "owners s i = W_Done" using inv assms(4,5) n by (auto simp: closing_inv_def)
  then show ?thesis
    using shards_inv_at [of s i] inv assms(5) n completed_at [of s i] by (simp add: shard_inv_def in_hand_def queue_at_def)
qed

text \<open>The trade log shows the executions. A query for the last trades of a symbol gives the tail of the
  trades its engine made, in order, for the commands accounted for; accepted and rejected commands
  add up to the processed ones.\<close>

theorem partitioned_trade_log:
  assumes "make_partitioned n cap l d = Inr pe" and "part_step\<^sup>*\<^sup>* (part_start pe m w) s" and "d < 0xFFFFFFFFFFFFFFFF"
  shows "recent (pe_trade_log (eng s)) x k =
      last_n (min (unat k) (unat d)) (trades_for (symbol_key x) (accounted s (shardIndex (eng s) x))) \<and>
    ps_processed (pe_stats (eng s)) = ps_accepted (pe_stats (eng s)) + ps_rejected (pe_stats (eng s))"
  using part_reachable_inv [OF assms] by (simp add: system_inv_def log_inv_def recent_logged last_n_last_n pe_stats_def)

section \<open>A lost wakeup\<close>

text \<open>
  An owner with a command in its queue takes it through to the end, if nobody is asleep to be notified.
\<close>

lemma owner_cycle:
  assumes "i < shard_count s" and "owners s i = W_Pop" and "mpmc_pop (queue_at s i) = Some (Some c, q)"
    and "run_command (pe_risk_limits (eng s)) c ((pe_shards (eng s) ! i)\<lparr>sh_queue := q\<rparr>) = Some (r, sh)"
    and "i < length (pe_shards (eng s))" and "I_Asleep \<notin> set (waiters s)" and "c_completion c = None"
  shows "\<exists>s'. part_step\<^sup>*\<^sup>* s s' \<and> pe_pending (eng s') = pe_pending (eng s) - 1 \<and> owners s' = owners s \<and>
    queue_at s' i = q \<and> waiters s' = waiters s \<and> callers s' = callers s \<and> closing s' = closing s \<and> shard_count s' = shard_count s"
proof -
  define s1 where "s1 = set_owner (set_queue s i q) i (W_Run c)"
  define s2 where "s2 = (set_owner (set_shard s1 i sh) i (W_Account c r))\<lparr>executed := (executed s1)(i := executed s1 i @ [(c, r)])\<rparr>"
  define s3 where "s3 = set_owner (s2\<lparr>eng := account c r 0 (eng s2)\<rparr>) i (W_Complete c r)"
  define s4 where "s4 = set_owner (complete s3 c r) i W_Finish"
  define s5 where "s5 = set_owner (finish_pending s4) i (if fst (finishOnePending (eng s4)) then W_Notify else W_Pop)"
  define s6 where "s6 = (if fst (finishOnePending (eng s4)) then set_owner (notify_idle s5) i W_Pop else s5)"
  have n: "shard_count s1 = shard_count s" "shard_count s2 = shard_count s" "shard_count s3 = shard_count s"
    "shard_count s4 = shard_count s" "shard_count s5 = shard_count s"
    by (simp_all add: s1_def s2_def s3_def s4_def s5_def system_defs shard_count_def)
  have "part_step s s1" unfolding s1_def by (rule part_step.pop [OF assms(1-3)])
  moreover have "part_step s1 s2"
    unfolding s2_def by (rule part_step.run) (use n assms(1,4,5) in \<open>simp_all add: s1_def system_defs\<close>)
  moreover have "part_step s2 s3"
    unfolding s3_def by (rule part_step.account) (use n assms(1) in \<open>simp_all add: s2_def set_owner_def\<close>)
  moreover have "part_step s3 s4"
    unfolding s4_def by (rule part_step.complete) (use n assms(1) in \<open>simp_all add: s3_def set_owner_def\<close>)
  moreover have "part_step s4 s5"
    unfolding s5_def by (rule part_step.finish) (use n assms(1) in \<open>simp_all add: s4_def set_owner_def\<close>)
  moreover have "part_step\<^sup>*\<^sup>* s5 s6"
  proof (cases "fst (finishOnePending (eng s4))")
    case True
    have "part_step s5 (set_owner (notify_idle s5) i W_Pop)"
      by (rule part_step.finish_notify) (use n assms(1) True in \<open>simp_all add: s5_def set_owner_def\<close>)
    with True show ?thesis by (simp add: s6_def)
  qed (simp add: s6_def)
  ultimately have path: "part_step\<^sup>*\<^sup>* s s6" by (meson converse_rtranclp_into_rtranclp)
  have q: "sh_queue sh = q" using run_command_keeps [OF assms(4)] by simp
  have asleep: "map (\<lambda>w. if w = I_Asleep then I_Check else w) (waiters s) = waiters s"
    using assms(6) by (intro map_idI) auto
  have fields: "pe_pending (eng s6) = pe_pending (eng s) - 1" "queue_at s6 i = q" "waiters s6 = waiters s"
    "callers s6 = callers s" "closing s6 = closing s" "shard_count s6 = shard_count s"
    using assms(5,7) q asleep n(5)
    by (simp_all add: s6_def s5_def s4_def s3_def s2_def s1_def system_defs queue_at_def shard_count_def complete_def)
  moreover have "owners s6 = owners s"
    using assms(2,7) by (auto simp: s6_def s5_def s4_def s3_def s2_def s1_def system_defs complete_def fun_eq_iff)
  ultimately show ?thesis using path by blast
qed

definition demo_pe :: PartitionedMatchingEngine where
  "demo_pe = projr (make_partitioned 1 1 default_limits 1)"

lemma demo_pe: "make_partitioned 1 1 default_limits 1 = Inr demo_pe"
  by (simp add: demo_pe_def make_partitioned_def mpmc_make_def)

lemma demo_pe_fields:
  "pe_shard_count demo_pe = 1" "pe_risk_limits demo_pe = default_limits" "pe_pending demo_pe = 0" "pe_accepting demo_pe"
  "pe_shards demo_pe = [\<lparr>sh_queue = projr (mpmc_make 1), sh_engines = Map.empty\<rparr>]"
  by (simp_all add: demo_pe_def make_partitioned_def mpmc_make_def)

lemma demo_pe_record:
  "demo_pe = \<lparr>pe_shard_count = 1, pe_risk_limits = default_limits,
     pe_shards = [\<lparr>sh_queue = projr (mpmc_make 1), sh_engines = Map.empty\<rparr>], pe_trade_log = make_log 1,
     pe_latency = init_histogram, pe_accepting = True, pe_submitted = 0, pe_processed = 0, pe_accepted = 0,
     pe_rejected = 0, pe_trades = 0, pe_pending = 0\<rparr>"
  by (simp add: demo_pe_def make_partitioned_def mpmc_make_def)

definition demo_command :: Command where
  "demo_command = cancel_command default_symbol 1 None 0"

text \<open>A command is in the queue of the only shard, and a waiter has just seen that it is pending.\<close>

definition falling :: system where
  "falling = \<lparr>eng = demo_pe\<lparr>pe_pending := 1, pe_submitted := pe_submitted demo_pe + 1,
      pe_shards := [\<lparr>sh_queue = mpmc_store (projr (mpmc_make 1)) demo_command, sh_engines = Map.empty\<rparr>]\<rparr>,
    callers = [C_Idle], owners = (\<lambda>_. W_Pop), waiters = [I_Falling], closing = S_Out,
    arrived = (\<lambda>_. [])(0 := [demo_command]), executed = (\<lambda>_. []), completions = []\<rparr>"

lemma falling_reachable: "part_step\<^sup>*\<^sup>* (part_start demo_pe 1 1) falling"
proof -
  let ?s0 = "part_start demo_pe 1 1"
  let ?s1 = "?s0\<lparr>callers := [C_Admitted demo_command True]\<rparr>"
  let ?s2 = "?s0\<lparr>eng := demo_pe\<lparr>pe_pending := 1\<rparr>, callers := [C_Counted demo_command True]\<rparr>"
  let ?s3 = "falling\<lparr>eng := (eng falling)\<lparr>pe_submitted := pe_submitted demo_pe\<rparr>, callers := [C_Pushed], waiters := [I_Out]\<rparr>"
  let ?s4 = "falling\<lparr>waiters := [I_Out]\<rparr>"
  let ?s5 = "falling\<lparr>waiters := [I_Check]\<rparr>"
  have "part_step ?s0 ?s1"
    using part_step.call [of ?s0 0 demo_command True]
    by (simp add: part_start_def caller_at_def set_caller_def demo_pe_fields demo_command_def cancel_command_def
        engine_command_def command_valid_def)
  moreover have "part_step ?s1 ?s2"
    using part_step.count [of ?s1 0 demo_command True]
    by (simp add: part_start_def caller_at_def set_caller_def demo_pe_fields)
  moreover have "part_step ?s2 ?s3"
    using part_step.push [of ?s2 0 demo_command "mpmc_store (projr (mpmc_make 1)) demo_command"]
    by (simp add: part_start_def caller_at_def set_caller_def set_queue_def set_shard_def queue_at_def shardIndex_def shard_of_def
        demo_pe_fields mpmc_push_def mpmc_make_def mpmc_size_def falling_def)
  moreover have "part_step ?s3 ?s4"
    using part_step.submitted [of ?s3 0] by (simp add: caller_at_def set_caller_def falling_def demo_pe_record)
  moreover have "part_step ?s4 ?s5"
    using part_step.wait [of ?s4 0] by (simp add: waiter_at_def set_waiter_def)
  moreover have "part_step ?s5 falling"
    using part_step.wait_busy [of ?s5 0] by (simp add: waiter_at_def set_waiter_def falling_def)
  ultimately show ?thesis by (meson converse_rtranclp_into_rtranclp rtranclp.rtrancl_refl)
qed

text \<open>
  The waiters' mutex does not cover the decrement of the counter: the last command can be finished, and
  the notification sent, after a waiter has seen the counter and before it sleeps. The waiter then sleeps
  although nothing is pending, and no thread of the engine has a notification left to send.
\<close>

theorem idle_wakeup_lost:
  "\<exists>pe s. make_partitioned 1 1 default_limits 1 = Inr pe \<and> part_step\<^sup>*\<^sup>* (part_start pe 1 1) s \<and>
    waiter_at s 0 I_Asleep \<and> pe_pending (eng s) = 0 \<and> callers s = [C_Idle] \<and> closing s = S_Out \<and>
    (\<forall>i < shard_count s. owners s i = W_Pop \<and> buffer (queue_at s i) = [])"
proof -
  let ?q = "(mpmc_store (projr (mpmc_make 1)) demo_command)\<lparr>buffer := []\<rparr>"
  have pop: "mpmc_pop (queue_at falling 0) = Some (Some demo_command, ?q)"
    by (simp add: mpmc_pop_def queue_at_def falling_def mpmc_make_def)
  let ?sh = "(pe_shards (eng falling) ! 0)\<lparr>sh_queue := ?q\<rparr>"
  have "engine_ready (Suc 0) (engine_of default_limits ?sh k)" for k
    by (simp add: engine_of_def falling_def init_engine_ready)
  moreover have "command_valid (engine_command demo_command)"
    by (simp add: demo_command_def cancel_command_def engine_command_def command_valid_def)
  ultimately obtain r sh where run: "run_command default_limits demo_command ?sh = Some (r, sh)"
    using engine.step_returns [of 0 "engine_of default_limits ?sh (symbol_key (c_symbol demo_command))"
        "engine_command demo_command"]
    by (auto simp: run_command_engine)
  have "\<exists>s'. part_step\<^sup>*\<^sup>* falling s' \<and> pe_pending (eng s') = pe_pending (eng falling) - 1 \<and> owners s' = owners falling \<and>
      queue_at s' 0 = ?q \<and> waiters s' = waiters falling \<and> callers s' = callers falling \<and>
      closing s' = closing falling \<and> shard_count s' = shard_count falling"
    by (rule owner_cycle [OF _ _ pop])
      (use run in \<open>simp_all add: falling_def shard_count_def demo_pe_fields demo_command_def cancel_command_def\<close>)
  then obtain s where s: "part_step\<^sup>*\<^sup>* falling s" "pe_pending (eng s) = 0" "owners s = (\<lambda>_. W_Pop)" "queue_at s 0 = ?q"
    "waiters s = [I_Falling]" "callers s = [C_Idle]" "closing s = S_Out" "shard_count s = 1"
    by (auto simp: falling_def shard_count_def demo_pe_fields)
  have "part_step s (set_waiter s 0 I_Asleep)" by (rule part_step.wait_sleep) (simp add: waiter_at_def s)
  with falling_reachable s(1) have "part_step\<^sup>*\<^sup>* (part_start demo_pe 1 1) (set_waiter s 0 I_Asleep)" by simp
  with s demo_pe show ?thesis
    by (intro exI [of _ demo_pe] exI [of _ "set_waiter s 0 I_Asleep"])
      (simp add: waiter_at_def set_waiter_def queue_at_def shard_count_def)
qed

section \<open>Witnesses\<close>

lemma start_reachable: "part_step\<^sup>*\<^sup>* (part_start demo_pe 1 1) (part_start demo_pe 1 1)"
  by simp

theorem partitioned_deterministic_witness:
  "arrived falling 0 = [demo_command] \<and> (\<exists>rest. arrived falling 0 = map fst (executed falling 0) @ rest)"
  using partitioned_deterministic [OF demo_pe falling_reachable, of default_symbol]
  by (simp add: Let_def falling_def shardIndex_def shard_of_def demo_pe_fields word_less_nat_alt)

theorem partitioned_never_stuck_witness: "\<exists>s'. part_step falling s' \<and> owners s' 0 \<noteq> W_Pop"
  using partitioned_never_stuck [OF demo_pe falling_reachable]
  by (auto simp: falling_def queue_at_def word_less_nat_alt)

theorem idle_means_done_witness:
  "arrived (part_start demo_pe 1 1) 0 = map fst (executed (part_start demo_pe 1 1) 0)"
proof -
  have "load (part_start demo_pe 1 1) = 0"
    by (simp add: load_def part_start_def counted_caller_def shard_count_def demo_pe_fields queue_at_def mpmc_make_def busy_def)
  with idle_means_done [OF demo_pe start_reachable, of 0] show ?thesis
    by (simp add: part_start_def demo_pe_fields word_less_nat_alt)
qed

theorem partitioned_trade_log_witness:
  "recent (pe_trade_log (eng falling)) default_symbol 5 =
    last_n 1 (trades_for (symbol_key default_symbol) (accounted falling 0))"
  using partitioned_trade_log [OF demo_pe falling_reachable, of default_symbol 5]
  by (simp add: word_less_nat_alt shardIndex_def shard_of_def falling_def demo_pe_fields)

definition shut_down :: "closer \<Rightarrow> bool \<Rightarrow> owner \<Rightarrow> system" where
  "shut_down x b w = (part_start demo_pe 1 1)\<lparr>eng := demo_pe\<lparr>pe_accepting := False,
     pe_shards := [(pe_shards demo_pe ! 0)\<lparr>sh_queue := (sh_queue (pe_shards demo_pe ! 0))\<lparr>mq_closed := b\<rparr>\<rparr>]\<rparr>,
     closing := x, owners := (\<lambda>_. W_Pop)(0 := w)\<rparr>"

lemmas shut_down_simps = shut_down_def part_start_def demo_pe_record shard_count_def set_queue_def set_shard_def set_owner_def
  queue_at_def mpmc_make_def mpmc_close_def mpmc_pop_def fun_upd_idem

lemma shut_down_reachable: "part_step\<^sup>*\<^sup>* (part_start demo_pe 1 1) (shut_down S_Notify True W_Done)"
proof -
  have "part_step (part_start demo_pe 1 1) (shut_down (S_Close 0) False W_Pop)"
    using part_step.shutdown [of "part_start demo_pe 1 1"] by (simp add: shut_down_simps)
  moreover have "part_step (shut_down (S_Close 0) False W_Pop) (shut_down (S_Close 1) True W_Pop)"
    using part_step.close_queue [of "shut_down (S_Close 0) False W_Pop" 0] by (simp add: shut_down_simps)
  moreover have "part_step (shut_down (S_Close 1) True W_Pop) (shut_down (S_Join 0) True W_Pop)"
    using part_step.all_closed [of "shut_down (S_Close 1) True W_Pop" 1] by (simp add: shut_down_simps)
  moreover have "part_step (shut_down (S_Join 0) True W_Pop) (shut_down (S_Join 0) True W_Done)"
    using part_step.pop_end [of 0 "shut_down (S_Join 0) True W_Pop"] by (simp add: shut_down_simps)
  moreover have "part_step (shut_down (S_Join 0) True W_Done) (shut_down (S_Join 1) True W_Done)"
    using part_step.join [of "shut_down (S_Join 0) True W_Done" 0] by (simp add: shut_down_simps)
  moreover have "part_step (shut_down (S_Join 1) True W_Done) (shut_down S_Notify True W_Done)"
    using part_step.all_joined [of "shut_down (S_Join 1) True W_Done" 1] by (simp add: shut_down_simps)
  ultimately show ?thesis by (elim converse_rtranclp_into_rtranclp [OF _ r_into_rtranclp] converse_rtranclp_into_rtranclp)
qed

theorem shutdown_drains_witness: "mq_closed (queue_at (shut_down S_Notify True W_Done) 0)"
  using shutdown_drains [OF demo_pe shut_down_reachable, of 0] by (simp add: shut_down_def word_less_nat_alt)

end
