(* ===== verification/Shared_Types.thy ===== *)
theory Shared_Types
  imports Order_Types Spsc_Queue
begin

text \<open>
  The shared-memory region of the three-process deployment: the header with its telemetry and the
  three rings between the feed, the engine and the viewer.
\<close>

datatype RegionState = NOT_READY | READY

definition region_state_code :: "RegionState \<Rightarrow> u32" where
  "region_state_code s = (case s of NOT_READY \<Rightarrow> 0 | READY \<Rightarrow> 1)"

datatype OrderMsgType = MSG_NEW_ORDER | MSG_CANCEL_ORDER | OrderMsgType_Word u32

record OrderMsg =
  m_type :: OrderMsgType
  m_order :: Order

definition default_msg :: OrderMsg where
  "default_msg = \<lparr>m_type = MSG_NEW_ORDER, m_order = default_order\<rparr>"

definition default_trade :: Trade where
  "default_trade = \<lparr>t_trade_id = 0, t_buy_order_id = 0, t_sell_order_id = 0, t_price = 0, t_quantity = 0, t_sequence = 0\<rparr>"

definition kSharedMemoryMagic :: u64 where "kSharedMemoryMagic = 0x4C4F4253505343"
definition kSharedMemoryVersion :: u32 where "kSharedMemoryVersion = 2"
definition kOrderQueueCapacity :: nat where "kOrderQueueCapacity = 2 ^ 16"
definition kTradeQueueCapacity :: nat where "kTradeQueueCapacity = 2 ^ 16"
definition kReportQueueCapacity :: nat where "kReportQueueCapacity = 2 ^ 16"
definition kNoBid :: int where "kNoBid = - (2 ^ 63)"
definition kNoAsk :: int where "kNoAsk = 2 ^ 63 - 1"

record SharedHeader =
  magic :: u64
  region_size :: u64
  version :: u32
  state :: u32
  producer_done :: u32
  engine_done :: u32
  best_bid :: int
  best_ask :: int
  processed_commands :: u64
  accepted_commands :: u64
  rejected_commands :: u64
  canceled_commands :: u64
  trades_generated :: u64
  last_sequence :: u64
  engine_heartbeat_ns :: u64
  producer_heartbeat_ns :: u64
  viewer_heartbeat_ns :: u64

definition default_header :: SharedHeader where
  "default_header = \<lparr>magic = 0, region_size = 0, version = 0, state = region_state_code NOT_READY, producer_done = 0,
     engine_done = 0, best_bid = kNoBid, best_ask = kNoAsk, processed_commands = 0, accepted_commands = 0,
     rejected_commands = 0, canceled_commands = 0, trades_generated = 0, last_sequence = 0, engine_heartbeat_ns = 0,
     producer_heartbeat_ns = 0, viewer_heartbeat_ns = 0\<rparr>"

record SharedRegion =
  header :: SharedHeader
  order_queue :: "OrderMsg SPSCQueue"
  trade_queue :: "Trade SPSCQueue"
  report_queue :: "ExecutionReport SPSCQueue"

definition default_region :: SharedRegion where
  "default_region = \<lparr>header = default_header, order_queue = spsc_init kOrderQueueCapacity default_msg,
     trade_queue = spsc_init kTradeQueueCapacity default_trade,
     report_queue = spsc_init kReportQueueCapacity default_report\<rparr>"

definition region_ok :: "SharedRegion \<Rightarrow> bool" where
  "region_ok r \<longleftrightarrow> spsc_ok (order_queue r) \<and> spsc_ok (trade_queue r) \<and> spsc_ok (report_queue r)"

lemma spsc_init_ok: "power_of_two n \<Longrightarrow> spsc_ok (spsc_init n x) \<and> spsc_contents (spsc_init n x) = []"
  by (simp add: spsc_ok_def spsc_init_def spsc_contents_def)

lemma power_of_two_capacity: "power_of_two (2 ^ 16)"
  by (auto simp: power_of_two_def intro: exI [of _ 16])

lemma default_region_ok: "region_ok default_region"
  by (simp add: spsc_init_ok [OF power_of_two_capacity, simplified] region_ok_def default_region_def kOrderQueueCapacity_def kTradeQueueCapacity_def kReportQueueCapacity_def)

lemma default_region_empty:
  "spsc_contents (order_queue default_region) = []" "spsc_contents (trade_queue default_region) = []"
  "spsc_contents (report_queue default_region) = []"
  by (simp_all add: spsc_init_ok [OF power_of_two_capacity, simplified] default_region_def kOrderQueueCapacity_def kTradeQueueCapacity_def kReportQueueCapacity_def)

end
