(* ===== verification/Engine_Process.thy ===== *)
theory Engine_Process
  imports Journal_Properties Shared_Types
begin

text \<open>
  The matching-engine process of the three-process deployment: start-up with recovery from the journal,
  and the main loop between the feed and the viewer. The rings are used through their operations; the
  interleaving inside an operation is the subject of \<open>Spsc_Queue\<close>. The feed, the viewer and the
  engine process take their steps in any order, and the process may be killed after any of them.
\<close>

section \<open>Start-up\<close>

record EngineArgs =
  ea_path :: string
  ea_idle_exit_ms :: int
  ea_journal_path :: string
  ea_recover :: bool
  ea_sync_journal :: bool
  ea_risk_limits :: RiskLimits

definition publishBook :: "MatchingEngine \<Rightarrow> SharedHeader \<Rightarrow> SharedHeader" where
  "publishBook e h = h\<lparr>
     best_bid := (case bestBid (book e) of None \<Rightarrow> kNoBid | Some p \<Rightarrow> p),
     best_ask := (case bestAsk (book e) of None \<Rightarrow> kNoAsk | Some p \<Rightarrow> p),
     last_sequence := sequence e\<rparr>"

definition start_region :: "u64 \<Rightarrow> u64 \<Rightarrow> JournalReplayResult \<Rightarrow> MatchingEngine \<Rightarrow> SharedRegion" where
  "start_region sz now res e =
     (let h = default_header\<lparr>magic := kSharedMemoryMagic, region_size := sz, version := kSharedMemoryVersion,
                engine_heartbeat_ns := now, processed_commands := rp_records res,
                accepted_commands := rp_accepted res, rejected_commands := rp_rejected res,
                canceled_commands := canceled_orders e, trades_generated := tradeCount e\<rparr>
      in default_region\<lparr>header := (publishBook e h)\<lparr>state := region_state_code READY\<rparr>\<rparr>)"

text \<open>
  The engine, the journal and the region when the loop is entered, or the exit code. Whether the region
  could be created, its size and the clock are what the environment gives.
\<close>

definition engine_start ::
  "bool \<Rightarrow> u64 \<Rightarrow> u64 \<Rightarrow> EngineArgs \<Rightarrow> Os \<Rightarrow> (nat + MatchingEngine \<times> EventJournal \<times> SharedRegion \<times> Os) option" where
  "engine_start created sz now args os =
     (case (if ea_recover args then replay os (ea_journal_path args) (init_engine (ea_risk_limits args))
            else Some (default_replay, init_engine (ea_risk_limits args), os)) of
        None \<Rightarrow> None
      | Some (res, e, os) \<Rightarrow>
          if ea_recover args \<and> \<not> rp_ok res then Some (Inl 1)
          else
            let (opened, j, os) =
                  (if ea_journal_path args \<noteq> ''''
                   then open_journal os closed_journal (ea_journal_path args)
                     (if ea_recover args then APPEND else TRUNCATE)
                     (if ea_sync_journal args then FDATASYNC_EACH_RECORD else BUFFERED)
                   else (True, closed_journal, os))
            in if \<not> opened \<or> \<not> created then Some (Inl 1)
               else Some (Inr (e, j, start_region sz now res e, os)))"

section \<open>The main loop\<close>

definition msg_command :: "OrderMsg \<Rightarrow> EngineCommand" where
  "msg_command m = (if m_type m = MSG_NEW_ORDER then New (m_order m) else Cancel (o_id (m_order m)))"

definition journal_message :: "Os \<Rightarrow> EventJournal \<Rightarrow> OrderMsg \<Rightarrow> bool \<times> EventJournal \<times> Os" where
  "journal_message os j m =
     (if m_type m = MSG_NEW_ORDER then appendNewOrder os j (m_order m) else appendCancel os j (o_id (m_order m)))"

definition apply_message ::
  "MatchingEngine \<Rightarrow> OrderMsg \<Rightarrow> (ExecutionReport \<times> Trade list \<times> MatchingEngine) option" where
  "apply_message e m =
     (if m_type m = MSG_NEW_ORDER
      then map_option (\<lambda>(rep, e', ts). (rep, ts, e')) (processOrder e (m_order m) [])
      else map_option (\<lambda>(rep, e'). (rep, [], e')) (cancel e (o_id (m_order m))))"

definition count_message :: "ExecutionReport \<Rightarrow> nat \<Rightarrow> SharedHeader \<Rightarrow> SharedHeader" where
  "count_message rep trades h = h\<lparr>
     processed_commands := processed_commands h + 1,
     accepted_commands := (if accepted rep then accepted_commands h + 1 else accepted_commands h),
     rejected_commands := (if accepted rep then rejected_commands h else rejected_commands h + 1),
     canceled_commands := (if r_status rep = CANCELED then canceled_commands h + 1 else canceled_commands h),
     trades_generated := trades_generated h + of_nat trades\<rparr>"

text \<open>
  Where the process is: polling; after a poll that found nothing; with a message to journal; to apply; with trades still to be published,
  the report and the number of trades; with the report to be published; with the counters to be updated;
  out of the loop; out of it because the journal refused a message; ended, with the exit code and the
  message that was refused.
\<close>

datatype main_point =
    M_Poll | M_Empty | M_Journal OrderMsg | M_Apply OrderMsg
  | M_Trades "Trade list" ExecutionReport nat | M_Report ExecutionReport nat | M_Count ExecutionReport nat
  | M_Leave | M_Failed OrderMsg | M_Exit nat "OrderMsg option"

record process =
  region :: SharedRegion
  mp_engine :: MatchingEngine
  mp_journal :: EventJournal
  mp_os :: Os
  point :: main_point
  sent :: "OrderMsg list"
  taken :: "OrderMsg list"
  results :: "(ExecutionReport \<times> Trade list) list"
  trades_seen :: "Trade list"
  reports_seen :: "ExecutionReport list"

definition mark_done :: "u64 \<Rightarrow> SharedRegion \<Rightarrow> SharedRegion" where
  "mark_done now r = r\<lparr>header := (header r)\<lparr>engine_heartbeat_ns := now, engine_done := 1\<rparr>\<rparr>"

definition final_sync :: "EngineArgs \<Rightarrow> process \<Rightarrow> bool \<times> EventJournal \<times> Os" where
  "final_sync args s =
     (if isOpen (mp_journal s) \<and> \<not> ea_sync_journal args then sync (mp_os s) (mp_journal s) else (True, mp_journal s, mp_os s))"

text \<open>The engine's loop. A signal ends it where it begins a round; how long it has been idle is the clock's to say.\<close>

inductive engine_step :: "EngineArgs \<Rightarrow> process \<Rightarrow> process \<Rightarrow> bool" for args where
  heartbeat: "point s = M_Poll \<Longrightarrow>
    engine_step args s (s\<lparr>region := (region s)\<lparr>header := (header (region s))\<lparr>engine_heartbeat_ns := t\<rparr>\<rparr>\<rparr>)"
| stop: "point s = M_Poll \<Longrightarrow> engine_step args s (s\<lparr>point := M_Leave\<rparr>)"
| poll: "point s = M_Poll \<Longrightarrow> spsc_try_pop (order_queue (region s)) = Some (m, q) \<Longrightarrow>
    engine_step args s (s\<lparr>region := (region s)\<lparr>order_queue := q\<rparr>, point := M_Journal m\<rparr>)"
| poll_empty: "point s = M_Poll \<Longrightarrow> spsc_try_pop (order_queue (region s)) = None \<Longrightarrow>
    engine_step args s (s\<lparr>point := M_Empty\<rparr>)"
| idle_exit: "point s = M_Empty \<Longrightarrow> 0 < ea_idle_exit_ms args \<Longrightarrow> producer_done (header (region s)) \<noteq> 0 \<Longrightarrow>
    engine_step args s (s\<lparr>point := M_Leave\<rparr>)"
| idle: "point s = M_Empty \<Longrightarrow> engine_step args s (s\<lparr>point := M_Poll\<rparr>)"
| no_journal: "point s = M_Journal m \<Longrightarrow> \<not> isOpen (mp_journal s) \<Longrightarrow>
    engine_step args s (s\<lparr>point := M_Apply m\<rparr>)"
| journal: "point s = M_Journal m \<Longrightarrow> isOpen (mp_journal s) \<Longrightarrow>
    journal_message (mp_os s) (mp_journal s) m = (ok, j, os) \<Longrightarrow>
    engine_step args s (s\<lparr>mp_journal := j, mp_os := os, point := (if ok then M_Apply m else M_Failed m)\<rparr>)"
| apply_msg: "point s = M_Apply m \<Longrightarrow> apply_message (mp_engine s) m = Some (rep, ts, e) \<Longrightarrow>
    engine_step args s (s\<lparr>mp_engine := e, point := M_Trades ts rep (length ts), taken := taken s @ [m],
      results := results s @ [(rep, ts)]\<rparr>)"
| publish_trade: "point s = M_Trades (t # ts) rep n \<Longrightarrow> spsc_try_push (trade_queue (region s)) t = Some q \<Longrightarrow>
    engine_step args s (s\<lparr>region := (region s)\<lparr>trade_queue := q\<rparr>, point := M_Trades ts rep n\<rparr>)"
| trades_done: "point s = M_Trades [] rep n \<Longrightarrow> engine_step args s (s\<lparr>point := M_Report rep n\<rparr>)"
| publish_report: "point s = M_Report rep n \<Longrightarrow> spsc_try_push (report_queue (region s)) rep = Some q \<Longrightarrow>
    engine_step args s (s\<lparr>region := (region s)\<lparr>report_queue := q\<rparr>, point := M_Count rep n\<rparr>)"
| count_msg: "point s = M_Count rep n \<Longrightarrow>
    engine_step args s (s\<lparr>region := (region s)\<lparr>header := publishBook (mp_engine s) (count_message rep n (header (region s)))\<rparr>,
      point := M_Poll\<rparr>)"
| leave: "point s = M_Leave \<Longrightarrow> final_sync args s = (ok, j, os) \<Longrightarrow>
    engine_step args s (s\<lparr>mp_journal := j, mp_os := os, region := mark_done t (region s), point := M_Exit (if ok then 0 else 2) None\<rparr>)"
| leave_failed: "point s = M_Failed m \<Longrightarrow> final_sync args s = (ok, j, os) \<Longrightarrow>
    engine_step args s (s\<lparr>mp_journal := j, mp_os := os, region := mark_done t (region s), point := M_Exit 2 (Some m)\<rparr>)"

text \<open>What the feed and the viewer do to the region, in between.\<close>

inductive main_step :: "EngineArgs \<Rightarrow> process \<Rightarrow> process \<Rightarrow> bool" for args where
  engine: "engine_step args s s' \<Longrightarrow> main_step args s s'"
| feed: "spsc_try_push (order_queue (region s)) m = Some q \<Longrightarrow> command_canonical (msg_command m) \<Longrightarrow>
    main_step args s (s\<lparr>region := (region s)\<lparr>order_queue := q\<rparr>, sent := sent s @ [m]\<rparr>)"
| feed_header: "main_step args s (s\<lparr>region := (region s)\<lparr>header := (header (region s))
      \<lparr>producer_done := d, producer_heartbeat_ns := t\<rparr>\<rparr>\<rparr>)"
| view_trade: "spsc_try_pop (trade_queue (region s)) = Some (x, q) \<Longrightarrow>
    main_step args s (s\<lparr>region := (region s)\<lparr>trade_queue := q\<rparr>, trades_seen := trades_seen s @ [x]\<rparr>)"
| view_report: "spsc_try_pop (report_queue (region s)) = Some (x, q) \<Longrightarrow>
    main_step args s (s\<lparr>region := (region s)\<lparr>report_queue := q\<rparr>, reports_seen := reports_seen s @ [x]\<rparr>)"
| view_header: "main_step args s (s\<lparr>region := (region s)\<lparr>header := (header (region s))\<lparr>viewer_heartbeat_ns := t\<rparr>\<rparr>\<rparr>)"

text \<open>The viewer leaves its loop when the engine has ended and both its rings are empty.\<close>

definition viewer_finished :: "SharedRegion \<Rightarrow> bool" where
  "viewer_finished r \<longleftrightarrow> engine_done (header r) \<noteq> 0 \<and> spsc_empty (trade_queue r) \<and> spsc_empty (report_queue r)"

text \<open>The feed and the viewer only use a region of their own protocol version and size.\<close>

definition protocol_matches :: "u64 \<Rightarrow> SharedHeader \<Rightarrow> bool" where
  "protocol_matches sz h \<longleftrightarrow>
     \<not> (magic h \<noteq> kSharedMemoryMagic \<or> version h \<noteq> kSharedMemoryVersion \<or> region_size h \<noteq> sz)"

definition main_start :: "MatchingEngine \<Rightarrow> EventJournal \<Rightarrow> SharedRegion \<Rightarrow> Os \<Rightarrow> process" where
  "main_start e j r os = \<lparr>region = r, mp_engine = e, mp_journal = j, mp_os = os, point = M_Poll, sent = [], taken = [],
     results = [], trades_seen = [], reports_seen = []\<rparr>"

section \<open>Messages are applied in order, and all results published\<close>

definition in_flight :: "main_point \<Rightarrow> OrderMsg list" where
  "in_flight p = (case p of
     M_Journal m \<Rightarrow> [m] | M_Apply m \<Rightarrow> [m] | M_Failed m \<Rightarrow> [m] | M_Exit n x \<Rightarrow> (case x of None \<Rightarrow> [] | Some m \<Rightarrow> [m]) | _ \<Rightarrow> [])"

definition pending_trades :: "main_point \<Rightarrow> Trade list" where
  "pending_trades p = (case p of M_Trades ts rep n \<Rightarrow> ts | _ \<Rightarrow> [])"

definition pending_reports :: "main_point \<Rightarrow> ExecutionReport list" where
  "pending_reports p = (case p of M_Trades ts rep n \<Rightarrow> [rep] | M_Report rep n \<Rightarrow> [rep] | _ \<Rightarrow> [])"

lemmas point_defs = in_flight_def pending_trades_def pending_reports_def

definition published :: "MatchingEngine \<Rightarrow> SharedHeader \<Rightarrow> bool" where
  "published e h \<longleftrightarrow> best_bid h = (case bestBid (book e) of None \<Rightarrow> kNoBid | Some p \<Rightarrow> p) \<and>
     best_ask h = (case bestAsk (book e) of None \<Rightarrow> kNoAsk | Some p \<Rightarrow> p) \<and> last_sequence h = sequence e"

definition flow_inv :: "MatchingEngine \<Rightarrow> process \<Rightarrow> bool" where
  "flow_inv e0 s \<longleftrightarrow> region_ok (region s) \<and>
     sent s = taken s @ in_flight (point s) @ spsc_contents (order_queue (region s)) \<and>
     run_engine e0 (map msg_command (taken s)) = Some (results s, mp_engine s) \<and>
     concat (map snd (results s)) = trades_seen s @ spsc_contents (trade_queue (region s)) @ pending_trades (point s) \<and>
     map fst (results s) = reports_seen s @ spsc_contents (report_queue (region s)) @ pending_reports (point s) \<and>
     (\<forall>m \<in> set (sent s). command_canonical (msg_command m)) \<and>
     (point s = M_Poll \<or> point s = M_Empty \<longrightarrow> published (mp_engine s) (header (region s))) \<and>
     (engine_done (header (region s)) \<noteq> 0 \<longrightarrow> (\<exists>n x. point s = M_Exit n x))"

lemma apply_message_command:
  "apply_message e m = Some (rep, ts, e') \<longleftrightarrow> apply_command e (msg_command m) = Some ((rep, ts), e')"
  by (auto simp: apply_message_def apply_command_def msg_command_def)

lemma journal_message_command: "journal_message os j m = append_command os j (msg_command m)"
  by (simp add: journal_message_def append_command_def msg_command_def)

lemma published_others [simp]:
  "published e (h\<lparr>producer_done := d, producer_heartbeat_ns := t\<rparr>) = published e h"
  "published e (h\<lparr>engine_heartbeat_ns := t\<rparr>) = published e h" "published e (publishBook e h)"
  "published e (h\<lparr>state := x\<rparr>) = published e h" "published e (h\<lparr>viewer_heartbeat_ns := t\<rparr>) = published e h"
  by (simp_all add: published_def publishBook_def)

lemma spsc_empty_contents: "spsc_empty q \<Longrightarrow> spsc_contents q = []"
  by (simp add: spsc_empty_def spsc_contents_def)

lemma engine_done_publish [simp]: "engine_done (publishBook e (count_message rep n h)) = engine_done h"
  by (simp add: publishBook_def count_message_def)

lemma flow_inv_engine_step:
  assumes "engine_step args s s'" and "flow_inv e0 s"
  shows "flow_inv e0 s'"
  using assms
proof (induction rule: engine_step.induct)
  case (poll s m q)
  then show ?case using try_pop_some [of "order_queue (region s)" m q]
    by (auto simp: flow_inv_def region_ok_def point_defs)
next
  case (apply_msg s m rep ts e)
  then show ?case by (auto simp: flow_inv_def point_defs run_machine_append apply_message_command)
next
  case (publish_trade s t ts rep n q)
  then show ?case using try_push_some [of "trade_queue (region s)" t q]
    by (auto simp: flow_inv_def region_ok_def point_defs)
next
  case (publish_report s rep n q)
  then show ?case using try_push_some [of "report_queue (region s)" rep q]
    by (auto simp: flow_inv_def region_ok_def point_defs)
next
  case (journal s m ok j os)
  then show ?case by (cases ok) (auto simp: flow_inv_def point_defs)
qed (auto simp: flow_inv_def region_ok_def point_defs mark_done_def)

lemma flow_inv_step:
  assumes "main_step args s s'" and "flow_inv e0 s"
  shows "flow_inv e0 s'"
  using assms
proof (induction rule: main_step.induct)
  case (engine s s')
  then show ?case by (rule flow_inv_engine_step)
next
  case (feed s m q)
  then show ?case using try_push_some [of "order_queue (region s)" m q] by (auto simp: flow_inv_def region_ok_def)
next
  case (view_trade s x q)
  then show ?case using try_pop_some [of "trade_queue (region s)" x q] by (auto simp: flow_inv_def region_ok_def)
next
  case (view_report s x q)
  then show ?case using try_pop_some [of "report_queue (region s)" x q] by (auto simp: flow_inv_def region_ok_def)
qed (auto simp: flow_inv_def region_ok_def point_defs)

lemma flow_inv_start: "flow_inv e (main_start e j (start_region sz now res e) os)"
  using default_region_ok default_region_empty
  by (simp add: flow_inv_def main_start_def start_region_def Let_def point_defs region_ok_def publishBook_def
      default_header_def published_def)

lemma start_region_protocol: "protocol_matches sz (header (start_region sz now res e))"
  by (simp add: protocol_matches_def start_region_def publishBook_def Let_def)

section \<open>The journal is ahead of the engine\<close>

text \<open>The bytes after the records of the commands applied.\<close>

definition ahead :: "main_point \<Rightarrow> u64 \<Rightarrow> bytes \<Rightarrow> bool" where
  "ahead p n bs = (case p of
     M_Apply m \<Rightarrow> bs = command_record n (msg_command m)
   | M_Failed m \<Rightarrow> (\<exists>k \<le> kRecordSize. bs = take k (command_record n (msg_command m)))
   | M_Exit c x \<Rightarrow> (case x of
        None \<Rightarrow> bs = [] | Some m \<Rightarrow> \<exists>k \<le> kRecordSize. bs = take k (command_record n (msg_command m)))
   | _ \<Rightarrow> bs = [])"

definition journal_inv :: "string \<Rightarrow> EngineCommand list \<Rightarrow> process \<Rightarrow> bool" where
  "journal_inv path cs0 s \<longleftrightarrow> j_fd (mp_journal s) = Some path \<and>
     (let n = 1 + of_nat (length cs0 + length (taken s))
      in (\<exists>bs. file_of (mp_os s) path = journal_bytes 1 (cs0 @ map msg_command (taken s)) @ bs \<and> ahead (point s) n bs) \<and>
         (case point s of
            M_Apply m \<Rightarrow> next_ordinal (mp_journal s) = n + 1
          | M_Failed m \<Rightarrow> True
          | M_Exit c x \<Rightarrow> True
          | _ \<Rightarrow> next_ordinal (mp_journal s) = n))"

lemma append_command_effect:
  assumes "j_fd j = Some path" and "append_command os j c = (ok, j', os')"
  shows "\<exists>k \<le> kRecordSize. file_of os' path = file_of os path @ take k (command_record (next_ordinal j) c) \<and>
    j_fd j' = Some path \<and> (ok \<longrightarrow> k = kRecordSize \<and> next_ordinal j' = next_ordinal j + 1)"
proof -
  obtain t ord where c: "append_command os j c = appendRecord os j t ord"
    "command_record (next_ordinal j) c = encodeRecord t (next_ordinal j) ord"
    by (cases c) (auto simp: append_command_def appendNewOrder_def appendCancel_def command_record_def)
  from appendRecord_effect [OF assms(1), of os t ord ok j' os'] assms(2) c show ?thesis by auto
qed

lemma final_sync_keeps:
  assumes "final_sync args s = (ok, j, os)"
  shows "j_fd j = j_fd (mp_journal s) \<and> file_of os path = file_of (mp_os s) path"
  using assms by (auto simp: final_sync_def sync_def setError_def file_of_def Let_def split: if_splits prod.splits option.splits)

lemma journal_inv_journal:
  assumes "journal_inv path cs0 s" and "point s = M_Journal m"
    and "journal_message (mp_os s) (mp_journal s) m = (ok, j, os)"
  shows "journal_inv path cs0 (s\<lparr>mp_journal := j, mp_os := os, point := (if ok then M_Apply m else M_Failed m)\<rparr>)"
proof -
  let ?n = "1 + of_nat (length cs0 + length (taken s))"
  from assms(1,2) have s: "j_fd (mp_journal s) = Some path" "next_ordinal (mp_journal s) = ?n"
    "file_of (mp_os s) path = journal_bytes 1 (cs0 @ map msg_command (taken s))"
    by (auto simp: journal_inv_def ahead_def Let_def)
  from append_command_effect [OF s(1)] assms(3) journal_message_command obtain k where k:
    "k \<le> kRecordSize" "file_of os path = file_of (mp_os s) path @ take k (command_record ?n (msg_command m))"
    "j_fd j = Some path" "ok \<longrightarrow> k = kRecordSize \<and> next_ordinal j = ?n + 1"
    unfolding s(2) [symmetric] by metis
  with s show ?thesis by (cases ok) (auto simp: journal_inv_def ahead_def Let_def)
qed

lemma journal_inv_apply:
  assumes "journal_inv path cs0 s" and "point s = M_Apply m"
  shows "journal_inv path cs0 (s\<lparr>mp_engine := e, point := M_Trades ts rep k, taken := taken s @ [m], results := rs\<rparr>)"
  using assms by (auto simp: journal_inv_def ahead_def Let_def journal_bytes_append ac_simps)

lemma journal_inv_cong:
  assumes "journal_inv path cs0 s" and "mp_journal s' = mp_journal s" and "mp_os s' = mp_os s" and "taken s' = taken s"
    and "point s' = point s"
  shows "journal_inv path cs0 s'"
  using assms(1) unfolding journal_inv_def assms(2-5) .

lemma journal_inv_engine_step:
  assumes "engine_step args s s'" and "journal_inv path cs0 s"
  shows "journal_inv path cs0 s'"
  using assms
proof (induction rule: engine_step.induct)
  case (journal s m ok j os)
  then show ?case by (simp add: journal_inv_journal)
next
  case (apply_msg s m rep ts e)
  then show ?case by (simp add: journal_inv_apply)
next
  case (no_journal s m)
  then show ?case by (auto simp: journal_inv_def isOpen_def)
next
  case (leave s ok j os t)
  with final_sync_keeps [OF leave(2)] show ?case by (auto simp: journal_inv_def ahead_def Let_def)
next
  case (leave_failed s m ok j os t)
  with final_sync_keeps [OF leave_failed(2)] show ?case by (auto simp: journal_inv_def ahead_def Let_def)
qed (auto simp: journal_inv_def ahead_def Let_def)

lemma journal_inv_step:
  assumes "main_step args s s'" and "journal_inv path cs0 s"
  shows "journal_inv path cs0 s'"
  using assms(1)
proof cases
  case engine
  then show ?thesis using assms(2) by (rule journal_inv_engine_step)
qed (rule journal_inv_cong [OF assms(2)]; simp)+

section \<open>Recovery\<close>

text \<open>A replay that succeeds has run the commands of the file, whatever the system calls did.\<close>

lemma count_result_ok [simp]: "rp_ok (count_result b rep k n res) = rp_ok res"
  by (simp add: count_result_def Let_def)

lemma replay_loop_ok:
  assumes "replay_loop outs (journal_bytes n cs) n res e = Some (res', e', outs')" and "rp_ok res'" and "\<not> rp_ok res"
    and "\<forall>c \<in> set cs. command_canonical c" and "run_engine e cs = Some (rs, e1)"
  shows "e' = e1"
  using assms
proof (induction cs arbitrary: n res e outs rs)
  case Nil
  then show ?case
    using readRecord_result [of "[]" outs "[]"]
    by (cases "readRecord outs [] []")
      (subst (asm) replay_loop.simps, auto simp: replay_failed_def read_spec_def kRecordSize_def)
next
  case (Cons c cs)
  let ?rest = "journal_bytes (n + 1) cs"
  from Cons.prems(5) obtain rep ts e2 rs1 where step: "apply_command e c = Some ((rep, ts), e2)"
    and run: "run_engine e2 cs = Some (rs1, e1)" by (auto split: option.splits)
  from readRecord_result [of "[]" outs "command_record n c @ ?rest"] consider
    m bs r o' where "readRecord outs [] (command_record n c @ ?rest) = (READ_ERROR m, bs, r, o')"
    | o' where "readRecord outs [] (command_record n c @ ?rest) = (FULL, command_record n c, ?rest, o')"
    by (cases "readRecord outs [] (command_record n c @ ?rest)") (auto simp: read_spec_def)
  then show ?case
  proof cases
    case 1
    with Cons.prems(1-3) show ?thesis by (subst (asm) replay_loop.simps) (auto simp: replay_failed_def)
  next
    case 2
    let ?res = "count_result (\<exists>ord. c = New ord) rep (length ts) n res"
    from 2 replay_record_command [OF _ step, of n res] Cons.prems(1,4)
    have "replay_loop o' ?rest (n + 1) ?res e2 = Some (res', e', outs')"
      by (subst (asm) replay_loop.simps) (simp add: command_record_valid)
    from Cons.IH [OF this Cons.prems(2) _ _ run] Cons.prems(3,4) show ?thesis by simp
  qed
qed

lemma replay_ok:
  assumes "replay os path e = Some (res, e', os')" and "rp_ok res" and "os_files os path = Some (journal_bytes 1 cs)"
    and "\<forall>c \<in> set cs. command_canonical c" and "run_engine e cs = Some (rs, e1)"
  shows "e' = e1 \<and> os_files os' = os_files os"
proof -
  from assms(1-3) obtain outs' where "replay_loop (os_io os) (journal_bytes 1 cs) 1 default_replay e = Some (res, e', outs')"
    and "os_files os' = os_files os"
    by (auto simp: replay_def default_replay_def file_of_def Let_def split: prod.splits option.splits if_splits)
  with replay_loop_ok [OF this(1) assms(2) _ assms(4,5)] show ?thesis by (simp add: default_replay_def)
qed

text \<open>Opening for append an intact journal continues its numbering.\<close>

lemma open_append_intact:
  assumes "os_files os path = Some (journal_bytes 1 cs)" and "open_journal os j path APPEND dur = (True, j1, os1)"
  shows "j_fd j1 = Some path \<and> file_of os1 path = journal_bytes 1 cs \<and> next_ordinal j1 = 1 + of_nat (length cs)"
proof -
  have f: "file_of os path = journal_bytes 1 cs" using assms(1) by (simp add: file_of_def)
  from open_append_ok [OF assms(2)] assms(1) f obtain res outs where
    scan: "scan_loop (os_io os) (journal_bytes 1 cs @ []) 1 default_scan = (res, outs)" "scan_ok res"
    and j1: "j_fd j1 = Some path" "file_of os1 path = journal_bytes 1 cs" "next_ordinal j1 = scan_records res + 1"
    by auto
  from scan_loop_commands [OF scan] obtain outs1 where
    "scan_loop outs1 [] (1 + of_nat (length cs)) (default_scan\<lparr>scan_records := of_nat (length cs)\<rparr>) = (res, outs)"
    by (auto simp: default_scan_def)
  from scan_loop_end [OF this] j1 show ?thesis by (simp add: add.commute)
qed

text \<open>The state the loop is entered in: without recovery the journal is empty.\<close>

lemma engine_start_inv:
  assumes "engine_start created sz now args os = Some (Inr (e, j, r, os1))" and "ea_journal_path args \<noteq> ''''"
    and "if ea_recover args then os_files os (ea_journal_path args) = Some (journal_bytes 1 cs0) else cs0 = []"
    and "\<forall>c \<in> set cs0. command_canonical c" and "run_engine (init_engine (ea_risk_limits args)) cs0 = Some (rs0, e0)"
  shows "e = e0 \<and> flow_inv e (main_start e j r os1) \<and> journal_inv (ea_journal_path args) cs0 (main_start e j r os1)"
proof -
  let ?path = "ea_journal_path args"
  let ?mode = "if ea_recover args then APPEND else TRUNCATE"
  let ?dur = "if ea_sync_journal args then FDATASYNC_EACH_RECORD else BUFFERED"
  from assms(1,2) obtain res os' where
    rp: "(if ea_recover args then replay os ?path (init_engine (ea_risk_limits args))
          else Some (default_replay, init_engine (ea_risk_limits args), os)) = Some (res, e, os')"
    and ok: "ea_recover args \<longrightarrow> rp_ok res"
    and op: "open_journal os' closed_journal ?path ?mode ?dur = (True, j, os1)"
    and r: "r = start_region sz now res e"
    by (auto simp: engine_start_def Let_def split: option.splits prod.splits if_splits)
  have e: "e = e0" and f: "ea_recover args \<Longrightarrow> os_files os' ?path = Some (journal_bytes 1 cs0)"
    using rp ok assms(3-5) replay_ok [of os ?path "init_engine (ea_risk_limits args)" res e os' cs0 rs0 e0]
    by (auto split: if_splits)
  have "j_fd j = Some ?path \<and> file_of os1 ?path = journal_bytes 1 cs0 \<and> next_ordinal j = 1 + of_nat (length cs0)"
  proof (cases "ea_recover args")
    case True
    with open_append_intact [OF f] op show ?thesis by simp
  next
    case False
    with op assms(3) show ?thesis
      by (auto simp: open_journal_def Let_def file_of_def closed_journal_def close_journal_def isOpen_def setError_def
          split: prod.splits option.splits)
  qed
  with e r flow_inv_start show ?thesis by (auto simp: journal_inv_def main_start_def ahead_def Let_def)
qed

lemma main_reachable_inv:
  assumes "(main_step args)\<^sup>*\<^sup>* s s'" and "flow_inv e0 s" and "journal_inv path cs0 s"
  shows "flow_inv e0 s' \<and> journal_inv path cs0 s'"
  using assms by (induction rule: rtranclp_induct) (auto intro: flow_inv_step journal_inv_step)

lemma run_machine_snoc:
  assumes "run_machine f s cs = Some (rs, s1)" and "run_machine f s (cs @ [c]) = Some (rs', s')"
  shows "\<exists>r. f s1 c = Some (r, s')"
  using assms by (auto simp: run_machine_append split: option.splits)

lemma record_prefix_cases:
  assumes "k \<le> kRecordSize" and "bs = take k (command_record n c)"
  obtains "bs = []" | "bs = command_record n c" | "bs \<noteq> []" and "length bs < kRecordSize"
proof (cases "k = kRecordSize")
  case True
  with assms that(2) show thesis by simp
next
  case False
  with assms have "length bs < kRecordSize" by simp
  with that(1,3) show thesis by blast
qed

lemma ahead_cases:
  assumes "ahead p n bs"
  obtains (none) "bs = []"
  | (whole) m where "in_flight p = [m]" and "bs = command_record n (msg_command m)"
  | (torn) m where "in_flight p = [m]" and "bs \<noteq> []" and "length bs < kRecordSize"
      and "p = M_Failed m \<or> (\<exists>c. p = M_Exit c (Some m))"
proof (cases p)
  case (M_Failed m)
  with assms obtain k where "k \<le> kRecordSize" "bs = take k (command_record n (msg_command m))" by (auto simp: ahead_def)
  then show thesis by (rule record_prefix_cases) (use that M_Failed in \<open>auto simp: in_flight_def\<close>)
next
  case (M_Exit c x)
  show thesis
  proof (cases x)
    case None
    with assms M_Exit that(1) show thesis by (simp add: ahead_def)
  next
    case (Some m)
    with assms M_Exit obtain k where "k \<le> kRecordSize" "bs = take k (command_record n (msg_command m))"
      by (auto simp: ahead_def)
    then show thesis by (rule record_prefix_cases) (use that M_Exit Some in \<open>auto simp: in_flight_def\<close>)
  qed
qed (use assms that in \<open>auto simp: ahead_def in_flight_def\<close>)

section \<open>Properties\<close>


lemma reachable_flow_inv:
  assumes "engine_start created sz now args os = Some (Inr (e, j, r, os1))" and "(main_step args)\<^sup>*\<^sup>* (main_start e j r os1) s"
  shows "flow_inv e s"
proof -
  from assms(1) obtain res where "r = start_region sz now res e"
    by (auto simp: engine_start_def Let_def split: option.splits prod.splits if_splits)
  then have "flow_inv e (main_start e j r os1)" by (simp add: flow_inv_start)
  with assms(2) show ?thesis by (induction rule: rtranclp_induct) (auto intro: flow_inv_step)
qed

text \<open>Nothing is lost between the processes. In every reachable state, the messages the feed sent are those
  applied, the one in hand and those in the ring, in order; the engine and its results are those of
  running the applied messages one after the other; the trades and reports the viewer has seen, followed
  by those in the rings and the one being published, are exactly these results, in order; whenever
  the process polls, the published quotes are those of the book; and when the viewer finds the engine
  ended and its rings empty, it has seen everything.\<close>

theorem pipeline_exact:
  assumes "engine_start created sz now args os = Some (Inr (e, j, r, os1))"
    and "(main_step args)\<^sup>*\<^sup>* (main_start e j r os1) s"
  shows "sent s = taken s @ in_flight (point s) @ spsc_contents (order_queue (region s)) \<and>
    run_engine e (map msg_command (taken s)) = Some (results s, mp_engine s) \<and>
    concat (map snd (results s)) = trades_seen s @ spsc_contents (trade_queue (region s)) @ pending_trades (point s) \<and>
    map fst (results s) = reports_seen s @ spsc_contents (report_queue (region s)) @ pending_reports (point s) \<and>
    (point s = M_Poll \<or> point s = M_Empty \<longrightarrow> published (mp_engine s) (header (region s))) \<and>
    (viewer_finished (region s) \<longrightarrow> reports_seen s = map fst (results s) \<and> trades_seen s = concat (map snd (results s)))"
proof -
  have "flow_inv e s" by (rule reachable_flow_inv [OF assms])
  moreover from this have "viewer_finished (region s) \<Longrightarrow> \<exists>n x. point s = M_Exit n x"
    by (simp add: flow_inv_def viewer_finished_def)
  ultimately show ?thesis
    by (auto simp: flow_inv_def viewer_finished_def point_defs spsc_empty_contents)
qed

section \<open>Witnesses\<close>

definition demo_args :: EngineArgs where
  "demo_args = \<lparr>ea_path = ''/tmp/region'', ea_idle_exit_ms = 2000, ea_journal_path = ''/tmp/journal'', ea_recover = False,
     ea_sync_journal = False, ea_risk_limits = default_limits\<rparr>"

definition fresh_os :: Os where
  "fresh_os = \<lparr>os_files = Map.empty, os_io = [], os_open = [], os_sync = []\<rparr>"

lemma demo_start:
  "\<exists>e j r os1. engine_start True 4096 0 demo_args fresh_os = Some (Inr (e, j, r, os1)) \<and> spsc_ok (order_queue r) \<and>
    spsc_contents (order_queue r) = [] \<and> length (q_buffer (order_queue r)) = 2 ^ 16"
  using default_region_ok default_region_empty
  by (simp add: engine_start_def demo_args_def fresh_os_def open_journal_def next_result_def Let_def start_region_def
      region_ok_def) (simp add: default_region_def spsc_init_def kOrderQueueCapacity_def)

text \<open>The feed has sent a cancel.\<close>

lemma demo_feed:
  assumes "spsc_ok (order_queue r)" and "spsc_contents (order_queue r) = []" and "length (q_buffer (order_queue r)) = 2 ^ 16"
  shows "\<exists>q. main_step args (main_start e j r os)
    ((main_start e j r os)\<lparr>region := r\<lparr>order_queue := q\<rparr>, sent := [\<lparr>m_type = MSG_CANCEL_ORDER, m_order = default_order\<rparr>]\<rparr>)"
proof -
  let ?m = "\<lparr>m_type = MSG_CANCEL_ORDER, m_order = default_order\<rparr>"
  have "spsc_try_push (order_queue r) ?m \<noteq> None" using spsc.push_full [OF assms(1)] assms(2,3) by simp
  then obtain q where "spsc_try_push (order_queue r) ?m = Some q" by blast
  then show ?thesis
    using main_step.feed [of "main_start e j r os" ?m q] by (auto simp: main_start_def msg_command_def command_canonical_def)
qed


theorem pipeline_exact_witness:
  "\<exists>s :: process. length (sent s) = 1 \<and> sent s = taken s @ in_flight (point s) @ spsc_contents (order_queue (region s))"
proof -
  from demo_start obtain e j r os1 where st: "engine_start True 4096 0 demo_args fresh_os = Some (Inr (e, j, r, os1))"
    "spsc_ok (order_queue r)" "spsc_contents (order_queue r) = []" "length (q_buffer (order_queue r)) = 2 ^ 16" by blast
  from demo_feed [OF st(2-4)] obtain s where
    s: "main_step demo_args (main_start e j r os1) s" "length (sent s) = 1" by fastforce
  from pipeline_exact [OF st(1) r_into_rtranclp [of "main_step demo_args", OF s(1)]] s(2) show ?thesis by blast
qed

end
