(* ===== verification/Sharded_Engine.thy ===== *)
theory Sharded_Engine
  imports Engine_Properties Mpmc_Queue Trade_Log
begin

text \<open>
  The lock-based engine for several instruments and the program that drives it: producer threads
  generate orders into one shared queue, worker threads pop them and match each under the lock of its
  shard. Every access to an atomic, every operation of the queue, the taking of a lock, and the reading
  and the writing of a shard are steps of their own; the threads interleave in any order.
\<close>

unbundle bit_operations_syntax

section \<open>The engine\<close>

definition kShardCount :: u64 where "kShardCount = 8"

record BookShard =
  bs_locked :: bool
  bs_engines :: "string \<rightharpoonup> MatchingEngine"

record ShardedMatchingEngine =
  se_shards :: "BookShard list"
  se_trade_log :: TradeLog

definition make_sharded :: "u64 \<Rightarrow> ShardedMatchingEngine" where
  "make_sharded log_depth =
     \<lparr>se_shards = replicate (unat kShardCount) \<lparr>bs_locked = False, bs_engines = Map.empty\<rparr>,
      se_trade_log = make_log log_depth\<rparr>"

definition se_shardIndex :: "Symbol \<Rightarrow> nat" where
  "se_shardIndex s = unat (hash_symbol s AND (kShardCount - 1))"

definition se_shardFor :: "ShardedMatchingEngine \<Rightarrow> Symbol \<Rightarrow> BookShard" where
  "se_shardFor e s = se_shards e ! se_shardIndex s"

text \<open>The critical section of \<open>submit\<close>: the symbol's engine is made on first sight, and the lock is
  released at the end.\<close>

definition se_match :: "Symbol \<Rightarrow> Order \<Rightarrow> BookShard \<Rightarrow> (Trade list \<times> BookShard) option" where
  "se_match s ord sh =
     (let k = symbol_key s;
          e = (case bs_engines sh k of None \<Rightarrow> init_engine default_limits | Some e \<Rightarrow> e)
      in case submitOrder e ord [] of
           None \<Rightarrow> None
         | Some (n, e', ts) \<Rightarrow> Some (ts, \<lparr>bs_locked = False, bs_engines = (bs_engines sh)(k \<mapsto> e')\<rparr>))"

text \<open>The critical section of \<open>cancel\<close>; an unknown symbol has no engine and gets none.\<close>

definition se_cancel :: "Symbol \<Rightarrow> u64 \<Rightarrow> BookShard \<Rightarrow> (bool \<times> BookShard) option" where
  "se_cancel s i sh =
     (let k = symbol_key s in case bs_engines sh k of
        None \<Rightarrow> Some (False, sh\<lparr>bs_locked := False\<rparr>)
      | Some e \<Rightarrow>
          (case cancelOrder_engine e i of
             None \<Rightarrow> None
           | Some (b, e') \<Rightarrow> Some (b, \<lparr>bs_locked = False, bs_engines = (bs_engines sh)(k \<mapsto> e')\<rparr>)))"

record BookSnapshot =
  bsn_exists :: bool
  bsn_best_bid :: "int option"
  bsn_best_ask :: "int option"
  bsn_order_count :: nat

definition se_snapshot :: "Symbol \<Rightarrow> BookShard \<Rightarrow> BookSnapshot" where
  "se_snapshot s sh = (case bs_engines sh (symbol_key s) of
     None \<Rightarrow> \<lparr>bsn_exists = False, bsn_best_bid = None, bsn_best_ask = None, bsn_order_count = 0\<rparr>
   | Some e \<Rightarrow> \<lparr>bsn_exists = True, bsn_best_bid = bestBid (book e), bsn_best_ask = bestAsk (book e),
       bsn_order_count = orderCount (book e)\<rparr>)"

section \<open>The program\<close>

definition kSymbols :: "string list" where
  "kSymbols = [''AAPL'', ''MSFT'', ''GOOG'', ''AMZN'', ''TSLA'', ''NVDA'']"

text \<open>What a producer draws for one order, each from a distribution over a given range.\<close>

record draw =
  dr_symbol :: nat
  dr_buy :: bool
  dr_price :: int
  dr_quantity :: u32

definition draw_ok :: "draw \<Rightarrow> bool" where
  "draw_ok d \<longleftrightarrow> dr_symbol d < length kSymbols \<and> 9900 \<le> dr_price d \<and> dr_price d \<le> 10100 \<and>
     1 \<le> dr_quantity d \<and> dr_quantity d \<le> 100"

definition generate :: "u64 \<Rightarrow> draw \<Rightarrow> SymbolOrder" where
  "generate i d =
     \<lparr>so_symbol = make_symbol (Some (kSymbols ! dr_symbol d)),
      so_order = default_order\<lparr>o_id := i, o_side := (if dr_buy d then BUY else SELL), o_type := LIMIT,
        o_price := dr_price d, o_quantity := dr_quantity d\<rparr>\<rparr>"

text \<open>A producer: how many orders it has yet to make.\<close>

datatype producing = P_Next nat | P_Push nat SymbolOrder | P_Count nat | P_End

datatype worker =
    K_Pop | K_Lock SymbolOrder | K_Match SymbolOrder | K_Write SymbolOrder "Trade list" BookShard
  | K_Record Symbol nat "Trade list" | K_Count nat | K_Consumed | is_K_End: K_End

datatype demo_main = D_Producers | D_Close | D_Consumers | D_Summary

record demo =
  dm_queue :: "SymbolOrder MPMCQueue"
  dm_engine :: ShardedMatchingEngine
  dm_id_gen :: u64
  dm_produced :: u64
  dm_consumed :: u64
  dm_trades_generated :: u64
  dm_producers :: "producing list"
  dm_workers :: "worker list"
  dm_main :: demo_main
  dm_pushed :: "SymbolOrder list"
  dm_matched :: "(SymbolOrder \<times> Trade list) list"
  dm_recorded :: "(Symbol \<times> Trade) list"

definition set_producer :: "demo \<Rightarrow> nat \<Rightarrow> producing \<Rightarrow> demo" where
  "set_producer s j p = s\<lparr>dm_producers := (dm_producers s)[j := p]\<rparr>"

definition set_worker :: "demo \<Rightarrow> nat \<Rightarrow> worker \<Rightarrow> demo" where
  "set_worker s j w = s\<lparr>dm_workers := (dm_workers s)[j := w]\<rparr>"

definition set_book :: "demo \<Rightarrow> nat \<Rightarrow> BookShard \<Rightarrow> demo" where
  "set_book s i sh = s\<lparr>dm_engine := (dm_engine s)\<lparr>se_shards := (se_shards (dm_engine s))[i := sh]\<rparr>\<rparr>"

definition book_at :: "demo \<Rightarrow> Symbol \<Rightarrow> BookShard" where
  "book_at s x = se_shardFor (dm_engine s) x"

text \<open>One step of a producer; \<open>None\<close> where it has ended or the queue is full.\<close>

definition producerThread :: "draw \<Rightarrow> nat \<Rightarrow> demo \<Rightarrow> demo option" where
  "producerThread d j s = (case dm_producers s ! j of
     P_Next n \<Rightarrow>
       (case n of
          0 \<Rightarrow> Some (set_producer s j P_End)
        | Suc m \<Rightarrow> if draw_ok d
            then Some (set_producer (s\<lparr>dm_id_gen := dm_id_gen s + 1\<rparr>) j (P_Push m (generate (dm_id_gen s) d)))
            else None)
   | P_Push n so \<Rightarrow>
       (case mpmc_push (dm_queue s) so of
          None \<Rightarrow> None
        | Some (ok, q) \<Rightarrow>
            if ok then Some (set_producer (s\<lparr>dm_queue := q, dm_pushed := dm_pushed s @ [so]\<rparr>) j (P_Count n))
            else Some (set_producer s j P_End))
   | P_Count n \<Rightarrow> Some (set_producer (s\<lparr>dm_produced := dm_produced s + 1\<rparr>) j (P_Next n))
   | P_End \<Rightarrow> None)"

text \<open>One step of a worker; \<open>None\<close> where it has ended or waits for the queue or for the lock of a shard.
  The trades go to the log one by one, after the lock of the shard has been released.\<close>

definition consumerThread :: "nat \<Rightarrow> demo \<Rightarrow> demo option" where
  "consumerThread j s = (case dm_workers s ! j of
     K_Pop \<Rightarrow>
       (case mpmc_pop (dm_queue s) of
          None \<Rightarrow> None
        | Some (x, q) \<Rightarrow>
            Some (set_worker (s\<lparr>dm_queue := q\<rparr>) j (case x of None \<Rightarrow> K_End | Some so \<Rightarrow> K_Lock so)))
   | K_Lock so \<Rightarrow>
       if bs_locked (book_at s (so_symbol so)) then None
       else Some (set_worker (set_book s (se_shardIndex (so_symbol so))
         ((book_at s (so_symbol so))\<lparr>bs_locked := True\<rparr>)) j (K_Match so))
   | K_Match so \<Rightarrow>
       (case se_match (so_symbol so) (so_order so) (book_at s (so_symbol so)) of
          None \<Rightarrow> None
        | Some (ts, sh) \<Rightarrow> Some (set_worker s j (K_Write so ts sh)))
   | K_Write so ts sh \<Rightarrow>
       Some (set_worker ((set_book s (se_shardIndex (so_symbol so)) sh)\<lparr>dm_matched := dm_matched s @ [(so, ts)]\<rparr>) j
         (K_Record (so_symbol so) (length ts) ts))
   | K_Record x n ts \<Rightarrow>
       (case ts of
          [] \<Rightarrow> Some (set_worker s j (K_Count n))
        | t # ts' \<Rightarrow>
            Some (set_worker (s\<lparr>dm_engine := (dm_engine s)\<lparr>se_trade_log := record_trade x t (se_trade_log (dm_engine s))\<rparr>,
              dm_recorded := dm_recorded s @ [(x, t)]\<rparr>) j (K_Record x n ts')))
   | K_Count n \<Rightarrow>
       Some (set_worker (s\<lparr>dm_trades_generated := dm_trades_generated s + of_nat n\<rparr>) j K_Consumed)
   | K_Consumed \<Rightarrow> Some (set_worker (s\<lparr>dm_consumed := dm_consumed s + 1\<rparr>) j K_Pop)
   | K_End \<Rightarrow> None)"

text \<open>The main thread: join the producers, close the queue, join the consumers.\<close>

definition demo_join :: "demo \<Rightarrow> demo option" where
  "demo_join s = (case dm_main s of
     D_Producers \<Rightarrow> if list_all (\<lambda>p. p = P_End) (dm_producers s) then Some (s\<lparr>dm_main := D_Close\<rparr>) else None
   | D_Close \<Rightarrow> Some (s\<lparr>dm_queue := mpmc_close (dm_queue s), dm_main := D_Consumers\<rparr>)
   | D_Consumers \<Rightarrow> if list_all is_K_End (dm_workers s) then Some (s\<lparr>dm_main := D_Summary\<rparr>) else None
   | D_Summary \<Rightarrow> None)"

inductive demo_step :: "demo \<Rightarrow> demo \<Rightarrow> bool" where
  producer: "j < length (dm_producers s) \<Longrightarrow> producerThread d j s = Some s' \<Longrightarrow> demo_step s s'"
| worker: "j < length (dm_workers s) \<Longrightarrow> consumerThread j s = Some s' \<Longrightarrow> demo_step s s'"
| main: "demo_join s = Some s' \<Longrightarrow> demo_step s s'"

definition demo_start :: "nat \<Rightarrow> nat \<Rightarrow> nat \<Rightarrow> SymbolOrder MPMCQueue \<Rightarrow> demo" where
  "demo_start producers consumers orders_per_producer q =
     \<lparr>dm_queue = q, dm_engine = make_sharded 200, dm_id_gen = 1, dm_produced = 0, dm_consumed = 0,
      dm_trades_generated = 0, dm_producers = replicate producers (P_Next orders_per_producer),
      dm_workers = replicate consumers K_Pop, dm_main = D_Producers, dm_pushed = [], dm_matched = [], dm_recorded = []\<rparr>"

section \<open>What the threads keep\<close>

definition over_workers :: "(worker \<Rightarrow> 'b :: comm_monoid_add) \<Rightarrow> demo \<Rightarrow> 'b" where
  "over_workers f s = sum_list (map f (dm_workers s))"

definition over_producers :: "(producing \<Rightarrow> 'b :: comm_monoid_add) \<Rightarrow> demo \<Rightarrow> 'b" where
  "over_producers f s = sum_list (map f (dm_producers s))"

lemma set_fields [simp]:
  "dm_queue (set_worker s j w) = dm_queue s" "dm_queue (set_producer s j p) = dm_queue s" "dm_queue (set_book s i sh) = dm_queue s"
  "dm_pushed (set_worker s j w) = dm_pushed s" "dm_pushed (set_producer s j p) = dm_pushed s" "dm_pushed (set_book s i sh) = dm_pushed s"
  "dm_matched (set_worker s j w) = dm_matched s" "dm_matched (set_producer s j p) = dm_matched s"
  "dm_matched (set_book s i sh) = dm_matched s"
  "dm_recorded (set_worker s j w) = dm_recorded s" "dm_recorded (set_producer s j p) = dm_recorded s"
  "dm_recorded (set_book s i sh) = dm_recorded s"
  "dm_produced (set_worker s j w) = dm_produced s" "dm_produced (set_producer s j p) = dm_produced s"
  "dm_produced (set_book s i sh) = dm_produced s"
  "dm_consumed (set_worker s j w) = dm_consumed s" "dm_consumed (set_producer s j p) = dm_consumed s"
  "dm_consumed (set_book s i sh) = dm_consumed s"
  "dm_trades_generated (set_worker s j w) = dm_trades_generated s"
  "dm_trades_generated (set_producer s j p) = dm_trades_generated s"
  "dm_trades_generated (set_book s i sh) = dm_trades_generated s"
  "dm_engine (set_worker s j w) = dm_engine s" "dm_engine (set_producer s j p) = dm_engine s"
  "dm_main (set_worker s j w) = dm_main s" "dm_main (set_producer s j p) = dm_main s" "dm_main (set_book s i sh) = dm_main s"
  "dm_workers (set_producer s j p) = dm_workers s" "dm_workers (set_book s i sh) = dm_workers s"
  "dm_producers (set_worker s j w) = dm_producers s" "dm_producers (set_book s i sh) = dm_producers s"
  "dm_workers (set_worker s j w) = (dm_workers s)[j := w]" "dm_producers (set_producer s j p) = (dm_producers s)[j := p]"
  "dm_engine (set_book s i sh) = (dm_engine s)\<lparr>se_shards := (se_shards (dm_engine s))[i := sh]\<rparr>"
  by (simp_all add: set_worker_def set_producer_def set_book_def)

lemma over_fields [simp]:
  "over_workers f (set_producer s j p) = over_workers f s" "over_workers f (set_book s i sh) = over_workers f s"
  "over_workers f (dm_queue_update a s) = over_workers f s" "over_workers f (dm_pushed_update b s) = over_workers f s"
  "over_workers f (dm_matched_update c s) = over_workers f s" "over_workers f (dm_recorded_update d s) = over_workers f s"
  "over_workers f (dm_engine_update e s) = over_workers f s" "over_workers f (dm_consumed_update n s) = over_workers f s"
  "over_workers f (dm_produced_update n s) = over_workers f s" "over_workers f (dm_main_update m s) = over_workers f s"
  "over_workers f (dm_trades_generated_update n s) = over_workers f s" "over_workers f (dm_id_gen_update n s) = over_workers f s"
  "over_producers g (set_worker s j w) = over_producers g s" "over_producers g (set_book s i sh) = over_producers g s"
  "over_producers g (dm_queue_update a s) = over_producers g s" "over_producers g (dm_pushed_update b s) = over_producers g s"
  "over_producers g (dm_matched_update c s) = over_producers g s" "over_producers g (dm_recorded_update d s) = over_producers g s"
  "over_producers g (dm_engine_update e s) = over_producers g s" "over_producers g (dm_consumed_update n s) = over_producers g s"
  "over_producers g (dm_produced_update n s) = over_producers g s" "over_producers g (dm_main_update m s) = over_producers g s"
  "over_producers g (dm_trades_generated_update n s) = over_producers g s"
  "over_producers g (dm_id_gen_update n s) = over_producers g s"
  by (simp_all add: over_workers_def over_producers_def)

subsection \<open>The moves\<close>

lemma producer_cases:
  assumes "producerThread d j s = Some s'"
  obtains (finished) "dm_producers s ! j = P_Next 0" "s' = set_producer s j P_End"
  | (make) n where "dm_producers s ! j = P_Next (Suc n)" "draw_ok d"
      "s' = set_producer (s\<lparr>dm_id_gen := dm_id_gen s + 1\<rparr>) j (P_Push n (generate (dm_id_gen s) d))"
  | (push) n so q where "dm_producers s ! j = P_Push n so" "mpmc_push (dm_queue s) so = Some (True, q)"
      "s' = set_producer (s\<lparr>dm_queue := q, dm_pushed := dm_pushed s @ [so]\<rparr>) j (P_Count n)"
  | (refused) n so q where "dm_producers s ! j = P_Push n so" "mpmc_push (dm_queue s) so = Some (False, q)"
      "s' = set_producer s j P_End"
  | (count) n where "dm_producers s ! j = P_Count n"
      "s' = set_producer (s\<lparr>dm_produced := dm_produced s + 1\<rparr>) j (P_Next n)"
  using assms by (auto simp: producerThread_def split: producing.splits nat.splits option.splits if_splits bool.splits)

lemma worker_cases:
  assumes "consumerThread j s = Some s'"
  obtains (pop) x q where "dm_workers s ! j = K_Pop" "mpmc_pop (dm_queue s) = Some (x, q)"
      "s' = set_worker (s\<lparr>dm_queue := q\<rparr>) j (case x of None \<Rightarrow> K_End | Some so \<Rightarrow> K_Lock so)"
  | (lock) so where "dm_workers s ! j = K_Lock so" "\<not> bs_locked (book_at s (so_symbol so))"
      "s' = set_worker (set_book s (se_shardIndex (so_symbol so))
         ((book_at s (so_symbol so))\<lparr>bs_locked := True\<rparr>)) j (K_Match so)"
  | (match) so ts sh where "dm_workers s ! j = K_Match so"
      "se_match (so_symbol so) (so_order so) (book_at s (so_symbol so)) = Some (ts, sh)"
      "s' = set_worker s j (K_Write so ts sh)"
  | (store) so ts sh where "dm_workers s ! j = K_Write so ts sh"
      "s' = set_worker ((set_book s (se_shardIndex (so_symbol so)) sh)\<lparr>dm_matched := dm_matched s @ [(so, ts)]\<rparr>) j
         (K_Record (so_symbol so) (length ts) ts)"
  | (log) x n t ts where "dm_workers s ! j = K_Record x n (t # ts)"
      "s' = set_worker (s\<lparr>dm_engine := (dm_engine s)\<lparr>se_trade_log := record_trade x t (se_trade_log (dm_engine s))\<rparr>,
         dm_recorded := dm_recorded s @ [(x, t)]\<rparr>) j (K_Record x n ts)"
  | (logged) x n where "dm_workers s ! j = K_Record x n []" "s' = set_worker s j (K_Count n)"
  | (trades) n where "dm_workers s ! j = K_Count n"
      "s' = set_worker (s\<lparr>dm_trades_generated := dm_trades_generated s + of_nat n\<rparr>) j K_Consumed"
  | (consumed) "dm_workers s ! j = K_Consumed"
      "s' = set_worker (s\<lparr>dm_consumed := dm_consumed s + 1\<rparr>) j K_Pop"
  using assms by (auto simp: consumerThread_def split: worker.splits list.splits option.splits if_splits)

lemma main_cases:
  assumes "demo_join s = Some s'"
  obtains (joined) "dm_main s = D_Producers" "\<forall>p \<in> set (dm_producers s). p = P_End" "s' = s\<lparr>dm_main := D_Close\<rparr>"
  | (closing) "dm_main s = D_Close" "s' = s\<lparr>dm_queue := mpmc_close (dm_queue s), dm_main := D_Consumers\<rparr>"
  | (ended) "dm_main s = D_Consumers" "\<forall>w \<in> set (dm_workers s). w = K_End" "s' = s\<lparr>dm_main := D_Summary\<rparr>"
  using assms by (auto simp: demo_join_def list_all_iff is_K_End_def split: demo_main.splits if_splits)

lemma over_worker_step:
  "dm_workers s' = (dm_workers s)[j := w] \<Longrightarrow> dm_workers s ! j = v \<Longrightarrow> j < length (dm_workers s) \<Longrightarrow>
    over_workers f s + f w = over_workers f s' + f v"
  using sum_list_swap [of j "dm_workers s" f w] by (simp add: over_workers_def)

lemma over_worker_same:
  fixes f :: "worker \<Rightarrow> 'b :: cancel_comm_monoid_add"
  shows "dm_workers s' = (dm_workers s)[j := w] \<Longrightarrow> dm_workers s ! j = v \<Longrightarrow> j < length (dm_workers s) \<Longrightarrow> f w = f v \<Longrightarrow>
    over_workers f s' = over_workers f s"
  using over_worker_step [of s' s j w v f] by simp

lemma over_producer_step:
  "dm_producers s' = (dm_producers s)[j := p] \<Longrightarrow> dm_producers s ! j = q \<Longrightarrow> j < length (dm_producers s) \<Longrightarrow>
    over_producers f s + f p = over_producers f s' + f q"
  using sum_list_swap [of j "dm_producers s" f p] by (simp add: over_producers_def)

subsection \<open>No order is lost or handled twice\<close>

definition hand :: "worker \<Rightarrow> SymbolOrder multiset" where
  "hand w = (case w of K_Lock so \<Rightarrow> {#so#} | K_Match so \<Rightarrow> {#so#} | K_Write so ts sh \<Rightarrow> {#so#} | _ \<Rightarrow> {#})"

definition made :: "producing \<Rightarrow> SymbolOrder set" where
  "made p = (case p of P_Push n so \<Rightarrow> {so} | _ \<Rightarrow> {})"

definition orders_inv :: "demo \<Rightarrow> bool" where
  "orders_inv s \<longleftrightarrow> mpmc_ok (dm_queue s) \<and>
     mset (dm_pushed s) = mset (map fst (dm_matched s)) + over_workers hand s + mset (buffer (dm_queue s)) \<and>
     (\<forall>so \<in> set (dm_pushed s) \<union> (\<Union>p \<in> set (dm_producers s). made p). command_valid (New (so_order so)))"

lemma generate_valid: "draw_ok d \<Longrightarrow> command_valid (New (so_order (generate i d)))"
  by (simp add: draw_ok_def generate_def command_valid_def is_i64_def)

lemma producers_update:
  "(\<Union>p \<in> set (ps[j := q]). made p) \<subseteq> made q \<union> (\<Union>p \<in> set ps. made p)"
  using set_update_subset_insert [of ps j q] by blast

lemma made_at: "j < length ps \<Longrightarrow> ps ! j = P_Push n so \<Longrightarrow> so \<in> (\<Union>p \<in> set ps. made p)"
  using nth_mem [of j ps] by (auto simp: made_def intro!: bexI [of _ "ps ! j"])

lemma orders_inv_producer:
  assumes "producerThread d j s = Some s'" and "orders_inv s" and "j < length (dm_producers s)"
  shows "orders_inv s'"
proof -
  have *: "orders_inv (set_producer s1 j p)"
    if "orders_inv s1" "\<forall>so \<in> made p. command_valid (New (so_order so))" for s1 p
    using that producers_update [of "dm_producers s1" j p] by (auto simp: orders_inv_def)
  from assms(1) show ?thesis
  proof (cases rule: producer_cases)
    case (push n so q)
    have "command_valid (New (so_order so))"
      using assms(2) made_at [OF assms(3) push(1)] by (auto simp: orders_inv_def)
    moreover have "mpmc_ok q" "buffer q = buffer (dm_queue s) @ [so]"
      using assms(2) push(2) mpmc_store_ok [of "dm_queue s" so] by (auto simp: orders_inv_def mpmc_push_def split: if_splits)
    ultimately have "orders_inv (s\<lparr>dm_queue := q, dm_pushed := dm_pushed s @ [so]\<rparr>)"
      using assms(2) by (auto simp: orders_inv_def)
    then show ?thesis unfolding push by (rule *) (simp add: made_def)
  next
    case (make n)
    show ?thesis unfolding make(3)
      by (rule *) (use assms(2) generate_valid [OF make(2)] in \<open>simp_all add: made_def orders_inv_def\<close>)
  next
    case (count n)
    show ?thesis unfolding count(2) by (rule *) (use assms(2) in \<open>simp_all add: made_def orders_inv_def\<close>)
  qed (use assms(2) * in \<open>simp_all add: made_def\<close>)
qed

lemma orders_inv_quiet:
  assumes "dm_workers s ! j = v" and "orders_inv s" and "j < length (dm_workers s)" and "dm_workers s1 = dm_workers s"
    and "dm_queue s1 = dm_queue s" and "dm_pushed s1 = dm_pushed s" and "dm_matched s1 = dm_matched s"
    and "dm_producers s1 = dm_producers s" and "hand w = hand v"
  shows "orders_inv (set_worker s1 j w)"
  using assms over_worker_same [of "set_worker s1 j w" s j w v hand] by (simp add: orders_inv_def)

lemma orders_inv_worker:
  assumes "consumerThread j s = Some s'" and "orders_inv s" and "j < length (dm_workers s)"
  shows "orders_inv s'"
  using assms(1)
proof (cases rule: worker_cases)
  case (pop x q)
  have "over_workers hand s + hand (case x of None \<Rightarrow> K_End | Some so \<Rightarrow> K_Lock so) = over_workers hand s' + hand K_Pop"
    by (rule over_worker_step) (use pop assms(3) in simp_all)
  then show ?thesis using assms(2) pop(2) mpmc_take_ok [of "dm_queue s"] unfolding pop(3)
    by (cases "buffer (dm_queue s)") (auto simp: orders_inv_def mpmc_pop_def hand_def split: if_splits)
next
  case (store so ts sh)
  have "over_workers hand s + hand (K_Record (so_symbol so) (length ts) ts) = over_workers hand s' + hand (K_Write so ts sh)"
    by (rule over_worker_step) (use store assms(3) in simp_all)
  then show ?thesis using assms(2) unfolding store by (simp add: orders_inv_def hand_def)
next
  case (lock so)
  show ?thesis unfolding lock(3) by (rule orders_inv_quiet [OF lock(1)]) (use assms(2,3) in \<open>simp_all add: hand_def\<close>)
next
  case (match so ts sh)
  show ?thesis unfolding match(3) by (rule orders_inv_quiet [OF match(1)]) (use assms(2,3) in \<open>simp_all add: hand_def\<close>)
next
  case (log x n t ts)
  show ?thesis unfolding log(2) by (rule orders_inv_quiet [OF log(1)]) (use assms(2,3) in \<open>simp_all add: hand_def\<close>)
next
  case (logged x n)
  show ?thesis unfolding logged(2) by (rule orders_inv_quiet [OF logged(1)]) (use assms(2,3) in \<open>simp_all add: hand_def\<close>)
next
  case (trades n)
  show ?thesis unfolding trades(2) by (rule orders_inv_quiet [OF trades(1)]) (use assms(2,3) in \<open>simp_all add: hand_def\<close>)
next
  case consumed
  show ?thesis unfolding consumed(2) by (rule orders_inv_quiet [OF consumed(1)]) (use assms(2,3) in \<open>simp_all add: hand_def\<close>)
qed

subsection \<open>The locks exclude each other\<close>

definition holds :: "nat \<Rightarrow> worker \<Rightarrow> nat" where
  "holds i w = (case w of
     K_Match so \<Rightarrow> if se_shardIndex (so_symbol so) = i then 1 else 0
   | K_Write so ts sh \<Rightarrow> if se_shardIndex (so_symbol so) = i then 1 else 0
   | _ \<Rightarrow> 0)"

text \<open>A lock is held by exactly one worker or free; what a worker is about to write is what the shard,
  as it is now, gives.\<close>

definition locks_inv :: "demo \<Rightarrow> bool" where
  "locks_inv s \<longleftrightarrow> length (se_shards (dm_engine s)) = 8 \<and>
     (\<forall>i < 8. over_workers (holds i) s = (if bs_locked (se_shards (dm_engine s) ! i) then 1 else 0)) \<and>
     (\<forall>so ts sh. K_Write so ts sh \<in> set (dm_workers s) \<longrightarrow>
        se_match (so_symbol so) (so_order so) (book_at s (so_symbol so)) = Some (ts, sh))"

lemma se_shardIndex_less: "se_shardIndex x < 8"
  using shard_of_less [of kShardCount x] by (simp add: se_shardIndex_def shard_of_def kShardCount_def)

lemma se_match_lock [simp]: "se_match x ord (sh\<lparr>bs_locked := b\<rparr>) = se_match x ord sh"
  by (auto simp: se_match_def Let_def split: option.splits)

lemma holder_counts: "w \<in> set (dm_workers s) \<Longrightarrow> holds i w \<le> over_workers (holds i) s"
  unfolding over_workers_def by (rule member_le_sum_list) simp_all

lemma book_at_fields [simp]:
  "book_at (set_worker s j w) x = book_at s x" "book_at (set_producer s j p) x = book_at s x"
  "book_at (dm_queue_update a s) x = book_at s x" "book_at (dm_matched_update c s) x = book_at s x"
  by (simp_all add: book_at_def)

lemma book_at_set:
  "length (se_shards (dm_engine s)) = 8 \<Longrightarrow>
    book_at (set_book s i sh) x = (if se_shardIndex x = i then sh else book_at s x)"
  using se_shardIndex_less [of x] by (auto simp: book_at_def se_shardFor_def)

lemma locks_inv_quiet:
  assumes "dm_workers s ! j = v" and "locks_inv s" and "j < length (dm_workers s)" and "dm_workers s1 = dm_workers s"
    and "se_shards (dm_engine s1) = se_shards (dm_engine s)" and "\<And>i. holds i w = holds i v"
    and "\<And>so ts sh. w = K_Write so ts sh \<Longrightarrow> se_match (so_symbol so) (so_order so) (book_at s (so_symbol so)) = Some (ts, sh)"
  shows "locks_inv (set_worker s1 j w)"
proof -
  have "over_workers (holds i) (set_worker s1 j w) = over_workers (holds i) s" for i
    by (rule over_worker_same [of _ s j w v]) (use assms in simp_all)
  moreover have "book_at (set_worker s1 j w) x = book_at s x" for x
    using assms(5) by (simp add: book_at_def se_shardFor_def)
  ultimately show ?thesis
    using assms(2,4,5,7) set_update_subset_insert [of "dm_workers s" j w] unfolding locks_inv_def by fastforce
qed

lemma locks_inv_lock:
  assumes "locks_inv s" and "j < length (dm_workers s)" and "dm_workers s ! j = K_Lock so"
    and "\<not> bs_locked (book_at s (so_symbol so))"
  shows "locks_inv (set_worker (set_book s (se_shardIndex (so_symbol so)) ((book_at s (so_symbol so))\<lparr>bs_locked := True\<rparr>)) j (K_Match so))"
    (is "locks_inv ?s'")
proof -
  let ?i = "se_shardIndex (so_symbol so)"
  have len: "length (se_shards (dm_engine s)) = 8" using assms(1) by (simp add: locks_inv_def)
  have "over_workers (holds i) ?s' = (if bs_locked (se_shards (dm_engine ?s') ! i) then 1 else 0)" if "i < 8" for i
  proof -
    have "over_workers (holds i) s + holds i (K_Match so) = over_workers (holds i) ?s' + holds i (K_Lock so)"
      by (rule over_worker_step) (use assms in simp_all)
    moreover have "over_workers (holds i) s = (if bs_locked (se_shards (dm_engine s) ! i) then 1 else 0)"
      using assms(1) that by (simp add: locks_inv_def)
    moreover have "bs_locked (se_shards (dm_engine ?s') ! i) \<longleftrightarrow> i = ?i \<or> bs_locked (se_shards (dm_engine s) ! i)"
      using that len se_shardIndex_less [of "so_symbol so"] by (auto simp: nth_list_update)
    ultimately show ?thesis using assms(4) by (cases "i = ?i") (simp_all add: holds_def book_at_def se_shardFor_def)
  qed
  moreover have "se_match x ord (book_at ?s' x) = se_match x ord (book_at s x)" for x ord
    using se_shardIndex_less [of x] by (auto simp: book_at_set len) (simp add: book_at_def se_shardFor_def)
  ultimately show ?thesis
    using assms(1) len set_update_subset_insert [of "dm_workers s" j "K_Match so"] unfolding locks_inv_def by fastforce
qed

lemma locks_inv_write:
  assumes "locks_inv s" and "j < length (dm_workers s)" and "dm_workers s ! j = K_Write so ts sh"
  shows "locks_inv (set_worker ((set_book s (se_shardIndex (so_symbol so)) sh)\<lparr>dm_matched := m\<rparr>) j
    (K_Record (so_symbol so) n ts))" (is "locks_inv ?s'")
proof -
  let ?i = "se_shardIndex (so_symbol so)"
  have len: "length (se_shards (dm_engine s)) = 8" using assms(1) by (simp add: locks_inv_def)
  have "K_Write so ts sh \<in> set (dm_workers s)" using nth_mem [OF assms(2)] assms(3) by simp
  then have m: "se_match (so_symbol so) (so_order so) (book_at s (so_symbol so)) = Some (ts, sh)"
    and one: "0 < over_workers (holds ?i) s"
    using assms(1) holder_counts [of "K_Write so ts sh" s ?i] by (auto simp: locks_inv_def holds_def)
  then have free: "\<not> bs_locked sh" by (auto simp: se_match_def Let_def split: option.splits)
  have locked: "over_workers (holds i) ?s' = (if bs_locked (se_shards (dm_engine ?s') ! i) then 1 else 0)" if "i < 8" for i
  proof -
    have "over_workers (holds i) s + holds i (K_Record (so_symbol so) n ts) = over_workers (holds i) ?s' + holds i (K_Write so ts sh)"
      by (rule over_worker_step) (use assms in simp_all)
    moreover have "over_workers (holds i) s = (if bs_locked (se_shards (dm_engine s) ! i) then 1 else 0)"
      using assms(1) that by (simp add: locks_inv_def)
    moreover have "bs_locked (se_shards (dm_engine ?s') ! i) \<longleftrightarrow> i \<noteq> ?i \<and> bs_locked (se_shards (dm_engine s) ! i)"
      using that len free se_shardIndex_less [of "so_symbol so"] by (auto simp: nth_list_update)
    ultimately show ?thesis using one by (cases "i = ?i") (auto simp: holds_def split: if_splits)
  qed
  have "se_match (so_symbol so') (so_order so') (book_at ?s' (so_symbol so')) = Some (ts', sh')"
    if w: "K_Write so' ts' sh' \<in> set (dm_workers ?s')" for so' ts' sh'
  proof -
    have "over_workers (holds ?i) ?s' = 0" using locked [of ?i] len free se_shardIndex_less [of "so_symbol so"] by simp
    with holder_counts [OF w, of ?i] have "se_shardIndex (so_symbol so') \<noteq> ?i" by (auto simp: holds_def)
    moreover have "K_Write so' ts' sh' \<in> set (dm_workers s)"
      using w set_update_subset_insert [of "dm_workers s" j "K_Record (so_symbol so) n ts"] by auto
    ultimately show ?thesis using assms(1) by (simp add: locks_inv_def book_at_set len)
  qed
  with locked len show ?thesis by (simp add: locks_inv_def)
qed

lemma locks_inv_worker:
  assumes "consumerThread j s = Some s'" and "locks_inv s" and "j < length (dm_workers s)"
  shows "locks_inv s'"
  using assms(1)
proof (cases rule: worker_cases)
  case (pop x q)
  show ?thesis unfolding pop(3)
    by (rule locks_inv_quiet [OF pop(1)]) (use assms(2,3) in \<open>auto simp: holds_def split: option.splits\<close>)
next
  case (lock so)
  show ?thesis unfolding lock(3) by (rule locks_inv_lock [OF assms(2,3) lock(1,2)])
next
  case (match so ts sh)
  show ?thesis unfolding match(3)
    by (rule locks_inv_quiet [OF match(1)]) (use assms(2,3) match(2) in \<open>auto simp: holds_def\<close>)
next
  case (store so ts sh)
  show ?thesis unfolding store(2) by (rule locks_inv_write [OF assms(2,3) store(1)])
next
  case (log x n t ts)
  show ?thesis unfolding log(2) by (rule locks_inv_quiet [OF log(1)]) (use assms(2,3) in \<open>auto simp: holds_def\<close>)
next
  case (logged x n)
  show ?thesis unfolding logged(2) by (rule locks_inv_quiet [OF logged(1)]) (use assms(2,3) in \<open>auto simp: holds_def\<close>)
next
  case (trades n)
  show ?thesis unfolding trades(2) by (rule locks_inv_quiet [OF trades(1)]) (use assms(2,3) in \<open>auto simp: holds_def\<close>)
next
  case consumed
  show ?thesis unfolding consumed(2) by (rule locks_inv_quiet [OF consumed(1)]) (use assms(2,3) in \<open>auto simp: holds_def\<close>)
qed

subsection \<open>The books\<close>

definition engine_at :: "demo \<Rightarrow> Symbol \<Rightarrow> MatchingEngine" where
  "engine_at s x = (case bs_engines (book_at s x) (symbol_key x) of None \<Rightarrow> init_engine default_limits | Some e \<Rightarrow> e)"

text \<open>The orders of a symbol, with the trades they made, in the order in which they were matched.\<close>

definition matched_for :: "Symbol \<Rightarrow> demo \<Rightarrow> (SymbolOrder \<times> Trade list) list" where
  "matched_for x s = filter (\<lambda>(so, ts). symbol_eq (so_symbol so) x) (dm_matched s)"

definition books_inv :: "demo \<Rightarrow> bool" where
  "books_inv s \<longleftrightarrow> (\<forall>x. \<exists>rs. map snd rs = map snd (matched_for x s) \<and>
     run_engine (init_engine default_limits) (map (\<lambda>(so, ts). New (so_order so)) (matched_for x s)) = Some (rs, engine_at s x))"

lemma se_match_engine:
  assumes "se_match x ord sh = Some (ts, sh')"
  shows "\<exists>rep e'. apply_command (case bs_engines sh (symbol_key x) of None \<Rightarrow> init_engine default_limits | Some e \<Rightarrow> e)
    (New ord) = Some ((rep, ts), e') \<and> bs_engines sh' = (bs_engines sh)(symbol_key x \<mapsto> e')"
  using assms by (auto simp: se_match_def Let_def submitOrder_def apply_command_def split: option.splits)

lemma books_inv_same:
  assumes "books_inv s" and "\<And>x. bs_engines (book_at s' x) = bs_engines (book_at s x)" and "dm_matched s' = dm_matched s"
  shows "books_inv s'"
  using assms by (simp add: books_inv_def engine_at_def matched_for_def)

lemma books_inv_write:
  assumes "books_inv s" and "locks_inv s" and "j < length (dm_workers s)" and "dm_workers s ! j = K_Write so ts sh"
  shows "books_inv (set_worker ((set_book s (se_shardIndex (so_symbol so)) sh)\<lparr>dm_matched := dm_matched s @ [(so, ts)]\<rparr>) j w)"
    (is "books_inv ?s'")
proof -
  let ?y = "so_symbol so"
  have len: "length (se_shards (dm_engine s)) = 8" using assms(2) by (simp add: locks_inv_def)
  have "K_Write so ts sh \<in> set (dm_workers s)" using nth_mem [OF assms(3)] assms(4) by simp
  then have "se_match ?y (so_order so) (book_at s ?y) = Some (ts, sh)" using assms(2) by (simp add: locks_inv_def)
  from se_match_engine [OF this] obtain rep e' where
    e': "apply_command (engine_at s ?y) (New (so_order so)) = Some ((rep, ts), e')"
    and sh: "bs_engines sh = (bs_engines (book_at s ?y))(symbol_key ?y \<mapsto> e')" by (auto simp: engine_at_def)
  have same: "book_at s x = book_at s ?y" if "se_shardIndex x = se_shardIndex ?y" for x
    using that by (simp add: book_at_def se_shardFor_def)
  have "\<exists>rs. map snd rs = map snd (matched_for x ?s') \<and>
      run_engine (init_engine default_limits) (map (\<lambda>(so, ts). New (so_order so)) (matched_for x ?s')) = Some (rs, engine_at ?s' x)" for x
  proof -
    from assms(1) obtain rs where rs: "map snd rs = map snd (matched_for x s)"
      and run: "run_engine (init_engine default_limits) (map (\<lambda>(so, ts). New (so_order so)) (matched_for x s)) = Some (rs, engine_at s x)"
      by (auto simp: books_inv_def)
    show ?thesis
    proof (cases "symbol_eq ?y x")
      case True
      then have k: "symbol_key x = symbol_key ?y" "se_shardIndex x = se_shardIndex ?y"
        using hash_respects_eq [OF True] by (simp_all add: symbol_eq_def se_shardIndex_def)
      then have "engine_at s x = engine_at s ?y" "engine_at ?s' x = e'"
        using same [OF k(2)] sh by (simp_all add: engine_at_def book_at_set len)
      then show ?thesis using True rs run e'
        by (intro exI [of _ "rs @ [(rep, ts)]"]) (simp add: matched_for_def run_machine_append)
    next
      case False
      then have "engine_at ?s' x = engine_at s x"
        using same [of x] sh by (auto simp: engine_at_def book_at_set len symbol_eq_def)
      then show ?thesis using False rs run by (simp add: matched_for_def)
    qed
  qed
  then show ?thesis by (simp add: books_inv_def)
qed

lemma books_inv_worker:
  assumes "consumerThread j s = Some s'" and "books_inv s" and "locks_inv s" and "j < length (dm_workers s)"
  shows "books_inv s'"
  using assms(1)
proof (cases rule: worker_cases)
  case (store so ts sh)
  show ?thesis unfolding store(2) by (rule books_inv_write [OF assms(2,3,4) store(1)])
next
  case (lock so)
  have "length (se_shards (dm_engine s)) = 8" using assms(3) by (simp add: locks_inv_def)
  then have "bs_engines (book_at s' x) = bs_engines (book_at s x)" for x
    unfolding lock(3) by (auto simp: book_at_set) (simp add: book_at_def se_shardFor_def)
  then show ?thesis using books_inv_same [OF assms(2)] by (simp add: lock(3))
next
  case (log x n t ts)
  show ?thesis by (rule books_inv_same [OF assms(2)]) (simp_all add: log(2) book_at_def se_shardFor_def)
next
  case (trades n)
  show ?thesis by (rule books_inv_same [OF assms(2)]) (simp_all add: trades(2) book_at_def)
next
  case consumed
  show ?thesis by (rule books_inv_same [OF assms(2)]) (simp_all add: consumed(2) book_at_def)
qed (auto intro: books_inv_same [OF assms(2)])

subsection \<open>The trade log\<close>

definition unlogged :: "Symbol \<Rightarrow> worker \<Rightarrow> Trade multiset" where
  "unlogged x w = (case w of K_Record y n ts \<Rightarrow> if symbol_eq y x then mset ts else {#} | _ \<Rightarrow> {#})"

text \<open>The log has recorded the trades that were made, those still in the hands of a worker apart; in
  which order is up to the workers.\<close>

definition log_inv :: "demo \<Rightarrow> bool" where
  "log_inv s \<longleftrightarrow> se_trade_log (dm_engine s) = record_all (dm_recorded s) (make_log 200) \<and>
     (\<forall>x. mset (trades_of (symbol_key x) (dm_recorded s)) + over_workers (unlogged x) s =
        mset (concat (map snd (matched_for x s))))"

lemma unlogged_total:
  "log_inv s \<Longrightarrow> mset (trades_of (symbol_key x) (dm_recorded s)) + over_workers (unlogged x) s =
    mset (concat (map snd (matched_for x s)))"
  by (simp add: log_inv_def)

lemma log_inv_quiet:
  assumes "dm_workers s ! j = v" and "log_inv s" and "j < length (dm_workers s)" and "dm_workers s1 = dm_workers s"
    and "se_trade_log (dm_engine s1) = se_trade_log (dm_engine s)" and "dm_recorded s1 = dm_recorded s"
    and "dm_matched s1 = dm_matched s" and "\<And>x. unlogged x w = unlogged x v"
  shows "log_inv (set_worker s1 j w)"
proof -
  have "over_workers (unlogged x) (set_worker s1 j w) = over_workers (unlogged x) s" for x
    by (rule over_worker_same [of _ s j w v]) (use assms in simp_all)
  then show ?thesis using assms by (simp add: log_inv_def matched_for_def)
qed

lemma log_inv_worker:
  assumes "consumerThread j s = Some s'" and "log_inv s" and "j < length (dm_workers s)"
  shows "log_inv s'"
  using assms(1)
proof (cases rule: worker_cases)
  case (pop x q)
  show ?thesis unfolding pop(3)
    by (rule log_inv_quiet [OF pop(1)]) (use assms(2,3) in \<open>auto simp: unlogged_def split: option.splits\<close>)
next
  case (lock so)
  show ?thesis unfolding lock(3) by (rule log_inv_quiet [OF lock(1)]) (use assms(2,3) in \<open>auto simp: unlogged_def\<close>)
next
  case (match so ts sh)
  show ?thesis unfolding match(3) by (rule log_inv_quiet [OF match(1)]) (use assms(2,3) in \<open>auto simp: unlogged_def\<close>)
next
  case (store so ts sh)
  have over: "over_workers (unlogged x) s + unlogged x (K_Record (so_symbol so) (length ts) ts) =
      over_workers (unlogged x) s' + unlogged x (K_Write so ts sh)" for x
    by (rule over_worker_step) (use store assms(3) in simp_all)
  have "mset (trades_of (symbol_key x) (dm_recorded s')) + over_workers (unlogged x) s' = mset (concat (map snd (matched_for x s')))" for x
  proof -
    have "matched_for x s' = matched_for x s @ (if symbol_eq (so_symbol so) x then [(so, ts)] else [])"
      by (simp add: store(2) matched_for_def)
    moreover have "over_workers (unlogged x) s' = over_workers (unlogged x) s + (if symbol_eq (so_symbol so) x then mset ts else {#})"
      using over [of x] by (simp add: unlogged_def)
    ultimately show ?thesis using unlogged_total [OF assms(2), of x] by (simp add: store(2) flip: add.assoc)
  qed
  then show ?thesis using assms(2) by (simp add: log_inv_def) (simp add: store(2))
next
  case (log y n t ts)
  have over: "over_workers (unlogged x) s + unlogged x (K_Record y n ts) =
      over_workers (unlogged x) s' + unlogged x (K_Record y n (t # ts))" for x
    by (rule over_worker_step) (use log assms(3) in simp_all)
  have "mset (trades_of (symbol_key x) (dm_recorded s')) + over_workers (unlogged x) s' = mset (concat (map snd (matched_for x s')))" for x
  proof -
    have "matched_for x s' = matched_for x s" by (simp add: log(2) matched_for_def)
    moreover have "mset (trades_of (symbol_key x) (dm_recorded s')) =
        mset (trades_of (symbol_key x) (dm_recorded s)) + (if symbol_eq y x then {#t#} else {#})"
      by (simp add: log(2) trades_of_def symbol_eq_def)
    moreover have "over_workers (unlogged x) s = over_workers (unlogged x) s' + (if symbol_eq y x then {#t#} else {#})"
      using over [of x] by (simp add: unlogged_def split: if_splits)
    ultimately show ?thesis using unlogged_total [OF assms(2), of x] by (simp split: if_splits)
  qed
  moreover have "se_trade_log (dm_engine s') = record_all (dm_recorded s') (make_log 200)"
    using assms(2) by (simp add: log(2) log_inv_def record_all_snoc)
  ultimately show ?thesis by (simp add: log_inv_def)
next
  case (logged x n)
  show ?thesis unfolding logged(2) by (rule log_inv_quiet [OF logged(1)]) (use assms(2,3) in \<open>auto simp: unlogged_def\<close>)
next
  case (trades n)
  show ?thesis unfolding trades(2) by (rule log_inv_quiet [OF trades(1)]) (use assms(2,3) in \<open>auto simp: unlogged_def\<close>)
next
  case consumed
  show ?thesis unfolding consumed(2) by (rule log_inv_quiet [OF consumed(1)]) (use assms(2,3) in \<open>auto simp: unlogged_def\<close>)
qed

subsection \<open>The counters\<close>

definition to_make :: "producing \<Rightarrow> nat" where
  "to_make p = (case p of P_Next n \<Rightarrow> n | P_Push n so \<Rightarrow> Suc n | P_Count n \<Rightarrow> n | P_End \<Rightarrow> 0)"

definition uncounted :: "producing \<Rightarrow> nat" where
  "uncounted p = (case p of P_Count n \<Rightarrow> 1 | _ \<Rightarrow> 0)"

definition unconsumed :: "worker \<Rightarrow> nat" where
  "unconsumed w = (case w of K_Record x n ts \<Rightarrow> 1 | K_Count n \<Rightarrow> 1 | K_Consumed \<Rightarrow> 1 | _ \<Rightarrow> 0)"

definition untraded :: "worker \<Rightarrow> nat" where
  "untraded w = (case w of K_Record x n ts \<Rightarrow> n | K_Count n \<Rightarrow> n | _ \<Rightarrow> 0)"

definition counts_inv :: "nat \<Rightarrow> demo \<Rightarrow> bool" where
  "counts_inv quota s \<longleftrightarrow> length (dm_pushed s) + over_producers to_make s = quota \<and>
     dm_produced s + of_nat (over_producers uncounted s) = of_nat (length (dm_pushed s)) \<and>
     dm_consumed s + of_nat (over_workers unconsumed s) = of_nat (length (dm_matched s)) \<and>
     dm_trades_generated s + of_nat (over_workers untraded s) = of_nat (length (concat (map snd (dm_matched s))))"

lemma counts_inv_worker:
  assumes "consumerThread j s = Some s'" and "counts_inv quota s" and "j < length (dm_workers s)"
  shows "counts_inv quota s'"
proof -
  have *: "counts_inv quota s'" if "dm_workers s ! j = v" "s' = set_worker s1 j w" "dm_workers s1 = dm_workers s"
    "dm_producers s1 = dm_producers s" "dm_pushed s1 = dm_pushed s" "dm_produced s1 = dm_produced s"
    "\<And>a. over_workers unconsumed s + unconsumed w = a + unconsumed v \<Longrightarrow>
       dm_consumed s1 + of_nat a = of_nat (length (dm_matched s1))"
    "\<And>a. over_workers untraded s + untraded w = a + untraded v \<Longrightarrow>
       dm_trades_generated s1 + of_nat a = of_nat (length (concat (map snd (dm_matched s1))))" for v w s1
  proof -
    have "over_workers f s + f w = over_workers f s' + f v" for f :: "worker \<Rightarrow> nat"
      by (rule over_worker_step) (use that assms(3) in simp_all)
    moreover have "over_producers f s' = over_producers f s" for f :: "producing \<Rightarrow> nat"
      using that by (simp add: over_producers_def)
    ultimately show ?thesis using that assms(2) by (simp add: counts_inv_def)
  qed
  have c: "dm_consumed s = of_nat (length (dm_matched s)) - of_nat (over_workers unconsumed s)"
    "dm_trades_generated s = of_nat (length (concat (map snd (dm_matched s)))) - of_nat (over_workers untraded s)"
    using assms(2) by (auto simp: counts_inv_def algebra_simps)
  have nat_word: "of_nat m = of_nat a + (of_nat b :: u64)" if "m = a + b" for m a b using that by simp
  from assms(1) show ?thesis
  proof (cases rule: worker_cases)
    case (pop x q)
    then show ?thesis by (intro * [OF pop(1,3)]) (auto simp: unconsumed_def untraded_def c split: option.splits)
  next
    case (lock so)
    then show ?thesis by (intro * [OF lock(1,3)]) (auto simp: unconsumed_def untraded_def c)
  next
    case (match so ts sh)
    then show ?thesis by (intro * [OF match(1,3)]) (auto simp: unconsumed_def untraded_def c)
  next
    case (store so ts sh)
    then show ?thesis by (intro * [OF store(1,2)]) (auto simp: unconsumed_def untraded_def c dest!: nat_word)
  next
    case (log x n t ts)
    then show ?thesis by (intro * [OF log(1,2)]) (auto simp: unconsumed_def untraded_def c)
  next
    case (logged x n)
    then show ?thesis by (intro * [OF logged(1,2)]) (auto simp: unconsumed_def untraded_def c)
  next
    case (trades n)
    then show ?thesis by (intro * [OF trades(1,2)]) (auto simp: unconsumed_def untraded_def c)
  next
    case consumed
    then show ?thesis by (intro * [OF consumed(1,2)]) (auto simp: unconsumed_def untraded_def c)
  qed
qed

lemma counts_inv_producer:
  assumes "producerThread d j s = Some s'" and "counts_inv quota s" and "j < length (dm_producers s)"
    and "\<not> mq_closed (dm_queue s)"
  shows "counts_inv quota s'"
proof -
  have *: "over_producers f s + f p = over_producers f s' + f q"
    if "dm_producers s ! j = q" "dm_producers s' = (dm_producers s)[j := p]" for f :: "producing \<Rightarrow> nat" and p q
    using over_producer_step [OF that(2,1) assms(3)] .
  from assms(1) show ?thesis
  proof (cases rule: producer_cases)
    case finished
    then show ?thesis using * [of "P_Next 0" P_End to_make] * [of "P_Next 0" P_End uncounted] assms(2)
      by (simp add: counts_inv_def to_make_def uncounted_def)
  next
    case (make n)
    then show ?thesis using * [OF make(1), of "P_Push n (generate (dm_id_gen s) d)" to_make]
      * [OF make(1), of "P_Push n (generate (dm_id_gen s) d)" uncounted] assms(2)
      by (simp add: counts_inv_def to_make_def uncounted_def)
  next
    case (push n so q)
    have "over_producers uncounted s' = over_producers uncounted s + 1"
      using * [OF push(1), of "P_Count n" uncounted] by (simp add: uncounted_def push(3))
    moreover have "over_producers to_make s = over_producers to_make s' + 1"
      using * [OF push(1), of "P_Count n" to_make] by (simp add: to_make_def push(3))
    ultimately show ?thesis using assms(2) by (simp add: counts_inv_def) (simp add: push(3) ac_simps)
  next
    case (refused n so q)
    then show ?thesis using assms(4) by (auto simp: mpmc_push_def split: if_splits)
  next
    case (count n)
    have "over_producers uncounted s = over_producers uncounted s' + 1"
      using * [OF count(1), of "P_Next n" uncounted] by (simp add: uncounted_def count(2))
    moreover have "over_producers to_make s = over_producers to_make s'"
      using * [OF count(1), of "P_Next n" to_make] by (simp add: to_make_def count(2))
    ultimately show ?thesis using assms(2) by (simp add: counts_inv_def) (simp add: count(2) ac_simps)
  qed
qed

subsection \<open>The phases of the program\<close>

definition phase_inv :: "demo \<Rightarrow> bool" where
  "phase_inv s \<longleftrightarrow> mq_closed (dm_queue s) = (dm_main s = D_Consumers \<or> dm_main s = D_Summary) \<and>
     (dm_main s \<noteq> D_Producers \<longrightarrow> (\<forall>p \<in> set (dm_producers s). p = P_End)) \<and>
     (dm_main s = D_Summary \<longrightarrow> (\<forall>w \<in> set (dm_workers s). w = K_End)) \<and>
     (K_End \<in> set (dm_workers s) \<longrightarrow> mq_closed (dm_queue s) \<and> buffer (dm_queue s) = [])"

lemma producer_phase:
  assumes "phase_inv s" and "j < length (dm_producers s)" and "producerThread d j s = Some s'"
  shows "dm_main s = D_Producers \<and> \<not> mq_closed (dm_queue s)"
proof -
  have "dm_producers s ! j \<noteq> P_End" using assms(3) by (auto simp: producerThread_def)
  moreover have "dm_producers s ! j \<in> set (dm_producers s)" using assms(2) by simp
  ultimately show ?thesis using assms(1) by (auto simp: phase_inv_def)
qed

lemma phase_inv_producer:
  assumes "producerThread d j s = Some s'" and "phase_inv s" and "j < length (dm_producers s)"
  shows "phase_inv s'"
proof -
  note ph = producer_phase [OF assms(2,3,1)]
  then have "K_End \<notin> set (dm_workers s)" using assms(2) by (auto simp: phase_inv_def)
  with assms(1) ph show ?thesis
    by (cases rule: producer_cases) (auto simp: phase_inv_def mpmc_push_def split: if_splits)
qed

lemma phase_inv_worker:
  assumes "consumerThread j s = Some s'" and "phase_inv s" and "j < length (dm_workers s)"
  shows "phase_inv s'"
proof -
  have "dm_workers s ! j \<noteq> K_End" using assms(1) by (auto simp: consumerThread_def)
  moreover have "dm_workers s ! j \<in> set (dm_workers s)" using assms(3) by simp
  ultimately have run: "dm_main s \<noteq> D_Summary" using assms(2) by (auto simp: phase_inv_def)
  have *: "phase_inv (set_worker s1 j w)"
    if "dm_workers s1 = dm_workers s" "dm_producers s1 = dm_producers s" "dm_main s1 = dm_main s"
      "mq_closed (dm_queue s1) = mq_closed (dm_queue s)" "buffer (dm_queue s) = [] \<longrightarrow> buffer (dm_queue s1) = []"
      "w = K_End \<longrightarrow> mq_closed (dm_queue s) \<and> buffer (dm_queue s) = []" for s1 w
    using that run assms(2) set_update_subset_insert [of "dm_workers s" j w] by (auto simp: phase_inv_def)
  from assms(1) show ?thesis
    by (cases rule: worker_cases) (auto intro!: * simp: mpmc_pop_def split: if_splits option.splits)
qed

text \<open>Everything together, in every reachable state.\<close>

definition demo_inv :: "nat \<Rightarrow> demo \<Rightarrow> bool" where
  "demo_inv quota s \<longleftrightarrow> orders_inv s \<and> locks_inv s \<and> books_inv s \<and> log_inv s \<and> counts_inv quota s \<and> phase_inv s"

lemma producer_keeps:
  assumes "producerThread d j s = Some s'"
  shows "dm_workers s' = dm_workers s" "dm_engine s' = dm_engine s" "dm_matched s' = dm_matched s" "dm_recorded s' = dm_recorded s"
  using assms by (cases rule: producer_cases; simp)+

lemma demo_inv_step:
  assumes "demo_step s s'" and "demo_inv quota s"
  shows "demo_inv quota s'"
  using assms
proof (induction rule: demo_step.induct)
  case (producer j s d s')
  have "locks_inv s'" "books_inv s'" "log_inv s'"
    using producer(3) producer_keeps [OF producer(2)]
    by (simp_all add: demo_inv_def locks_inv_def books_inv_def log_inv_def engine_at_def matched_for_def over_workers_def book_at_def)
  then show ?case
    using producer orders_inv_producer counts_inv_producer phase_inv_producer producer_phase by (auto simp: demo_inv_def)
next
  case (worker j s s')
  then show ?case
    using orders_inv_worker locks_inv_worker books_inv_worker log_inv_worker counts_inv_worker phase_inv_worker
    by (auto simp: demo_inv_def)
next
  case (main s s')
  from main(1) have "orders_inv s' \<and> locks_inv s' \<and> books_inv s' \<and> log_inv s' \<and> counts_inv quota s'"
    using main(2) mpmc_close_ok [of "dm_queue s"]
    by (cases rule: main_cases)
      (simp_all add: demo_inv_def orders_inv_def locks_inv_def books_inv_def log_inv_def counts_inv_def engine_at_def
        matched_for_def book_at_def mpmc_close_def)
  moreover from main(1) have "phase_inv s'"
    using main(2) by (cases rule: main_cases) (auto simp: demo_inv_def phase_inv_def mpmc_close_def)
  ultimately show ?case by (simp add: demo_inv_def)
qed

lemma over_start:
  "f K_Pop = 0 \<Longrightarrow> over_workers f (demo_start m k n q) = 0"
  "over_producers to_make (demo_start m k n q) = m * n" "over_producers uncounted (demo_start m k n q) = 0"
    apply (unfold over_workers_def, rule sum_list_all_zero, simp add: demo_start_def)
  by (simp_all add: over_producers_def demo_start_def to_make_def uncounted_def sum_list_replicate)

lemma book_at_start: "book_at (demo_start m k n q) x = \<lparr>bs_locked = False, bs_engines = Map.empty\<rparr>"
  using se_shardIndex_less [of x]
  by (simp add: book_at_def demo_start_def make_sharded_def se_shardFor_def kShardCount_def)

lemma start_fields:
  "dm_queue (demo_start m k n q) = q" "dm_engine (demo_start m k n q) = make_sharded 200"
  "dm_produced (demo_start m k n q) = 0" "dm_consumed (demo_start m k n q) = 0" "dm_trades_generated (demo_start m k n q) = 0"
  "dm_producers (demo_start m k n q) = replicate m (P_Next n)" "dm_workers (demo_start m k n q) = replicate k K_Pop"
  "dm_main (demo_start m k n q) = D_Producers" "dm_pushed (demo_start m k n q) = []" "dm_matched (demo_start m k n q) = []"
  "dm_recorded (demo_start m k n q) = []"
  by (simp_all add: demo_start_def)

lemma demo_inv_start:
  assumes "mpmc_make cap = Inr q"
  shows "demo_inv (m * n) (demo_start m k n q)"
proof -
  let ?s = "demo_start m k n q"
  have q: "mpmc_ok q" "buffer q = []" "\<not> mq_closed q" using mpmc_ok_make [OF assms] by auto
  then have "orders_inv ?s"
    by (auto simp: orders_inv_def over_start hand_def start_fields made_def)
  moreover have "locks_inv ?s"
    by (simp add: locks_inv_def over_start holds_def start_fields make_sharded_def kShardCount_def)
  moreover have "books_inv ?s" by (simp add: books_inv_def matched_for_def start_fields engine_at_def book_at_start)
  moreover have "log_inv ?s"
    by (simp add: log_inv_def over_start unlogged_def start_fields make_sharded_def record_all_def trades_of_def matched_for_def)
  moreover have "counts_inv (m * n) ?s"
    by (simp add: counts_inv_def over_start unconsumed_def untraded_def start_fields)
  moreover have "phase_inv ?s" using q by (simp add: phase_inv_def start_fields)
  ultimately show ?thesis by (simp add: demo_inv_def)
qed

lemma demo_reachable_inv:
  assumes "demo_step\<^sup>*\<^sup>* (demo_start m k n q) s" and "mpmc_make cap = Inr q"
  shows "demo_inv (m * n) s"
  using assms(1) by (induction rule: rtranclp_induct) (use demo_inv_start [OF assms(2)] demo_inv_step in blast)+

section \<open>The program ends\<close>

text \<open>Each step brings the program closer to its end: an order costs eleven steps at most, apart from the
  recording of its trades, which is a second component.\<close>

definition producer_weight :: "producing \<Rightarrow> nat" where
  "producer_weight p = (case p of P_Next n \<Rightarrow> 11 * n + 1 | P_Push n so \<Rightarrow> 11 * n + 11 | P_Count n \<Rightarrow> 11 * n + 2 | P_End \<Rightarrow> 0)"

definition worker_weight :: "worker \<Rightarrow> nat" where
  "worker_weight w = (case w of K_Pop \<Rightarrow> 1 | K_Lock so \<Rightarrow> 8 | K_Match so \<Rightarrow> 7 | K_Write so ts sh \<Rightarrow> 6
     | K_Record x n ts \<Rightarrow> 5 | K_Count n \<Rightarrow> 4 | K_Consumed \<Rightarrow> 3 | K_End \<Rightarrow> 0)"

definition main_weight :: "demo_main \<Rightarrow> nat" where
  "main_weight m = (case m of D_Producers \<Rightarrow> 3 | D_Close \<Rightarrow> 2 | D_Consumers \<Rightarrow> 1 | D_Summary \<Rightarrow> 0)"

definition unrecorded :: "worker \<Rightarrow> nat" where
  "unrecorded w = (case w of K_Record x n ts \<Rightarrow> length ts | _ \<Rightarrow> 0)"

definition demo_measure :: "demo \<Rightarrow> nat \<times> nat" where
  "demo_measure s = (over_producers producer_weight s + over_workers worker_weight s + 8 * length (buffer (dm_queue s)) +
     main_weight (dm_main s), over_workers unrecorded s)"

lemma producer_measure:
  assumes "producerThread d j s = Some s'" and "j < length (dm_producers s)"
  shows "fst (demo_measure s') < fst (demo_measure s)"
proof -
  have *: "over_producers producer_weight s + producer_weight p = over_producers producer_weight s' + producer_weight q"
    if "dm_producers s ! j = q" "dm_producers s' = (dm_producers s)[j := p]" for p q
    using over_producer_step [OF that(2,1) assms(2)] .
  from assms(1) show ?thesis
  proof (cases rule: producer_cases)
    case finished
    then show ?thesis using * [OF finished(1), of P_End] by (simp add: demo_measure_def producer_weight_def)
  next
    case (make n)
    then show ?thesis using * [OF make(1), of "P_Push n (generate (dm_id_gen s) d)"]
      by (simp add: demo_measure_def producer_weight_def)
  next
    case (push n so q)
    then have "length (buffer q) = Suc (length (buffer (dm_queue s)))" by (auto simp: mpmc_push_def split: if_splits)
    then show ?thesis using push * [OF push(1), of "P_Count n"] by (simp add: demo_measure_def producer_weight_def)
  next
    case (refused n so q)
    then show ?thesis using * [OF refused(1), of P_End] by (simp add: demo_measure_def producer_weight_def)
  next
    case (count n)
    then show ?thesis using * [OF count(1), of "P_Next n"] by (simp add: demo_measure_def producer_weight_def)
  qed
qed

lemma worker_measure:
  assumes "consumerThread j s = Some s'" and "j < length (dm_workers s)"
  shows "(demo_measure s', demo_measure s) \<in> less_than <*lex*> less_than"
proof -
  have *: "over_workers f s + f w = over_workers f s' + f v"
    if "dm_workers s ! j = v" "dm_workers s' = (dm_workers s)[j := w]" for v w and f :: "worker \<Rightarrow> nat"
    using over_worker_step [OF that(2,1) assms(2)] .
  from assms(1) show ?thesis
  proof (cases rule: worker_cases)
    case (pop x q)
    then have "8 * length (buffer q) + worker_weight (case x of None \<Rightarrow> K_End | Some so \<Rightarrow> K_Lock so) <
        8 * length (buffer (dm_queue s)) + worker_weight K_Pop"
      by (cases "buffer (dm_queue s)") (auto simp: mpmc_pop_def worker_weight_def split: if_splits)
    then show ?thesis using pop * [OF pop(1), of "case x of None \<Rightarrow> K_End | Some so \<Rightarrow> K_Lock so" worker_weight]
      by (simp add: demo_measure_def)
  next
    case (lock so)
    then show ?thesis using * [OF lock(1), of "K_Match so" worker_weight] by (simp add: demo_measure_def worker_weight_def)
  next
    case (match so ts sh)
    then show ?thesis using * [OF match(1), of "K_Write so ts sh" worker_weight]
      by (simp add: demo_measure_def worker_weight_def)
  next
    case (store so ts sh)
    then show ?thesis using * [OF store(1), of "K_Record (so_symbol so) (length ts) ts" worker_weight]
      by (simp add: demo_measure_def worker_weight_def)
  next
    case (log x n t ts)
    then show ?thesis using * [OF log(1), of "K_Record x n ts" worker_weight] * [OF log(1), of "K_Record x n ts" unrecorded]
      by (simp add: demo_measure_def worker_weight_def unrecorded_def)
  next
    case (logged x n)
    then show ?thesis using * [OF logged(1), of "K_Count n" worker_weight] by (simp add: demo_measure_def worker_weight_def)
  next
    case (trades n)
    then show ?thesis using * [OF trades(1), of K_Consumed worker_weight] by (simp add: demo_measure_def worker_weight_def)
  next
    case consumed
    then show ?thesis using * [OF consumed(1), of K_Pop worker_weight] by (simp add: demo_measure_def worker_weight_def)
  qed
qed

lemma demo_measure_step:
  assumes "demo_step s s'"
  shows "(demo_measure s', demo_measure s) \<in> less_than <*lex*> less_than"
  using assms
proof (induction rule: demo_step.induct)
  case (producer j s d s')
  then show ?case using producer_measure [OF producer(2,1)] by (cases "demo_measure s'"; cases "demo_measure s") simp
next
  case (worker j s s')
  then show ?case using worker_measure by blast
next
  case (main s s')
  then show ?case
    by (cases rule: main_cases) (auto simp: demo_measure_def main_weight_def mpmc_close_def)
qed

text \<open>A reachable state in which no thread can step is the end of the program.\<close>

lemma worker_can_step:
  "j < length (dm_workers s) \<Longrightarrow> consumerThread j s \<noteq> None \<Longrightarrow> \<exists>s'. demo_step s s'"
  using demo_step.worker by blast

lemma match_progress:
  assumes "demo_inv quota s" and "quota \<le> 2 ^ 32" and "K_Match so \<in> set (dm_workers s)"
  shows "se_match (so_symbol so) (so_order so) (book_at s (so_symbol so)) \<noteq> None"
proof -
  let ?x = "so_symbol so"
  from assms(1) obtain rs where
    run: "run_engine (init_engine default_limits) (map (\<lambda>(so, ts). New (so_order so)) (matched_for ?x s)) = Some (rs, engine_at s ?x)"
    by (auto simp: demo_inv_def books_inv_def)
  have ms: "mset (dm_pushed s) = mset (map fst (dm_matched s)) + over_workers hand s + mset (buffer (dm_queue s))"
    and valid: "\<forall>so \<in> set (dm_pushed s). command_valid (New (so_order so))"
    using assms(1) by (auto simp: demo_inv_def orders_inv_def)
  have "so \<in># over_workers hand s"
    using assms(3) by (auto simp: over_workers_def set_mset_sum_list hand_def intro!: bexI [of _ "K_Match so"])
  then have so: "so \<in> set (dm_pushed s)" and "over_workers hand s \<noteq> {#}"
    using arg_cong [OF ms, of set_mset] by auto
  then have "length (dm_matched s) < length (dm_pushed s)"
    using arg_cong [OF ms, of size] by (simp add: nonempty_has_size)
  moreover have "length (dm_pushed s) \<le> quota" using assms(1) by (auto simp: demo_inv_def counts_inv_def)
  moreover have "length (matched_for ?x s) \<le> length (dm_matched s)" by (simp add: matched_for_def)
  ultimately have n: "length (matched_for ?x s) + 1 \<le> 2 ^ 32" using assms(2) by linarith
  have "set (map fst (dm_matched s)) \<subseteq> set (dm_pushed s)" using arg_cong [OF ms, of set_mset] by auto
  then have "\<forall>c \<in> set (map (\<lambda>(so, ts). New (so_order so)) (matched_for ?x s)). command_valid c"
    using valid by (auto simp: matched_for_def)
  from run_engine_ready [OF run this] n have "engine_ready 1 (engine_at s ?x)" by simp
  then obtain r e' where "apply_command (engine_at s ?x) (New (so_order so)) = Some (r, e')"
    using engine.step_returns [of 0 "engine_at s ?x" "New (so_order so)"] valid so by auto
  then show ?thesis
    by (auto simp: se_match_def Let_def submitOrder_def apply_command_def engine_at_def)
qed

lemma holder_progress:
  assumes "demo_inv quota s" and "quota \<le> 2 ^ 32" and "i < 8" and "bs_locked (se_shards (dm_engine s) ! i)"
  shows "\<exists>s'. demo_step s s'"
proof -
  have "over_workers (holds i) s \<noteq> 0" using assms by (simp add: demo_inv_def locks_inv_def)
  then obtain j where j: "j < length (dm_workers s)" "holds i (dm_workers s ! j) \<noteq> 0"
    by (auto simp: over_workers_def in_set_conv_nth)
  then have "consumerThread j s \<noteq> None"
    using match_progress [OF assms(1,2)] nth_mem [OF j(1)]
    by (cases "dm_workers s ! j") (auto simp: holds_def consumerThread_def split: option.splits)
  then show ?thesis using worker_can_step [OF j(1)] by simp
qed

lemma worker_progress:
  assumes "demo_inv quota s" and "quota \<le> 2 ^ 32" and "w \<in> set (dm_workers s)" and "w \<noteq> K_End"
    and "w = K_Pop \<Longrightarrow> mq_closed (dm_queue s) \<or> buffer (dm_queue s) \<noteq> []"
  shows "\<exists>s'. demo_step s s'"
proof -
  from assms(3) obtain j where j: "j < length (dm_workers s)" "dm_workers s ! j = w" by (auto simp: in_set_conv_nth)
  show ?thesis
  proof (cases "\<exists>so. w = K_Lock so \<and> bs_locked (book_at s (so_symbol so))")
    case True
    then show ?thesis using holder_progress [OF assms(1,2)] se_shardIndex_less by (auto simp: book_at_def se_shardFor_def)
  next
    case False
    then have "consumerThread j s \<noteq> None"
      using j assms(3-5) match_progress [OF assms(1,2)]
      by (cases w) (auto simp: consumerThread_def mpmc_pop_def split: option.splits list.splits)
    then show ?thesis using worker_can_step [OF j(1)] by simp
  qed
qed

lemma producing_progress:
  assumes "p \<in> set (dm_producers s)" and "p \<noteq> P_End" and "mpmc_ok (dm_queue s)"
    and "mq_closed (dm_queue s) \<or> buffer (dm_queue s) = []"
  shows "\<exists>s'. demo_step s s'"
proof -
  define d where "d = \<lparr>dr_symbol = 0, dr_buy = True, dr_price = 9900, dr_quantity = 1\<rparr>"
  have "draw_ok d" by (simp add: d_def draw_ok_def kSymbols_def)
  moreover from assms(1) obtain j where j: "j < length (dm_producers s)" "dm_producers s ! j = p" by (auto simp: in_set_conv_nth)
  moreover have "mpmc_push (dm_queue s) so \<noteq> None" for so
    using assms(3,4) mpmc_room [OF assms(3)] by (auto simp: mpmc_push_def mpmc_ok_def word_less_nat_alt)
  ultimately have "producerThread d j s \<noteq> None"
    using assms(2) by (cases p) (auto simp: producerThread_def split: nat.splits option.splits)
  then show ?thesis using demo_step.producer [OF j(1)] by blast
qed

lemma stuck_is_end:
  assumes "demo_inv quota s" and "quota \<le> 2 ^ 32" and "dm_workers s \<noteq> []" and "\<nexists>s'. demo_step s s'"
  shows "dm_main s = D_Summary"
proof (rule ccontr)
  assume run: "dm_main s \<noteq> D_Summary"
  have join: "demo_join s = None" using assms(4) demo_step.main by (cases "demo_join s") auto
  have q: "mpmc_ok (dm_queue s)" and ph: "phase_inv s" using assms(1) by (simp_all add: demo_inv_def orders_inv_def)
  have w: "w = K_End \<or> w = K_Pop \<and> \<not> mq_closed (dm_queue s) \<and> buffer (dm_queue s) = []" if "w \<in> set (dm_workers s)" for w
    using worker_progress [OF assms(1,2) that] assms(4) by blast
  have "mq_closed (dm_queue s) \<or> buffer (dm_queue s) = []"
    using w [OF hd_in_set [OF assms(3)]] ph hd_in_set [OF assms(3)] by (auto simp: phase_inv_def)
  then have "\<forall>p \<in> set (dm_producers s). p = P_End" using producing_progress [OF _ _ q] assms(4) by blast
  moreover have "dm_main s = D_Consumers \<Longrightarrow> \<forall>w \<in> set (dm_workers s). w = K_End" using w ph by (auto simp: phase_inv_def)
  ultimately show False using run join by (cases "dm_main s") (auto simp: demo_join_def list_all_iff is_K_End_def)
qed

lemma ended_sums: "\<forall>w \<in> set (dm_workers s). w = K_End \<Longrightarrow> f K_End = 0 \<Longrightarrow> over_workers f s = 0"
  unfolding over_workers_def by (rule sum_list_all_zero) auto

lemma demo_threads: "demo_step\<^sup>*\<^sup>* s s' \<Longrightarrow> length (dm_workers s') = length (dm_workers s)"
proof (induction rule: rtranclp_induct)
  case (step s1 s2)
  from step(2) have "length (dm_workers s2) = length (dm_workers s1)"
  proof (cases rule: demo_step.cases)
    case (producer j d)
    then show ?thesis by (simp add: producer_keeps)
  next
    case (worker j)
    from worker(2) show ?thesis by (cases rule: worker_cases) simp_all
  next
    case main
    from main show ?thesis by (cases rule: main_cases) simp_all
  qed
  with step show ?case by simp
qed simp

section \<open>Cancelling and looking at a book\<close>

text \<open>Under the lock of its shard, \<open>cancel\<close> is a cancel command to the symbol's engine; for a symbol that was
  never seen it reports nothing cancelled and makes no engine.\<close>

lemma se_cancel_engine:
  "se_cancel x i sh = (case bs_engines sh (symbol_key x) of
     None \<Rightarrow> Some (False, sh\<lparr>bs_locked := False\<rparr>)
   | Some e \<Rightarrow> map_option (\<lambda>((rep, ts), e'). (r_status rep = CANCELED,
       \<lparr>bs_locked = False, bs_engines = (bs_engines sh)(symbol_key x \<mapsto> e')\<rparr>)) (apply_command e (Cancel i)))"
  by (auto simp: se_cancel_def Let_def cancelOrder_engine_def apply_command_def option.map_comp split: option.splits)

lemma se_cancel_returns:
  assumes "\<And>e. bs_engines sh (symbol_key x) = Some e \<Longrightarrow> engine_ready 1 e"
  shows "\<exists>b sh'. se_cancel x i sh = Some (b, sh') \<and> \<not> bs_locked sh'"
proof (cases "bs_engines sh (symbol_key x)")
  case None
  then show ?thesis by (auto simp: se_cancel_engine)
next
  case (Some e)
  then obtain r e' where "apply_command e (Cancel i) = Some (r, e')"
    using engine.step_returns [of 0 e "Cancel i"] assms by (auto simp: command_valid_def)
  with Some show ?thesis by (cases r) (simp add: se_cancel_engine)
qed

text \<open>A snapshot of a symbol that was never seen shows what the empty book of a new engine shows.\<close>

lemma se_snapshot_unseen:
  "bs_engines sh (symbol_key x) = None \<Longrightarrow>
    se_snapshot x sh = (se_snapshot x (sh\<lparr>bs_engines := [symbol_key x \<mapsto> init_engine l]\<rparr>))\<lparr>bsn_exists := False\<rparr>"
  by (simp add: se_snapshot_def init_engine_def empty_book_def bestBid_def bestAsk_def orderCount_def)

section \<open>Properties\<close>

text \<open>C33: whatever the producers and workers do, at most one worker is inside a shard; every order pushed has been
  matched, is in the hands of one worker or is in the queue, once; and the book of a symbol, with the
  trades that were made, is the result of one engine run on the symbol's orders in the order in which
  they were matched. The log of the symbol shows the last trades recorded, and these are, those still in
  the hands of a worker apart, the trades that were made.\<close>

theorem sharded_serializable:
  assumes "demo_step\<^sup>*\<^sup>* (demo_start producers consumers per_producer q) s" and "mpmc_make cap = Inr q"
  shows "(\<forall>i < 8. over_workers (holds i) s \<le> 1) \<and>
    mset (dm_pushed s) = mset (map fst (dm_matched s)) + over_workers hand s + mset (buffer (dm_queue s)) \<and>
    (\<forall>x. \<exists>rs. map snd rs = map snd (matched_for x s) \<and>
       run_engine (init_engine default_limits) (map (\<lambda>(so, ts). New (so_order so)) (matched_for x s)) = Some (rs, engine_at s x)) \<and>
    (\<forall>x n. recent (se_trade_log (dm_engine s)) x n = last_n (min (unat n) 200) (trades_of (symbol_key x) (dm_recorded s)) \<and>
       mset (trades_of (symbol_key x) (dm_recorded s)) + over_workers (unlogged x) s = mset (concat (map snd (matched_for x s))))"
proof -
  have inv: "orders_inv s" "locks_inv s" "books_inv s" "log_inv s"
    using demo_reachable_inv [OF assms] by (simp_all add: demo_inv_def)
  have "recent (se_trade_log (dm_engine s)) x n = last_n (min (unat n) 200) (trades_of (symbol_key x) (dm_recorded s))" for x n
    using inv(4) logged_record_all [of 200 "dm_recorded s" "symbol_key x"]
    by (simp add: log_inv_def recent_logged last_n_last_n word_less_nat_alt)
  with inv show ?thesis by (simp add: orders_inv_def locks_inv_def books_inv_def log_inv_def)
qed

text \<open>C34: the program ends, and then nothing is missing. Every run is finite, and with at least one worker and
  at most \<open>2\<^sup>3\<^sup>2\<close> orders a run only stops at the summary: no thread is left, every order that was to be made has
  been made, matched and counted once, and every trade is counted and in the log's history.\<close>

theorem demo_terminates:
  assumes "mpmc_make cap = Inr q" and "0 < consumers" and "producers * per_producer \<le> 2 ^ 32"
  shows "\<not> (\<exists>run. run 0 = demo_start producers consumers per_producer q \<and> (\<forall>i. demo_step (run i) (run (Suc i)))) \<and>
    (\<forall>s. demo_step\<^sup>*\<^sup>* (demo_start producers consumers per_producer q) s \<and> (\<nexists>s'. demo_step s s') \<longrightarrow>
      dm_main s = D_Summary \<and> length (dm_pushed s) = producers * per_producer \<and> mset (map fst (dm_matched s)) = mset (dm_pushed s) \<and>
      dm_produced s = of_nat (producers * per_producer) \<and> dm_consumed s = of_nat (producers * per_producer) \<and>
      dm_trades_generated s = of_nat (length (concat (map snd (dm_matched s)))) \<and>
      (\<forall>x. mset (trades_of (symbol_key x) (dm_recorded s)) = mset (concat (map snd (matched_for x s)))))"
proof (intro conjI allI impI)
  have "wf (inv_image (less_than <*lex*> less_than) demo_measure)" by (intro wf_inv_image wf_lex_prod) simp_all
  then have "\<nexists>run. \<forall>i. (run (Suc i), run i) \<in> inv_image (less_than <*lex*> less_than) demo_measure"
    by (simp only: wf_iff_no_infinite_down_chain not_False_eq_True)
  then show "\<not> (\<exists>run. run 0 = demo_start producers consumers per_producer q \<and> (\<forall>i. demo_step (run i) (run (Suc i))))"
    using demo_measure_step by (metis in_inv_image)
next
  fix s
  assume s: "demo_step\<^sup>*\<^sup>* (demo_start producers consumers per_producer q) s \<and> (\<nexists>s'. demo_step s s')"
  then have inv: "demo_inv (producers * per_producer) s" using demo_reachable_inv [OF _ assms(1)] by blast
  have "length (dm_workers s) = consumers" using s demo_threads [of "demo_start producers consumers per_producer q" s]
    by (simp add: start_fields)
  then have "dm_workers s \<noteq> []" using assms(2) by auto
  with stuck_is_end [OF inv assms(3)] s show fin: "dm_main s = D_Summary" by blast
  then have all: "\<forall>p \<in> set (dm_producers s). p = P_End" "\<forall>w \<in> set (dm_workers s). w = K_End" "buffer (dm_queue s) = []"
    using inv \<open>dm_workers s \<noteq> []\<close> by (auto simp: demo_inv_def phase_inv_def neq_Nil_conv)
  have sump: "f P_End = 0 \<Longrightarrow> over_producers f s = 0" for f :: "producing \<Rightarrow> nat" 
    using all(1) by (auto simp: over_producers_def)
  show len: "length (dm_pushed s) = producers * per_producer"
    using inv sump [of to_make] by (simp add: demo_inv_def counts_inv_def to_make_def)
  show ms: "mset (map fst (dm_matched s)) = mset (dm_pushed s)"
    using inv all(3) ended_sums [OF all(2), of hand] by (simp add: demo_inv_def orders_inv_def hand_def)
  have "length (dm_matched s) = length (dm_pushed s)" using arg_cong [OF ms, of size] by simp
  with len show "dm_produced s = of_nat (producers * per_producer)" "dm_consumed s = of_nat (producers * per_producer)"
    "dm_trades_generated s = of_nat (length (concat (map snd (dm_matched s))))"
    using inv sump [of uncounted] ended_sums [OF all(2), of unconsumed] ended_sums [OF all(2), of untraded]
    by (simp_all add: demo_inv_def counts_inv_def uncounted_def unconsumed_def untraded_def)
  show "mset (trades_of (symbol_key x) (dm_recorded s)) = mset (concat (map snd (matched_for x s)))" for x
    using inv unlogged_total [of s x] ended_sums [OF all(2), of "unlogged x"] by (simp add: demo_inv_def unlogged_def)
qed

section \<open>Runs\<close>

text \<open>A schedule: which thread takes the next step.\<close>

datatype move = Produce nat draw | Work nat | Join

definition do_move :: "move \<Rightarrow> demo \<Rightarrow> demo option" where
  "do_move v s = (case v of
     Produce j d \<Rightarrow> if j < length (dm_producers s) then producerThread d j s else None
   | Work j \<Rightarrow> if j < length (dm_workers s) then consumerThread j s else None
   | Join \<Rightarrow> demo_join s)"

fun do_moves :: "move list \<Rightarrow> demo \<Rightarrow> demo option" where
  "do_moves [] s = Some s"
| "do_moves (v # vs) s = (case do_move v s of None \<Rightarrow> None | Some s' \<Rightarrow> do_moves vs s')"

lemma do_move_step: "do_move v s = Some s' \<Longrightarrow> demo_step s s'"
  by (cases v) (auto simp: do_move_def intro: demo_step.intros split: if_splits)

lemma do_moves_run: "do_moves vs s = Some s' \<Longrightarrow> demo_step\<^sup>*\<^sup>* s s'"
  by (induction vs arbitrary: s) (auto split: option.splits dest!: do_move_step intro: converse_rtranclp_into_rtranclp)

lemma run_exists:
  "(case do_moves vs s of None \<Rightarrow> False | Some s' \<Rightarrow> P s') \<Longrightarrow> \<exists>s'. demo_step\<^sup>*\<^sup>* s s' \<and> P s'"
  using do_moves_run by (fastforce split: option.splits)

text \<open>An offer and two bids for the same symbol; both bids trade with the offer.\<close>

definition offer :: draw where "offer = \<lparr>dr_symbol = 0, dr_buy = False, dr_price = 10000, dr_quantity = 2\<rparr>"
definition bid :: draw where "bid = \<lparr>dr_symbol = 0, dr_buy = True, dr_price = 10000, dr_quantity = 1\<rparr>"

definition demo_queue :: "SymbolOrder MPMCQueue" where
  "demo_queue = \<lparr>buffer = [], mq_capacity = 4, high_watermark = 0, mq_closed = False\<rparr>"

lemma demo_queue: "mpmc_make 4 = Inr demo_queue"
  by (simp add: mpmc_make_def demo_queue_def)

definition three_orders :: "move list" where
  "three_orders = replicate 3 (Produce 0 offer) @ replicate 6 (Produce 0 bid)"

text \<open>Worker 0 handles the offer, then the workers pop a bid each; worker 1, with the later bid, takes the
  lock first.\<close>

definition overtaking :: "move list" where
  "overtaking = three_orders @ replicate 7 (Work 0) @ [Work 0, Work 1] @ replicate 3 (Work 1) @ replicate 3 (Work 0)"

text \<open>Mutual exclusion is not sequencing: two orders for the same symbol can be matched in the other order than
  they were pushed and popped.\<close>

theorem same_symbol_overtaking:
  "\<exists>s. demo_step\<^sup>*\<^sup>* (demo_start 1 2 3 demo_queue) s \<and> map (o_id \<circ> so_order) (dm_pushed s) = [1, 2, 3] \<and>
    map (o_id \<circ> so_order \<circ> fst) (dm_matched s) = [1, 3, 2] \<and>
    list_all (\<lambda>so. symbol_eq (so_symbol so) (make_symbol (Some ''AAPL''))) (dm_pushed s)"
  by (rule run_exists [where vs = overtaking]) code_simp

text \<open>The bids are matched in order, but worker 0 only records its trade after worker 1 has recorded the next.\<close>

definition late_recording :: "move list" where
  "late_recording = three_orders @ replicate 7 (Work 0) @ replicate 4 (Work 0) @ replicate 5 (Work 1) @ [Work 0]"

theorem log_out_of_order:
  "\<exists>s. demo_step\<^sup>*\<^sup>* (demo_start 1 2 3 demo_queue) s \<and>
    map t_trade_id (concat (map snd (dm_matched s))) = [1, 2] \<and>
    map t_trade_id (recent (se_trade_log (dm_engine s)) (make_symbol (Some ''AAPL'')) 2) = [2, 1]"
  by (rule run_exists [where vs = late_recording]) code_simp

theorem sharded_serializable_witness:
  "\<exists>s. demo_step\<^sup>*\<^sup>* (demo_start 1 2 3 demo_queue) s \<and> length (dm_matched s) = 3 \<and>
    (\<exists>rs. run_engine (init_engine default_limits)
       (map (\<lambda>(so, ts). New (so_order so)) (matched_for (make_symbol (Some ''AAPL'')) s)) =
         Some (rs, engine_at s (make_symbol (Some ''AAPL''))))"
proof -
  have "\<exists>s. demo_step\<^sup>*\<^sup>* (demo_start 1 2 3 demo_queue) s \<and> length (dm_matched s) = 3"
    by (rule run_exists [where vs = overtaking]) code_simp
  then show ?thesis using sharded_serializable [OF _ demo_queue] by blast
qed

theorem demo_terminates_witness:
  "\<not> (\<exists>run. run 0 = demo_start 1 2 3 demo_queue \<and> (\<forall>i. demo_step (run i) (run (Suc i))))"
  using demo_terminates [OF demo_queue, of 2 1 3] by simp

end
