(* ===== verification/Cli.thy ===== *)
theory Cli
  imports Order_Types
begin

text \<open>
  What the programs' command lines share: the number conversions of the C library as far as they are
  used (base ten), the checked conversions built on them, and the loop over the arguments. A program
  that ends early gives its exit status and its message, without the newline at the end.
\<close>

section \<open>Numbers of the C library\<close>

definition char_code :: "char \<Rightarrow> nat" where "char_code c = of_char c"

definition is_space :: "char \<Rightarrow> bool" where
  "is_space c \<longleftrightarrow> char_code c = 32 \<or> 9 \<le> char_code c \<and> char_code c \<le> 13"

definition is_digit :: "char \<Rightarrow> bool" where
  "is_digit c \<longleftrightarrow> 48 \<le> char_code c \<and> char_code c \<le> 57"

definition decimal :: "string \<Rightarrow> nat" where
  "decimal ds = foldl (\<lambda>n c. 10 * n + (char_code c - 48)) 0 ds"

text \<open>The sign and what follows it.\<close>

definition sign :: "string \<Rightarrow> bool \<times> string" where
  "sign s = (case s of
     [] \<Rightarrow> (False, [])
   | c # t \<Rightarrow> if c = CHR 0x2D then (True, t) else if c = CHR 0x2B then (False, t) else (False, s))"

text \<open>The value, the part of the text that was not read, and whether the value was out of range. Without
  a digit nothing is read. A minus sign negates the value as an unsigned number.\<close>

definition strtoull :: "string \<Rightarrow> u64 \<times> string \<times> bool" where
  "strtoull s =
     (let (neg, t) = sign (dropWhile is_space s); ds = takeWhile is_digit t; rest = dropWhile is_digit t; n = decimal ds
      in if ds = [] then (0, s, False)
         else if 2 ^ 64 \<le> n then (- 1, rest, True)
         else (if neg then - of_nat n else of_nat n, rest, False))"

definition strtoll :: "string \<Rightarrow> int \<times> string \<times> bool" where
  "strtoll s =
     (let (neg, t) = sign (dropWhile is_space s); ds = takeWhile is_digit t; rest = dropWhile is_digit t;
          n = (if neg then - int (decimal ds) else int (decimal ds))
      in if ds = [] then (0, s, False)
         else if n < - (2 ^ 63) then (- (2 ^ 63), rest, True)
         else if 2 ^ 63 \<le> n then (2 ^ 63 - 1, rest, True)
         else (n, rest, False))"

section \<open>Checked conversions\<close>

text \<open>A program that ends early: with an exit status and a message, or on an exception that nothing catches.\<close>

datatype exit = Exit int string | Uncaught string

text \<open>\<open>parseU64\<close> of the engine's program; the other programs also refuse a leading minus sign.\<close>

definition parseU64_unsigned :: "string \<Rightarrow> string \<Rightarrow> exit + u64" where
  "parseU64_unsigned value flag =
     (let (parsed, rest, range_error) = strtoull value in
      if range_error \<or> rest = value \<or> rest \<noteq> []
      then Inl (Exit 1 (''invalid numeric value for '' @ flag @ '': '' @ value)) else Inr parsed)"

definition parseU64 :: "string \<Rightarrow> string \<Rightarrow> exit + u64" where
  "parseU64 value flag =
     (let (parsed, rest, range_error) = strtoull value in
      if range_error \<or> rest = value \<or> rest \<noteq> [] \<or> take 1 value = ''-''
      then Inl (Exit 1 (''invalid numeric value for '' @ flag @ '': '' @ value)) else Inr parsed)"

definition parseI64 :: "string \<Rightarrow> string \<Rightarrow> exit + int" where
  "parseI64 value flag =
     (let (parsed, rest, range_error) = strtoll value in
      if range_error \<or> rest = value \<or> rest \<noteq> []
      then Inl (Exit 1 (''invalid numeric value for '' @ flag @ '': '' @ value)) else Inr parsed)"

text \<open>\<open>std::stoul\<close> reads a number at the start of the text; without one, or when it is too large, it throws, and
  nothing catches the exception.\<close>

definition stoul :: "string \<Rightarrow> exit + u64" where
  "stoul s = (let (n, rest, range_error) = strtoull s in
     if rest = s then Inl (Uncaught ''std::invalid_argument'')
     else if range_error then Inl (Uncaught ''std::out_of_range'') else Inr n)"

section \<open>The loop over the arguments\<close>

text \<open>A step gets an argument and the one after it, if there is one, and says whether it used that one too.\<close>

function parse_loop :: "(string \<Rightarrow> string option \<Rightarrow> 'a \<Rightarrow> exit + (bool \<times> 'a)) \<Rightarrow> string list \<Rightarrow> 'a \<Rightarrow> exit + 'a" where
  "parse_loop step [] args = Inr args"
| "parse_loop step (flag # rest) args =
     (case step flag (case rest of [] \<Rightarrow> None | v # _ \<Rightarrow> Some v) args of
        Inl e \<Rightarrow> Inl e
      | Inr (used, args') \<Rightarrow> parse_loop step (if used then tl rest else rest) args')"
  by pat_completeness auto
termination by (relation "measure (\<lambda>(step, xs, args). length xs)") auto

definition with_value :: "string \<Rightarrow> string option \<Rightarrow> (string \<Rightarrow> exit + 'a) \<Rightarrow> exit + (bool \<times> 'a)" where
  "with_value flag next f = (case next of
     None \<Rightarrow> Inl (Exit 1 (''missing value for '' @ flag))
   | Some v \<Rightarrow> map_sum id (Pair True) (f v))"

definition without_value :: "'a \<Rightarrow> exit + (bool \<times> 'a)" where
  "without_value args = Inr (False, args)"

definition unknown_argument :: "string \<Rightarrow> exit + 'a" where
  "unknown_argument flag = Inl (Exit 1 (''unknown argument: '' @ flag))"

section \<open>Printed numbers are read back\<close>

fun print_nat :: "nat \<Rightarrow> string" where
  "print_nat n = (if n < 10 then [char_of (48 + n)] else print_nat (n div 10) @ [char_of (48 + n mod 10)])"

declare print_nat.simps [simp del]

definition print_int :: "int \<Rightarrow> string" where
  "print_int i = (if i < 0 then CHR 0x2D # print_nat (nat (- i)) else print_nat (nat i))"

lemma char_code_digit: "d < 10 \<Longrightarrow> char_code (char_of (48 + d)) = 48 + d"
  by (simp add: char_code_def)

lemma print_nat_digits: "print_nat n \<noteq> [] \<and> (\<forall>c \<in> set (print_nat n). is_digit c) \<and> decimal (print_nat n) = n"
proof (induction n rule: print_nat.induct)
  case (1 n)
  show ?case
  proof (cases "n < 10")
    case True
    then show ?thesis by (simp add: print_nat.simps [of n] is_digit_def decimal_def char_code_digit)
  next
    case False
    have "n mod 10 < 10" by simp
    note d = char_code_digit [OF this]
    have p: "print_nat n = print_nat (n div 10) @ [char_of (48 + n mod 10)]"
      using False by (simp add: print_nat.simps [of n])
    from "1.IH" [OF False] d show ?thesis by (auto simp: p is_digit_def decimal_def)
  qed
qed

lemma not_space_digit: "is_digit c \<Longrightarrow> \<not> is_space c"
  by (auto simp: is_digit_def is_space_def)

lemma digit_not_sign: "is_digit c \<Longrightarrow> c \<noteq> CHR 0x2D \<and> c \<noteq> CHR 0x2B"
  by (auto simp: is_digit_def char_code_def)

lemma scan_nat:
  "dropWhile is_space (print_nat n) = print_nat n" "sign (print_nat n) = (False, print_nat n)"
  "takeWhile is_digit (print_nat n) = print_nat n" "dropWhile is_digit (print_nat n) = []" "take 1 (print_nat n) \<noteq> ''-''"
proof -
  obtain c t where p: "print_nat n = c # t" and c: "is_digit c" "\<forall>c \<in> set t. is_digit c"
    using print_nat_digits [of n] by (cases "print_nat n") auto
  then show "dropWhile is_space (print_nat n) = print_nat n" "sign (print_nat n) = (False, print_nat n)"
    "takeWhile is_digit (print_nat n) = print_nat n" "dropWhile is_digit (print_nat n) = []" "take 1 (print_nat n) \<noteq> ''-''"
    using not_space_digit [OF c(1)] digit_not_sign [OF c(1)] by (simp_all add: sign_def)
qed

lemma scan_minus:
  "\<not> is_space (CHR 0x2D)" "dropWhile is_space (CHR 0x2D # t) = CHR 0x2D # t" "sign (CHR 0x2D # t) = (True, t)"
  by (simp_all add: sign_def is_space_def char_code_def)

lemmas printed = print_nat_digits [THEN conjunct1] print_nat_digits [THEN conjunct2, THEN conjunct2]

lemma strtoull_print: "n < 2 ^ 64 \<Longrightarrow> strtoull (print_nat n) = (of_nat n, [], False)"
  by (simp add: strtoull_def scan_nat printed Let_def)

lemma strtoll_print:
  assumes "is_i64 i"
  shows "strtoll (print_int i) = (i, [], False)"
  using assms by (auto simp: strtoll_def print_int_def scan_nat scan_minus printed is_i64_def Let_def)

lemma print_nonempty: "print_nat n \<noteq> []" "print_int i \<noteq> []" "[] \<noteq> print_nat n" "[] \<noteq> print_int i"
  using print_nat_digits by (auto simp: print_int_def) metis+

lemma parse_printed:
  "n < 2 ^ 64 \<Longrightarrow> parseU64 (print_nat n) flag = Inr (of_nat n)"
  "n < 2 ^ 64 \<Longrightarrow> parseU64_unsigned (print_nat n) flag = Inr (of_nat n)"
  "is_i64 i \<Longrightarrow> parseI64 (print_int i) flag = Inr i"
  using scan_nat(5) [of n]
  by (simp_all add: parseU64_def parseU64_unsigned_def parseI64_def strtoull_print strtoll_print print_nonempty)

lemma parse_printed_word: "parseU64 (print_nat (unat w)) flag = Inr w" "parseU64_unsigned (print_nat (unat w)) flag = Inr w"
  using parse_printed(1,2) [of "unat w" flag] unat_u64_less [of w] by simp_all

text \<open>A value that is accepted is in range; the checked conversion never turns a negative number into a large one.\<close>

lemma strtoll_range: "strtoll s = (v, rest, False) \<Longrightarrow> is_i64 v"
  by (auto simp: strtoll_def is_i64_def Let_def split: prod.splits if_splits)

lemma parseI64_range: "parseI64 s flag = Inr v \<Longrightarrow> is_i64 v"
  by (auto simp: parseI64_def Let_def split: prod.splits if_splits dest: strtoll_range)

text \<open>The engine's conversion takes \<open>-1\<close> for the largest number.\<close>

lemma unsigned_minus_one:
  "parseU64_unsigned ''-1'' flag = Inr 0xFFFFFFFFFFFFFFFF" "\<exists>m. parseU64 ''-1'' flag = Inl (Exit 1 m)"
  by (simp_all add: parseU64_unsigned_def parseU64_def strtoull_def sign_def is_space_def is_digit_def char_code_def decimal_def)

section \<open>Options one after the other\<close>

text \<open>A piece of a command line that does one thing to the settings, whatever follows it.\<close>

definition sets :: "(string \<Rightarrow> string option \<Rightarrow> 'a \<Rightarrow> exit + (bool \<times> 'a)) \<Rightarrow> string list \<Rightarrow> ('a \<Rightarrow> 'a) \<Rightarrow> bool" where
  "sets step piece f \<longleftrightarrow> (\<forall>rest args. parse_loop step (piece @ rest) args = parse_loop step rest (f args))"

lemma sets_pieces:
  assumes "list_all2 (sets step) pieces fs"
  shows "parse_loop step (concat pieces) args = Inr (fold (\<lambda>f a. f a) fs args)"
  using assms by (induction arbitrary: args rule: list_all2_induct) (simp_all add: sets_def)

lemma sets_value: "(\<And>args. step flag (Some v) args = Inr (True, f args)) \<Longrightarrow> sets step [flag, v] f"
  by (simp add: sets_def)

lemma sets_flag: "(\<And>next args. step flag next args = Inr (False, f args)) \<Longrightarrow> sets step [flag] f"
  by (simp add: sets_def)

lemma sets_nothing: "sets step [] (\<lambda>a. a)"
  by (simp add: sets_def)

end
