(* ===== verification/App_Args.thy ===== *)
theory App_Args
  imports Cli Engine_Process
begin

text \<open>
  The command lines of the programs, one parser each, and what they promise: the settings they accept
  are valid, every valid setting can be given, and the recovery inspector reads the limits the engine
  was started with.
\<close>

section \<open>Risk limits\<close>

text \<open>The five options for the limits, the same in the engine's program and in the inspector up to the
  conversion of unsigned numbers; \<open>None\<close> for any other option.\<close>

definition risk_arg ::
  "(string \<Rightarrow> string \<Rightarrow> exit + u64) \<Rightarrow> string \<Rightarrow> string option \<Rightarrow> RiskLimits \<Rightarrow> (exit + (bool \<times> RiskLimits)) option" where
  "risk_arg parse flag next l =
     (if flag = ''--max-order-qty'' then
        Some (with_value flag next (\<lambda>v. case parse v flag of
          Inl e \<Rightarrow> Inl e
        | Inr n \<Rightarrow> if 0xFFFFFFFF < n then Inl (Exit 1 ''--max-order-qty exceeds uint32 range'')
            else Inr (l\<lparr>max_order_quantity := ucast n\<rparr>)))
      else if flag = ''--min-price'' then
        Some (with_value flag next (\<lambda>v. map_sum id (\<lambda>p. l\<lparr>min_limit_price := p\<rparr>) (parseI64 v flag)))
      else if flag = ''--max-price'' then
        Some (with_value flag next (\<lambda>v. map_sum id (\<lambda>p. l\<lparr>max_limit_price := p\<rparr>) (parseI64 v flag)))
      else if flag = ''--max-notional'' then
        Some (with_value flag next (\<lambda>v. map_sum id (\<lambda>n. l\<lparr>max_order_notional := n\<rparr>) (parse v flag)))
      else if flag = ''--max-active-orders'' then
        Some (with_value flag next (\<lambda>v. map_sum id (\<lambda>n. l\<lparr>max_active_orders := n\<rparr>) (parse v flag)))
      else None)"

section \<open>The engine's program\<close>

definition default_engine_args :: EngineArgs where
  "default_engine_args = \<lparr>ea_path = ''/tmp/lob_shared_memory.dat'', ea_idle_exit_ms = 2000, ea_journal_path = '''',
     ea_recover = False, ea_sync_journal = False, ea_risk_limits = default_limits\<rparr>"

text \<open>A conversion to \<open>int\<close> keeps the low 32 bits.\<close>

definition to_int :: "int \<Rightarrow> int" where
  "to_int i = sint (of_int i :: u32)"

definition engine_arg :: "string \<Rightarrow> string option \<Rightarrow> EngineArgs \<Rightarrow> exit + (bool \<times> EngineArgs)" where
  "engine_arg flag next args =
     (if flag = ''--path'' then with_value flag next (\<lambda>v. Inr (args\<lparr>ea_path := v\<rparr>))
      else if flag = ''--idle-exit-ms'' then
        with_value flag next (\<lambda>v. map_sum id (\<lambda>i. args\<lparr>ea_idle_exit_ms := to_int i\<rparr>) (parseI64 v flag))
      else if flag = ''--journal'' then with_value flag next (\<lambda>v. Inr (args\<lparr>ea_journal_path := v\<rparr>))
      else if flag = ''--recover'' then without_value (args\<lparr>ea_recover := True\<rparr>)
      else if flag = ''--sync-journal'' then without_value (args\<lparr>ea_sync_journal := True\<rparr>)
      else case risk_arg parseU64_unsigned flag next (ea_risk_limits args) of
          Some r \<Rightarrow> map_sum id (map_prod id (\<lambda>l. args\<lparr>ea_risk_limits := l\<rparr>)) r
        | None \<Rightarrow> unknown_argument flag)"

definition parseArgs_engine :: "string list \<Rightarrow> exit + EngineArgs" where
  "parseArgs_engine argv = (case parse_loop engine_arg argv default_engine_args of
     Inl e \<Rightarrow> Inl e
   | Inr args \<Rightarrow>
       if ea_recover args \<and> ea_journal_path args = '''' then Inl (Exit 1 ''--recover requires --journal PATH'')
       else if max_limit_price (ea_risk_limits args) < min_limit_price (ea_risk_limits args)
       then Inl (Exit 1 ''min price cannot exceed max price'')
       else Inr args)"

section \<open>The recovery inspector\<close>

record ReplayArgs =
  ra_journal_path :: string
  ra_depth :: u64
  ra_risk_limits :: RiskLimits

definition default_replay_args :: ReplayArgs where
  "default_replay_args = \<lparr>ra_journal_path = '''', ra_depth = 10, ra_risk_limits = default_limits\<rparr>"

definition replay_usage :: string where
  "replay_usage = ''Usage: journal_replay_main --journal PATH [--depth N]'' @ [CHR 0x0A] @
     ''       [--max-order-qty N] [--min-price N] [--max-price N]'' @ [CHR 0x0A] @
     ''       [--max-notional N] [--max-active-orders N]''"

definition replay_arg :: "string \<Rightarrow> string option \<Rightarrow> ReplayArgs \<Rightarrow> exit + (bool \<times> ReplayArgs)" where
  "replay_arg flag next args =
     (if flag = ''--journal'' then with_value flag next (\<lambda>v. Inr (args\<lparr>ra_journal_path := v\<rparr>))
      else if flag = ''--depth'' then
        with_value flag next (\<lambda>v. map_sum id (\<lambda>n. args\<lparr>ra_depth := n\<rparr>) (parseU64 v flag))
      else case risk_arg parseU64 flag next (ra_risk_limits args) of
          Some r \<Rightarrow> map_sum id (map_prod id (\<lambda>l. args\<lparr>ra_risk_limits := l\<rparr>)) r
        | None \<Rightarrow>
            if flag = ''--help'' then Inl (Exit 0 replay_usage)
            else if flag \<noteq> '''' \<and> hd flag \<noteq> CHR 0x2D \<and> ra_journal_path args = ''''
            then without_value (args\<lparr>ra_journal_path := flag\<rparr>)
            else unknown_argument flag)"

definition parseArgs_replay :: "string list \<Rightarrow> exit + ReplayArgs" where
  "parseArgs_replay argv = (case parse_loop replay_arg argv default_replay_args of
     Inl e \<Rightarrow> Inl e
   | Inr args \<Rightarrow>
       if ra_journal_path args = '''' then Inl (Exit 1 ''journal path is required (use --journal PATH)'')
       else if max_limit_price (ra_risk_limits args) < min_limit_price (ra_risk_limits args)
       then Inl (Exit 1 ''min price cannot exceed max price'')
       else Inr args)"

section \<open>The program of the partitioned engine\<close>

record PartitionedArgs =
  pa_producers :: u64
  pa_shards :: u64
  pa_orders_per_producer :: u64
  pa_queue_capacity :: u64
  pa_seed :: u64
  pa_advanced_orders :: bool

definition default_partitioned_args :: PartitionedArgs where
  "default_partitioned_args = \<lparr>pa_producers = 4, pa_shards = 4, pa_orders_per_producer = 100000,
     pa_queue_capacity = 4096, pa_seed = 42, pa_advanced_orders = False\<rparr>"

definition partitioned_usage :: string where
  "partitioned_usage = ''Usage: partitioned_matching_main [--producers N] [--shards N]'' @ [CHR 0x0A] @
     ''       [--orders-per-producer N] [--queue-capacity N]'' @ [CHR 0x0A] @
     ''       [--seed N] [--advanced-orders]''"

definition parseU64_partitioned :: "string \<Rightarrow> string \<Rightarrow> exit + u64" where
  "parseU64_partitioned txt flag =
     (let (value, rest, range_error) = strtoull txt in
      if range_error \<or> rest = txt \<or> rest \<noteq> [] \<or> take 1 txt = ''-''
      then Inl (Exit 1 (''invalid value for '' @ flag @ '': '' @ txt)) else Inr value)"

text \<open>A \<open>size_t\<close> has 64 bits: the check in \<open>parseSize\<close> never fails.\<close>

definition parseSize :: "string \<Rightarrow> string \<Rightarrow> exit + u64" where
  "parseSize txt flag = (case parseU64_partitioned txt flag of
     Inl e \<Rightarrow> Inl e
   | Inr value \<Rightarrow> if 0xFFFFFFFFFFFFFFFF < value then Inl (Exit 1 (''value for '' @ flag @ '' exceeds size_t'')) else Inr value)"

definition partitioned_arg :: "string \<Rightarrow> string option \<Rightarrow> PartitionedArgs \<Rightarrow> exit + (bool \<times> PartitionedArgs)" where
  "partitioned_arg flag next args =
     (if flag = ''--producers'' then with_value flag next (\<lambda>v. map_sum id (\<lambda>n. args\<lparr>pa_producers := n\<rparr>) (parseSize v flag))
      else if flag = ''--shards'' then with_value flag next (\<lambda>v. map_sum id (\<lambda>n. args\<lparr>pa_shards := n\<rparr>) (parseSize v flag))
      else if flag = ''--orders-per-producer'' then
        with_value flag next (\<lambda>v. map_sum id (\<lambda>n. args\<lparr>pa_orders_per_producer := n\<rparr>) (parseSize v flag))
      else if flag = ''--queue-capacity'' then
        with_value flag next (\<lambda>v. map_sum id (\<lambda>n. args\<lparr>pa_queue_capacity := n\<rparr>) (parseSize v flag))
      else if flag = ''--seed'' then with_value flag next (\<lambda>v. map_sum id (\<lambda>n. args\<lparr>pa_seed := n\<rparr>) (parseU64_partitioned v flag))
      else if flag = ''--advanced-orders'' then without_value (args\<lparr>pa_advanced_orders := True\<rparr>)
      else if flag = ''--help'' then Inl (Exit 0 partitioned_usage)
      else unknown_argument flag)"

definition parseArgs_partitioned :: "string list \<Rightarrow> exit + PartitionedArgs" where
  "parseArgs_partitioned argv = (case parse_loop partitioned_arg argv default_partitioned_args of
     Inl e \<Rightarrow> Inl e
   | Inr args \<Rightarrow>
       if pa_producers args = 0 \<or> pa_orders_per_producer args = 0 \<or> pa_queue_capacity args = 0 \<or> pa_shards args = 0 \<or>
          pa_shards args AND (pa_shards args - 1) \<noteq> 0
       then Inl (Exit 1 ''producers/orders/queue must be non-zero and shards must be a non-zero power of two'')
       else if 0xFFFFFFFFFFFFFFFF div pa_producers args < pa_orders_per_producer args
       then Inl (Exit 1 ''total order count overflows uint64_t'')
       else Inr args)"

section \<open>The feed\<close>

record FeedArgs =
  fa_num_orders :: u64
  fa_seed :: u64
  fa_path :: string
  fa_real_data :: bool
  fa_advanced_orders :: bool
  fa_cancel_every :: u64
  fa_data_file :: string
  fa_orders_per_day :: u64

definition default_feed_args :: FeedArgs where
  "default_feed_args = \<lparr>fa_num_orders = 10000, fa_seed = 42, fa_path = ''/tmp/lob_shared_memory.dat'', fa_real_data = False,
     fa_advanced_orders = False, fa_cancel_every = 0, fa_data_file = ''../data/AAPL.csv'', fa_orders_per_day = 40\<rparr>"

definition feed_arg :: "string \<Rightarrow> string option \<Rightarrow> FeedArgs \<Rightarrow> exit + (bool \<times> FeedArgs)" where
  "feed_arg flag next args =
     (if flag = ''--orders'' then with_value flag next (\<lambda>v. map_sum id (\<lambda>n. args\<lparr>fa_num_orders := n\<rparr>) (parseU64 v flag))
      else if flag = ''--seed'' then with_value flag next (\<lambda>v. map_sum id (\<lambda>n. args\<lparr>fa_seed := n\<rparr>) (parseU64 v flag))
      else if flag = ''--path'' then with_value flag next (\<lambda>v. Inr (args\<lparr>fa_path := v\<rparr>))
      else if flag = ''--real-data'' then without_value (args\<lparr>fa_real_data := True\<rparr>)
      else if flag = ''--advanced-orders'' then without_value (args\<lparr>fa_advanced_orders := True\<rparr>)
      else if flag = ''--cancel-every'' then
        with_value flag next (\<lambda>v. map_sum id (\<lambda>n. args\<lparr>fa_cancel_every := n\<rparr>) (parseU64 v flag))
      else if flag = ''--data-file'' then with_value flag next (\<lambda>v. Inr (args\<lparr>fa_data_file := v\<rparr>))
      else if flag = ''--orders-per-day'' then
        with_value flag next (\<lambda>v. map_sum id (\<lambda>n. args\<lparr>fa_orders_per_day := n\<rparr>) (parseU64 v flag))
      else unknown_argument flag)"

definition parseArgs_feed :: "string list \<Rightarrow> exit + FeedArgs" where
  "parseArgs_feed argv = (case parse_loop feed_arg argv default_feed_args of
     Inl e \<Rightarrow> Inl e
   | Inr args \<Rightarrow>
       if fa_real_data args \<and> fa_advanced_orders args
       then Inl (Exit 1 ''--advanced-orders is a synthetic stress mode and cannot be combined with --real-data'')
       else if fa_orders_per_day args = 0 then Inl (Exit 1 ''--orders-per-day must be greater than zero'')
       else Inr args)"

section \<open>The viewer and the clean-up\<close>

record ViewerArgs =
  va_path :: string
  va_quiet :: bool

definition viewer_arg :: "string \<Rightarrow> string option \<Rightarrow> ViewerArgs \<Rightarrow> exit + (bool \<times> ViewerArgs)" where
  "viewer_arg arg next args =
     (if arg = ''--path'' \<and> next \<noteq> None then Inr (True, args\<lparr>va_path := the next\<rparr>)
      else if arg = ''--quiet'' then without_value (args\<lparr>va_quiet := True\<rparr>)
      else unknown_argument arg)"

definition viewer_args :: "string list \<Rightarrow> exit + ViewerArgs" where
  "viewer_args argv = parse_loop viewer_arg argv \<lparr>va_path = ''/tmp/lob_shared_memory.dat'', va_quiet = False\<rparr>"

text \<open>The clean-up ignores what it does not know.\<close>

definition cleanup_arg :: "string \<Rightarrow> string option \<Rightarrow> string \<Rightarrow> exit + (bool \<times> string)" where
  "cleanup_arg a next path =
     (if a = ''--path'' \<and> next \<noteq> None then Inr (True, the next) else without_value path)"

definition cleanup_path :: "string list \<Rightarrow> exit + string" where
  "cleanup_path argv = parse_loop cleanup_arg argv ''/tmp/lob_shared_memory.dat''"

section \<open>The program of the sharded engine\<close>

record MpmcArgs =
  ma_producers :: u64
  ma_consumers :: u64
  ma_orders_per_producer :: u64
  ma_queue_capacity :: u64

definition mpmc_value :: "string option \<Rightarrow> MpmcArgs \<Rightarrow> (u64 \<Rightarrow> MpmcArgs) \<Rightarrow> exit + (bool \<times> MpmcArgs)" where
  "mpmc_value next args set_field = (case next of
     None \<Rightarrow> without_value args
   | Some v \<Rightarrow> map_sum id (\<lambda>n. (True, set_field n)) (stoul v))"

definition mpmc_arg :: "string \<Rightarrow> string option \<Rightarrow> MpmcArgs \<Rightarrow> exit + (bool \<times> MpmcArgs)" where
  "mpmc_arg flag next a =
     (if flag = ''--producers'' then mpmc_value next a (\<lambda>n. a\<lparr>ma_producers := n\<rparr>)
      else if flag = ''--consumers'' then mpmc_value next a (\<lambda>n. a\<lparr>ma_consumers := n\<rparr>)
      else if flag = ''--orders-per-producer'' then mpmc_value next a (\<lambda>n. a\<lparr>ma_orders_per_producer := n\<rparr>)
      else if flag = ''--queue-capacity'' then mpmc_value next a (\<lambda>n. a\<lparr>ma_queue_capacity := n\<rparr>)
      else without_value a)"

definition parseArgs_mpmc :: "string list \<Rightarrow> exit + MpmcArgs" where
  "parseArgs_mpmc argv = parse_loop mpmc_arg argv
     \<lparr>ma_producers = 4, ma_consumers = 4, ma_orders_per_producer = 20000, ma_queue_capacity = 4096\<rparr>"

section \<open>What the engine's command line accepts\<close>

text \<open>The settings the program can run with.\<close>

definition limits_valid :: "RiskLimits \<Rightarrow> bool" where
  "limits_valid l \<longleftrightarrow> is_i64 (min_limit_price l) \<and> is_i64 (max_limit_price l) \<and> min_limit_price l \<le> max_limit_price l"

definition args_valid :: "EngineArgs \<Rightarrow> bool" where
  "args_valid a \<longleftrightarrow> limits_valid (ea_risk_limits a) \<and> (ea_recover a \<longrightarrow> ea_journal_path a \<noteq> '''') \<and>
     - (2 ^ 31) \<le> ea_idle_exit_ms a \<and> ea_idle_exit_ms a < 2 ^ 31"

text \<open>The command line for given settings.\<close>

definition limits_line :: "RiskLimits \<Rightarrow> string list list" where
  "limits_line l = [[''--max-order-qty'', print_nat (unat (max_order_quantity l))],
     [''--min-price'', print_int (min_limit_price l)], [''--max-price'', print_int (max_limit_price l)],
     [''--max-notional'', print_nat (unat (max_order_notional l))],
     [''--max-active-orders'', print_nat (unat (max_active_orders l))]]"

definition engine_line :: "EngineArgs \<Rightarrow> string list" where
  "engine_line a = concat ([[''--path'', ea_path a], [''--idle-exit-ms'', print_int (ea_idle_exit_ms a)],
     [''--journal'', ea_journal_path a], if ea_recover a then [''--recover''] else [],
     if ea_sync_journal a then [''--sync-journal''] else []] @ limits_line (ea_risk_limits a))"

lemma to_int_id: "- (2 ^ 31) \<le> i \<Longrightarrow> i < 2 ^ 31 \<Longrightarrow> to_int i = i"
  by (simp add: to_int_def signed_of_int signed_take_bit_int_eq_self)

lemma to_int_range: "- (2 ^ 31) \<le> to_int i \<and> to_int i < 2 ^ 31"
  using sint_greater_eq [of "of_int i :: u32"] sint_less [of "of_int i :: u32"] by (simp add: to_int_def)

lemma quantity_in_range: "\<not> 0xFFFFFFFF < (of_nat (unat (q :: u32)) :: u64) \<and> ucast (of_nat (unat q) :: u64) = q"
proof -
  have q: "unat q < 4294967296" using unsigned_less [of q, where 'a = nat] by simp
  then have u: "unat (of_nat (unat q) :: u64) = unat q" by (simp add: unsigned_of_nat take_bit_nat_eq_self)
  have n: "unat (0xFFFFFFFF :: u64) = 4294967295" by simp
  have "\<not> 0xFFFFFFFF < (of_nat (unat q) :: u64)" unfolding word_less_nat_alt u n using q by linarith
  moreover have "unat (ucast (of_nat (unat q) :: u64) :: u32) = unat q"
    using q by (simp only: unsigned_ucast_eq u unsigned_take_bit_eq) (simp add: take_bit_nat_eq_self_iff)
  ultimately show ?thesis by (metis unsigned_word_eqI)
qed

lemma print_quantity: "unat (q :: u32) < 2 ^ 64"
  by (rule less_trans [OF unsigned_less [of q]]) simp

text \<open>Each option of the line sets its field.\<close>

lemma risk_arg_line:
  assumes "limits_valid l" and "\<And>flag w. parse (print_nat w) flag = (if w < 2 ^ 64 then Inr (of_nat w) else e flag w)"
  shows "risk_arg parse ''--max-order-qty'' (Some (print_nat (unat (max_order_quantity l)))) k =
      Some (Inr (True, k\<lparr>max_order_quantity := max_order_quantity l\<rparr>))"
    "risk_arg parse ''--min-price'' (Some (print_int (min_limit_price l))) k =
      Some (Inr (True, k\<lparr>min_limit_price := min_limit_price l\<rparr>))"
    "risk_arg parse ''--max-price'' (Some (print_int (max_limit_price l))) k =
      Some (Inr (True, k\<lparr>max_limit_price := max_limit_price l\<rparr>))"
    "risk_arg parse ''--max-notional'' (Some (print_nat (unat (max_order_notional l)))) k =
      Some (Inr (True, k\<lparr>max_order_notional := max_order_notional l\<rparr>))"
    "risk_arg parse ''--max-active-orders'' (Some (print_nat (unat (max_active_orders l)))) k =
      Some (Inr (True, k\<lparr>max_active_orders := max_active_orders l\<rparr>))"
  using assms print_quantity [of "max_order_quantity l"] quantity_in_range [of "max_order_quantity l"]
    unat_u64_less [of "max_order_notional l"] unat_u64_less [of "max_active_orders l"]
  by (simp_all add: risk_arg_def with_value_def limits_valid_def parse_printed)

lemma engine_line_sets:
  assumes "args_valid a"
  shows "list_all2 (sets engine_arg) ([[''--path'', ea_path a], [''--idle-exit-ms'', print_int (ea_idle_exit_ms a)],
     [''--journal'', ea_journal_path a], if ea_recover a then [''--recover''] else [],
     if ea_sync_journal a then [''--sync-journal''] else []] @ limits_line (ea_risk_limits a))
   [\<lambda>b. b\<lparr>ea_path := ea_path a\<rparr>, \<lambda>b. b\<lparr>ea_idle_exit_ms := ea_idle_exit_ms a\<rparr>,
    \<lambda>b. b\<lparr>ea_journal_path := ea_journal_path a\<rparr>, \<lambda>b. b\<lparr>ea_recover := ea_recover a \<or> ea_recover b\<rparr>,
    \<lambda>b. b\<lparr>ea_sync_journal := ea_sync_journal a \<or> ea_sync_journal b\<rparr>,
    \<lambda>b. b\<lparr>ea_risk_limits := (ea_risk_limits b)\<lparr>max_order_quantity := max_order_quantity (ea_risk_limits a)\<rparr>\<rparr>,
    \<lambda>b. b\<lparr>ea_risk_limits := (ea_risk_limits b)\<lparr>min_limit_price := min_limit_price (ea_risk_limits a)\<rparr>\<rparr>,
    \<lambda>b. b\<lparr>ea_risk_limits := (ea_risk_limits b)\<lparr>max_limit_price := max_limit_price (ea_risk_limits a)\<rparr>\<rparr>,
    \<lambda>b. b\<lparr>ea_risk_limits := (ea_risk_limits b)\<lparr>max_order_notional := max_order_notional (ea_risk_limits a)\<rparr>\<rparr>,
    \<lambda>b. b\<lparr>ea_risk_limits := (ea_risk_limits b)\<lparr>max_active_orders := max_active_orders (ea_risk_limits a)\<rparr>\<rparr>]"
proof -
  have l: "limits_valid (ea_risk_limits a)" and i: "- (2 ^ 31) \<le> ea_idle_exit_ms a" "ea_idle_exit_ms a < 2 ^ 31"
    using assms by (simp_all add: args_valid_def)
  from i have i64: "is_i64 (ea_idle_exit_ms a)" by (simp add: is_i64_def)
  note risk = risk_arg_line [OF l, of parseU64_unsigned "\<lambda>flag w. parseU64_unsigned (print_nat w) flag"]
  have "sets engine_arg [''--recover''] (\<lambda>b. b\<lparr>ea_recover := True\<rparr>)" "sets engine_arg [''--sync-journal''] (\<lambda>b. b\<lparr>ea_sync_journal := True\<rparr>)"
    by (rule sets_flag, simp add: engine_arg_def without_value_def)+
  moreover have "sets engine_arg [] (\<lambda>b. b\<lparr>ea_recover := ea_recover b\<rparr>)" "sets engine_arg [] (\<lambda>b. b\<lparr>ea_sync_journal := ea_sync_journal b\<rparr>)"
    by (simp_all add: sets_def)
  ultimately show ?thesis
    by (auto simp: limits_line_def engine_arg_def with_value_def risk risk_arg_def [of _ "''--path''"] parse_printed i64 to_int_id [OF i]
        intro!: sets_value)
qed

lemma parse_loop_invariant:
  assumes "\<And>flag next a b used. P a \<Longrightarrow> step flag next a = Inr (used, b) \<Longrightarrow> P b"
  shows "parse_loop step argv a = Inr b \<Longrightarrow> P a \<Longrightarrow> P b"
proof (induction argv arbitrary: a rule: length_induct)
  case (1 argv)
  show ?case
  proof (cases argv)
    case Nil
    then show ?thesis using 1 by simp
  next
    case (Cons flag rest)
    with 1(2) obtain used a' where s: "step flag (case rest of [] \<Rightarrow> None | v # _ \<Rightarrow> Some v) a = Inr (used, a')"
      and l: "parse_loop step (if used then tl rest else rest) a' = Inr b" by (auto split: sum.splits)
    have "length (if used then tl rest else rest) < length argv" using Cons by auto
    then show ?thesis using 1 l assms [OF _ s] by blast
  qed
qed

lemma with_value_Inr: "with_value flag next f = Inr (used, b) \<Longrightarrow> \<exists>v. next = Some v \<and> f v = Inr b"
  by (auto simp: with_value_def split: option.splits) (metis Inr_inject map_sum.simps(2) obj_sumE sum.simps(4) prod.inject map_sum.simps(1))

definition prices_ok :: "RiskLimits \<Rightarrow> bool" where
  "prices_ok l \<longleftrightarrow> is_i64 (min_limit_price l) \<and> is_i64 (max_limit_price l)"

lemma map_sum_Inr: "map_sum id f x = Inr b \<longleftrightarrow> (\<exists>y. x = Inr y \<and> b = f y)"
  by (cases x) auto

lemma risk_arg_prices:
  assumes "prices_ok l" and "risk_arg parse flag next l = Some (Inr (used, k))"
  shows "prices_ok k"
  using assms
  by (auto simp: risk_arg_def prices_ok_def map_sum_Inr dest!: with_value_Inr parseI64_range split: if_splits sum.splits)

lemma engine_arg_keeps:
  assumes "prices_ok (ea_risk_limits a) \<and> - (2 ^ 31) \<le> ea_idle_exit_ms a \<and> ea_idle_exit_ms a < 2 ^ 31"
    and "engine_arg flag next a = Inr (used, b)"
  shows "prices_ok (ea_risk_limits b) \<and> - (2 ^ 31) \<le> ea_idle_exit_ms b \<and> ea_idle_exit_ms b < 2 ^ 31"
proof (cases "flag \<in> {''--path'', ''--idle-exit-ms'', ''--journal'', ''--recover'', ''--sync-journal''}")
  case True
  then show ?thesis using assms to_int_range
    by (auto simp: engine_arg_def without_value_def map_sum_Inr dest!: with_value_Inr split: if_splits)
next
  case False
  then show ?thesis using assms risk_arg_prices [of "ea_risk_limits a"]
    by (auto simp: engine_arg_def unknown_argument_def map_sum_Inr split: option.splits)
qed

text \<open>The engine's command line is exact: the settings it accepts are valid (price limits of 64 bits in the right
  order, an idle time of 32 bits, a journal to recover from), and every valid setting has a command line that
  gives it.\<close>

theorem engine_args_exact:
  "((\<exists>argv. parseArgs_engine argv = Inr a) \<longleftrightarrow> args_valid a) \<and> (parseArgs_engine (engine_line a) = Inr a \<longleftrightarrow> args_valid a)"
proof -
  have valid: "args_valid a" if "parseArgs_engine argv = Inr a" for argv
  proof -
    from that have loop: "parse_loop engine_arg argv default_engine_args = Inr a"
      and checks: "ea_recover a \<longrightarrow> ea_journal_path a \<noteq> ''''" "min_limit_price (ea_risk_limits a) \<le> max_limit_price (ea_risk_limits a)"
      by (auto simp: parseArgs_engine_def split: sum.splits if_splits)
    have "prices_ok (ea_risk_limits a) \<and> - (2 ^ 31) \<le> ea_idle_exit_ms a \<and> ea_idle_exit_ms a < 2 ^ 31"
      by (rule parse_loop_invariant [OF engine_arg_keeps loop])
        (simp_all add: default_engine_args_def default_limits_def prices_ok_def is_i64_def)
    with checks show ?thesis by (simp add: args_valid_def limits_valid_def prices_ok_def)
  qed
  have line: "parseArgs_engine (engine_line a) = Inr a" if "args_valid a"
    using that sets_pieces [OF engine_line_sets [OF that], of default_engine_args]
    by (simp add: parseArgs_engine_def engine_line_def args_valid_def limits_valid_def default_engine_args_def)
  from valid line show ?thesis by blast
qed

text \<open>The inspector, given the limits of the engine, reads these limits.\<close>

lemma replay_line_limits:
  assumes "limits_valid l" and "path \<noteq> ''''"
  shows "parseArgs_replay ([''--journal'', path] @ concat (limits_line l)) =
    Inr \<lparr>ra_journal_path = path, ra_depth = 10, ra_risk_limits = l\<rparr>"
proof -
  note risk = risk_arg_line [OF assms(1), of parseU64 "\<lambda>flag w. parseU64 (print_nat w) flag"]
  have "list_all2 (sets replay_arg) ([[''--journal'', path]] @ limits_line l)
     [\<lambda>b. b\<lparr>ra_journal_path := path\<rparr>,
      \<lambda>b. b\<lparr>ra_risk_limits := (ra_risk_limits b)\<lparr>max_order_quantity := max_order_quantity l\<rparr>\<rparr>,
      \<lambda>b. b\<lparr>ra_risk_limits := (ra_risk_limits b)\<lparr>min_limit_price := min_limit_price l\<rparr>\<rparr>,
      \<lambda>b. b\<lparr>ra_risk_limits := (ra_risk_limits b)\<lparr>max_limit_price := max_limit_price l\<rparr>\<rparr>,
      \<lambda>b. b\<lparr>ra_risk_limits := (ra_risk_limits b)\<lparr>max_order_notional := max_order_notional l\<rparr>\<rparr>,
      \<lambda>b. b\<lparr>ra_risk_limits := (ra_risk_limits b)\<lparr>max_active_orders := max_active_orders l\<rparr>\<rparr>]"
    by (auto simp: limits_line_def replay_arg_def with_value_def risk parse_printed intro!: sets_value)
  from sets_pieces [OF this, of default_replay_args] assms show ?thesis
    by (simp add: parseArgs_replay_def default_replay_args_def limits_valid_def)
qed

text \<open>A negative number for an unsigned limit starts the engine with the largest limit there is, while the
  inspector refuses the same option.\<close>

theorem negative_limit_accepted:
  "\<exists>a. parseArgs_engine [''--max-notional'', ''-1''] = Inr a \<and> max_order_notional (ea_risk_limits a) = 0xFFFFFFFFFFFFFFFF \<and>
    (\<exists>m. parseArgs_replay [''--journal'', ''j'', ''--max-notional'', ''-1''] = Inl (Exit 1 m))"
proof -
  have "parse_loop engine_arg [''--max-notional'', ''-1''] default_engine_args =
      Inr (default_engine_args\<lparr>ea_risk_limits := default_limits\<lparr>max_order_notional := 0xFFFFFFFFFFFFFFFF\<rparr>\<rparr>)"
    by (simp add: engine_arg_def risk_arg_def with_value_def unsigned_minus_one default_engine_args_def)
  moreover obtain m where "parseU64 ''-1'' ''--max-notional'' = Inl (Exit 1 m)" using unsigned_minus_one(2) by blast
  then have "parse_loop replay_arg [''--journal'', ''j'', ''--max-notional'', ''-1''] default_replay_args = Inl (Exit 1 m)"
    by (simp add: replay_arg_def risk_arg_def with_value_def default_replay_args_def)
  ultimately show ?thesis
    by (simp add: parseArgs_engine_def parseArgs_replay_def default_engine_args_def default_limits_def)
qed

end
