(* ===== verification/Csv_Reader.thy ===== *)
theory Csv_Reader
  imports Cli Doubles
begin

text \<open>
  The reader of daily bars (\<open>include/csv_reader.hpp\<close>): lines and fields as the standard streams give
  them, numbers as \<open>std::stod\<close> and \<open>std::stoull\<close> read them. A result is \<open>None\<close> where the text of a price is
  hexadecimal, an infinity or not a number, for which the model has no value; \<open>Inl\<close> is an exception, which
  the program does not catch.
\<close>

section \<open>Streams\<close>

text \<open>The text that is not yet read, and whether the stream is still good. A stream that is not good leaves
  the target string as it is; one that is good empties it first.\<close>

type_synonym stream = "string \<times> bool"

definition getline :: "char \<Rightarrow> stream \<Rightarrow> string \<Rightarrow> bool \<times> string \<times> stream" where
  "getline delim ss old = (case ss of (t, good) \<Rightarrow>
     if \<not> good then (False, old, ss)
     else if delim \<in> set t then (True, takeWhile (\<lambda>c. c \<noteq> delim) t, tl (dropWhile (\<lambda>c. c \<noteq> delim) t), True)
     else (t \<noteq> [], t, [], False))"

definition newline :: char where "newline = CHR 0x0A"
definition comma :: char where "comma = CHR 0x2C"

lemma getline_shorter:
  assumes "getline delim ss old = (True, line, ss')"
  shows "length (fst ss') < length (fst ss)"
proof (cases "snd ss \<and> delim \<in> set (fst ss)")
  case True
  then obtain c u where u: "dropWhile (\<lambda>c. c \<noteq> delim) (fst ss) = c # u"
    by (cases "dropWhile (\<lambda>c. c \<noteq> delim) (fst ss)") auto
  then have "length (c # u) \<le> length (fst ss)" using length_dropWhile_le [of "\<lambda>c. c \<noteq> delim" "fst ss"] by metis
  with True u show ?thesis using assms by (cases ss) (auto simp: getline_def)
next
  case False
  then show ?thesis using assms by (cases ss) (auto simp: getline_def split: if_splits)
qed

lemma getline_delim:
  "delim \<notin> set t \<Longrightarrow> getline delim (t @ delim # rest, True) old = (True, t, rest, True)"
  by (induction t) (auto simp: getline_def split: if_splits)

section \<open>Numbers\<close>

text \<open>A decimal number: digits with at most one point among them, and a power of ten if it is complete.\<close>

definition exponent :: "string \<Rightarrow> int" where
  "exponent t = (case t of
     [] \<Rightarrow> 0
   | c # u \<Rightarrow>
       if c = CHR 0x65 \<or> c = CHR 0x45 then
         let (neg, v) = sign u; n = int (decimal (takeWhile is_digit v)) in if neg then - n else n
       else 0)"

definition decimal_number :: "string \<Rightarrow> rat option" where
  "decimal_number t =
     (let whole = takeWhile is_digit t; t1 = dropWhile is_digit t;
          (fraction, t2) = (if take 1 t1 = ''.'' then (takeWhile is_digit (tl t1), dropWhile is_digit (tl t1)) else ([], t1));
          x = exponent t2
      in if whole @ fraction = [] then None
         else Some (of_nat (decimal (whole @ fraction)) * 10 ^ nat x / 10 ^ (length fraction + nat (- x))))"

definition lower :: "char \<Rightarrow> char" where
  "lower c = (if 65 \<le> char_code c \<and> char_code c \<le> 90 then char_of (char_code c + 32) else c)"

definition special :: "string \<Rightarrow> bool" where
  "special t \<longleftrightarrow> map lower (take 3 t) = ''inf'' \<or> map lower (take 3 t) = ''nan'' \<or> map lower (take 2 t) = ''0x''"

text \<open>A number is out of range if it rounds to more than the largest double, or to a double below the normal ones
  that is not the number itself.\<close>

definition double_overflow :: rat where "double_overflow = 2 ^ 1024"
definition double_normal :: rat where "double_normal = 1 / 2 ^ 1022"

definition stod :: "string \<Rightarrow> (exit + rat) option" where
  "stod s =
     (let (neg, t) = sign (dropWhile is_space s)
      in if special t then None
         else case decimal_number t of
             None \<Rightarrow> Some (Inl (Uncaught ''std::invalid_argument''))
           | Some x \<Rightarrow>
               let d = double_of x
               in if double_overflow \<le> d \<or> x \<noteq> 0 \<and> d < double_normal \<and> d \<noteq> x
                  then Some (Inl (Uncaught ''std::out_of_range'')) else Some (Inr (if neg then - d else d)))"

section \<open>Bars\<close>

record DailyBar =
  bar_date :: string
  bar_open :: rat
  bar_high :: rat
  bar_low :: rat
  bar_close :: rat
  bar_volume :: u64

definition and_then :: "(exit + 'a) option \<Rightarrow> ('a \<Rightarrow> (exit + 'b) option) \<Rightarrow> (exit + 'b) option" where
  "and_then m f = (case m of None \<Rightarrow> None | Some (Inl e) \<Rightarrow> Some (Inl e) | Some (Inr x) \<Rightarrow> f x)"

text \<open>The next field of a line; the variable it goes to keeps its text when the line has ended.\<close>

definition next_field :: "string \<Rightarrow> stream \<Rightarrow> string \<times> stream" where
  "next_field field ss = snd (getline comma ss field)"

definition parse_bar :: "string \<Rightarrow> (exit + DailyBar) option" where
  "parse_bar line =
     (let (date, ss) = next_field [] (line, True); (f1, ss) = next_field [] ss in
      and_then (stod f1) (\<lambda>x_open. let (f2, ss) = next_field f1 ss in
      and_then (stod f2) (\<lambda>x_high. let (f3, ss) = next_field f2 ss in
      and_then (stod f3) (\<lambda>x_low. let (f4, ss) = next_field f3 ss in
      and_then (stod f4) (\<lambda>x_close. let (f5, ss) = next_field f4 ss in
      and_then (Some (stoul f5)) (\<lambda>v.
        Some (Inr \<lparr>bar_date = date, bar_open = x_open, bar_high = x_high, bar_low = x_low, bar_close = x_close,
          bar_volume = v\<rparr>)))))))"

function load_lines :: "stream \<Rightarrow> DailyBar list \<Rightarrow> (exit + DailyBar list) option" where
  "load_lines f bars = (case getline newline f [] of (ok, line, f') \<Rightarrow>
     if \<not> ok then Some (Inr bars)
     else if line = [] then load_lines f' bars
     else and_then (parse_bar line) (\<lambda>bar. load_lines f' (bars @ [bar])))"
  by pat_completeness auto
termination by (relation "measure (\<lambda>(f, bars). length (fst f))") (auto dest: getline_shorter [OF sym])

declare load_lines.simps [simp del]

text \<open>A file that cannot be opened gives no bars.\<close>

definition loadDailyBars :: "string option \<Rightarrow> (exit + DailyBar list) option" where
  "loadDailyBars file = (case file of
     None \<Rightarrow> Some (Inr [])
   | Some t \<Rightarrow> let (ok, line, f) = getline newline (t, True) [] in load_lines f [])"

section \<open>A printed table is read back\<close>

lemma decimal_append: "decimal (s @ t) = decimal s * 10 ^ length t + decimal t"
proof -
  have "foldl (\<lambda>n c. 10 * n + (char_code c - 48)) m t = m * 10 ^ length t + foldl (\<lambda>n c. 10 * n + (char_code c - 48)) 0 t" for m
  proof (induction t arbitrary: m)
    case (Cons c t)
    show ?case using Cons.IH [of "10 * m + (char_code c - 48)"] Cons.IH [of "char_code c - 48"]
      by (simp add: algebra_simps)
  qed simp
  from this [of "decimal s"] show ?thesis by (simp add: decimal_def)
qed

text \<open>The last \<open>k\<close> digits of a number, and a number of millionths as the files have prices.\<close>

fun print_digits :: "nat \<Rightarrow> nat \<Rightarrow> string" where
  "print_digits 0 n = []"
| "print_digits (Suc k) n = print_digits k (n div 10) @ [char_of (48 + n mod 10)]"

definition print_price :: "nat \<Rightarrow> string" where
  "print_price n = print_nat (n div 10 ^ 6) @ ''.'' @ print_digits 6 (n mod 10 ^ 6)"

lemma print_digits:
  "length (print_digits k n) = k \<and> (\<forall>c \<in> set (print_digits k n). is_digit c) \<and> decimal (print_digits k n) = n mod 10 ^ k"
proof (induction k arbitrary: n)
  case 0
  then show ?case by (simp add: decimal_def)
next
  case (Suc k)
  have "n mod 10 < 10" by simp
  note d = char_code_digit [OF this]
  have "decimal [char_of (48 + n mod 10)] = n mod 10" using d by (simp add: decimal_def)
  moreover have "(n div 10) mod 10 ^ k * 10 + n mod 10 = n mod 10 ^ Suc k"
    by (simp add: mod_mult2_eq mult.commute)
  ultimately show ?case using Suc.IH [of "n div 10"] d by (auto simp: decimal_append is_digit_def)
qed

lemma digit_plain: "is_digit c \<Longrightarrow> c \<noteq> comma \<and> c \<noteq> newline \<and> \<not> is_space c \<and> c \<noteq> CHR 0x2E"
  by (auto simp: is_digit_def is_space_def char_code_def comma_def newline_def)

lemma print_price_plain: "c \<in> set (print_price n) \<Longrightarrow> c \<noteq> comma \<and> c \<noteq> newline"
  using print_nat_digits [of "n div 10 ^ 6"] print_digits [of 6 "n mod 10 ^ 6"] digit_plain
  by (auto simp: print_price_def comma_def newline_def)

lemma scan_point:
  assumes "\<forall>c \<in> set w. is_digit c"
  shows "takeWhile is_digit (w @ ''.'' @ f) = w" "dropWhile is_digit (w @ ''.'' @ f) = ''.'' @ f"
proof -
  have "\<not> is_digit (CHR 0x2E)" by (simp add: is_digit_def char_code_def)
  then show "takeWhile is_digit (w @ ''.'' @ f) = w" "dropWhile is_digit (w @ ''.'' @ f) = ''.'' @ f"
    using assms by (induction w) auto
qed

lemma decimal_number_point:
  assumes "\<forall>c \<in> set w. is_digit c" "w \<noteq> []" "\<forall>c \<in> set f. is_digit c"
  shows "decimal_number (w @ ''.'' @ f) = Some (of_nat (decimal (w @ f)) / 10 ^ length f)"
proof -
  note scan_point [OF assms(1), of f]
  moreover have t: "takeWhile is_digit f = f" "dropWhile is_digit f = []" using assms(3) by simp_all
  ultimately show ?thesis using assms(2) by (simp add: decimal_number_def exponent_def t)
qed

lemma decimal_number_price: "decimal_number (print_price n) = Some (of_nat n / 10 ^ 6)"
proof -
  let ?w = "print_nat (n div 10 ^ 6)" and ?f = "print_digits 6 (n mod 10 ^ 6)"
  have w: "\<forall>c \<in> set ?w. is_digit c" "?w \<noteq> []" "decimal ?w = n div 10 ^ 6" using print_nat_digits by blast+
  have f: "length ?f = 6" "\<forall>c \<in> set ?f. is_digit c" "decimal ?f = n mod 10 ^ 6 mod 10 ^ 6"
    using print_digits [of 6 "n mod 10 ^ 6"] by blast+
  have "decimal (?w @ ?f) = n" unfolding decimal_append f(1,3) w(3) by (simp only: mod_mod_trivial div_mult_mod_eq)
  with decimal_number_point [OF w(1,2) f(2)] show ?thesis unfolding print_price_def f(1) by (simp only:)
qed

lemma double_range: "2 ^ 30 \<le> double_overflow" "double_normal \<le> 1 / 2 ^ 21"
  unfolding double_overflow_def double_normal_def
  by (rule power_increasing, simp, simp) (rule frac_le, simp, simp, simp, rule power_increasing, simp, simp)

lemma small_power: "(1 :: rat) / 2 ^ 500 \<le> 1 / 2 ^ 20"
  by (rule frac_le, simp, simp, simp, rule power_increasing, simp, simp)

lemma price_not_small:
  assumes "0 < n"
  shows "1 / 2 ^ 21 \<le> double_of (of_nat n / 10 ^ 6)"
proof -
  let ?x = "of_nat n / 10 ^ 6 :: rat"
  have x: "(1 :: rat) / 2 ^ 20 \<le> ?x" using assms by (simp add: field_simps)
  have "\<bar>double_of ?x - ?x\<bar> \<le> ?x / 2 ^ 53" by (rule double_of_error [OF order_trans [OF small_power x]])
  moreover have "?x / 2 ^ 53 \<le> ?x / 2" by (rule frac_le) simp_all
  ultimately have "?x / 2 \<le> double_of ?x" by linarith
  then show ?thesis using x by simp
qed

lemma scan_price: "dropWhile is_space (print_price n) = print_price n" "sign (print_price n) = (False, print_price n)"
proof -
  obtain c t where p: "print_nat (n div 10 ^ 6) = c # t" and c: "is_digit c"
    using print_nat_digits [of "n div 10 ^ 6"] by (cases "print_nat (n div 10 ^ 6)") auto
  then show "dropWhile is_space (print_price n) = print_price n" "sign (print_price n) = (False, print_price n)"
    unfolding print_price_def p using not_space_digit [OF c] digit_not_sign [OF c] by (simp_all add: sign_def)
qed

lemma stod_price:
  assumes "n \<le> 10 ^ 15"
  shows "stod (print_price n) = Some (Inr (double_of (of_nat n / 10 ^ 6)))"
proof -
  obtain c t where p: "print_nat (n div 10 ^ 6) = c # t" and c: "is_digit c" "\<forall>c \<in> set t. is_digit c"
    using print_nat_digits [of "n div 10 ^ 6"] by (cases "print_nat (n div 10 ^ 6)") auto
  have "\<not> special (print_price n)"
  proof -
    have "lower c = c" using c(1) by (simp add: lower_def is_digit_def)
    moreover have "c \<noteq> CHR 0x69 \<and> c \<noteq> CHR 0x6E" using c(1) by (auto simp: is_digit_def char_code_def)
    moreover obtain c' u where "t @ CHR 0x2E # print_digits 6 (n mod 10 ^ 6) = c' # u" and c': "is_digit c' \<or> c' = CHR 0x2E"
      using c(2) by (cases t) auto
    moreover have "lower c' \<noteq> CHR 0x78"
      using c' by (auto simp: lower_def is_digit_def char_code_def)
    ultimately show ?thesis unfolding special_def print_price_def p by simp
  qed
  moreover have "\<not> double_overflow \<le> double_of (of_nat n / 10 ^ 6)"
  proof -
    have "of_nat n \<le> (of_nat (10 ^ 15) :: rat)" using assms by (simp only: of_nat_le_iff)
    then have "of_nat n / 10 ^ 6 \<le> (of_int (10 ^ 9) :: rat)" by (simp add: divide_le_eq)
    then have "double_of (of_nat n / 10 ^ 6) \<le> of_int (10 ^ 9)" by (rule double_of_le_int) simp
    also have "\<dots> < double_overflow" by (rule less_le_trans [OF _ double_range(1)]) simp
    finally show ?thesis by simp
  qed
  moreover have "\<not> double_of (of_nat n / 10 ^ 6) < double_normal" if "0 < n"
    using price_not_small [OF that] double_range(2) by linarith
  ultimately show ?thesis by (auto simp: stod_def scan_price decimal_number_price Let_def)
qed

text \<open>A row of a table with prices in millionths, the six columns that are read and the text of the others.\<close>

record price_row =
  row_date :: string
  row_open :: nat
  row_high :: nat
  row_low :: nat
  row_close :: nat
  row_volume :: u64
  row_rest :: string

definition print_row :: "price_row \<Rightarrow> string" where
  "print_row r = row_date r @ comma # print_price (row_open r) @ comma # print_price (row_high r) @ comma #
     print_price (row_low r) @ comma # print_price (row_close r) @ comma # print_nat (unat (row_volume r)) @ comma # row_rest r"

definition print_table :: "string \<Rightarrow> price_row list \<Rightarrow> string" where
  "print_table header rows = header @ newline # concat (map (\<lambda>r. print_row r @ [newline]) rows)"

definition plain_row :: "price_row \<Rightarrow> bool" where
  "plain_row r \<longleftrightarrow> comma \<notin> set (row_date r) \<and> newline \<notin> set (row_date r) \<and> newline \<notin> set (row_rest r) \<and>
     row_open r \<le> 10 ^ 15 \<and> row_high r \<le> 10 ^ 15 \<and> row_low r \<le> 10 ^ 15 \<and> row_close r \<le> 10 ^ 15"

definition price_double :: "nat \<Rightarrow> rat" where
  "price_double n = double_of (of_nat n / 10 ^ 6)"

definition row_bar :: "price_row \<Rightarrow> DailyBar" where
  "row_bar r = \<lparr>bar_date = row_date r, bar_open = price_double (row_open r), bar_high = price_double (row_high r),
     bar_low = price_double (row_low r), bar_close = price_double (row_close r), bar_volume = row_volume r\<rparr>"

lemma next_field_comma: "comma \<notin> set t \<Longrightarrow> next_field old (t @ comma # rest, True) = (t, rest, True)"
  by (simp add: next_field_def getline_delim)

lemma print_nat_plain: "comma \<notin> set (print_nat n)" "newline \<notin> set (print_nat n)"
  using print_nat_digits [of n] digit_plain by blast+

lemma print_price_fields: "comma \<notin> set (print_price n)" "newline \<notin> set (print_price n)"
  using print_price_plain [of _ n] by blast+

lemma stoul_print: "stoul (print_nat (unat w)) = Inr w"
  using strtoull_print [of "unat w"] unat_u64_less [of w] by (simp add: stoul_def print_nonempty)

lemmas row_fields = next_field_comma print_nat_plain print_price_fields and_then_def stoul_print

lemma parse_print_row: "plain_row r \<Longrightarrow> parse_bar (print_row r) = Some (Inr (row_bar r))"
  unfolding plain_row_def parse_bar_def print_row_def row_bar_def price_double_def
  by (simp only: row_fields stod_price Let_def split_conv option.case sum.case append_assoc append_Cons fst_conv snd_conv
      simp_thms not_False_eq_True)

lemma load_rows:
  "\<forall>r \<in> set rows. plain_row r \<Longrightarrow>
   load_lines (concat (map (\<lambda>r. print_row r @ [newline]) rows), True) bars = Some (Inr (bars @ map row_bar rows))"
proof (induction rows arbitrary: bars)
  case Nil
  then show ?case by (simp add: load_lines.simps getline_def)
next
  case (Cons r rows)
  then have r: "plain_row r" by simp
  then have "newline \<notin> set (print_row r)"
    by (auto simp: plain_row_def print_row_def print_nat_plain print_price_fields) (simp add: comma_def newline_def)+
  moreover have "print_row r \<noteq> []" by (simp add: print_row_def)
  ultimately show ?case using Cons.IH [of "bars @ [row_bar r]"] Cons.prems
    by (subst load_lines.simps) (simp add: getline_delim parse_print_row [OF r] and_then_def)
qed

text \<open>A table is read back: every row is a bar, in order, with its volume and the doubles nearest to its prices.\<close>

theorem load_table:
  assumes "newline \<notin> set header" and "\<forall>r \<in> set rows. plain_row r"
  shows "loadDailyBars (Some (print_table header rows)) = Some (Inr (map row_bar rows))"
  using assms load_rows [of rows "[]"] by (simp add: loadDailyBars_def print_table_def getline_delim)

lemma stoul_price:
  assumes "n \<le> 10 ^ 15"
  shows "stoul (print_price n) = Inr (of_nat (n div 10 ^ 6))"
proof -
  let ?w = "print_nat (n div 10 ^ 6)" and ?r = "''.'' @ print_digits 6 (n mod 10 ^ 6)"
  have w: "\<forall>c \<in> set ?w. is_digit c" "?w \<noteq> []" "decimal ?w = n div 10 ^ 6" using print_nat_digits by blast+
  have "n div 10 ^ 6 \<le> 10 ^ 15" using assms div_le_dividend order_trans by blast
  also have "\<dots> < (2 :: nat) ^ 64" by simp
  finally have small: "\<not> 2 ^ 64 \<le> n div 10 ^ 6" by simp
  have "print_price n = ?w @ ?r" by (simp only: print_price_def append_assoc)
  note s = scan_price [of n, unfolded this] scan_point [OF w(1), of "print_digits 6 (n mod 10 ^ 6)"]
  have "strtoull (?w @ ?r) = (of_nat (n div 10 ^ 6), ?r, False)"
    unfolding strtoull_def s Let_def split_conv w(3) using w(2) small by (simp only: if_False)
  moreover have "?r \<noteq> ?w @ ?r" using w(2) by (simp only: append_self_conv2 not_False_eq_True self_append_conv2)
  ultimately show ?thesis unfolding stoul_def print_price_def by (simp only: Let_def split_conv if_False)
qed

text \<open>A row that ends early is not refused: the price it ends with stands for the missing ones, and its text for the
  volume.\<close>

theorem short_row:
  assumes "comma \<notin> set date" and "n \<le> 10 ^ 15"
  shows "parse_bar (date @ comma # print_price n) = Some (Inr \<lparr>bar_date = date, bar_open = price_double n,
    bar_high = price_double n, bar_low = price_double n, bar_close = price_double n,
    bar_volume = of_nat (n div 10 ^ 6)\<rparr>)"
proof -
  have last: "next_field old (print_price n, True) = (print_price n, [], False)" for old
    using print_price_fields(1) [of n] by (simp add: next_field_def getline_def)
  have ended: "next_field old ([], False) = (old, [], False)" for old
    by (simp add: next_field_def getline_def)
  show ?thesis
    unfolding parse_bar_def price_double_def
    by (simp only: next_field_comma [OF assms(1)] last ended stod_price [OF assms(2)] stoul_price [OF assms(2)] and_then_def
        Let_def split_conv option.case sum.case)
qed

end
