(* ===== verification/Feed_Handler.thy ===== *)
theory Feed_Handler
  imports App_Args Csv_Reader "HOL-Library.Monad_Syntax"
begin

text \<open>
  The feed: the generators of orders, the stream of messages it sends, and its loop. What a random
  distribution gives is any value of its range; the stream of draws is an argument, one draw per order
  number. Prices of daily bars are doubles, modelled as the rationals they denote.
\<close>

section \<open>Synthetic orders\<close>

record feed_draw =
  fd_side :: nat
  fd_price :: int
  fd_quantity :: u32
  fd_policy :: nat

definition synthetic_draw :: "feed_draw \<Rightarrow> bool" where
  "synthetic_draw d \<longleftrightarrow> fd_side d \<le> 1 \<and> 9900 \<le> fd_price d \<and> fd_price d \<le> 10100 \<and>
     1 \<le> fd_quantity d \<and> fd_quantity d \<le> 500 \<and> fd_policy d \<le> 99"

text \<open>The mix of the advanced mode: market, immediate-or-cancel, fill-or-kill and post-only orders.\<close>

definition apply_policy :: "nat \<Rightarrow> Order \<Rightarrow> Order" where
  "apply_policy policy ord =
     (if policy < 5 then ord\<lparr>o_type := MARKET, o_time_in_force := IOC, o_price := 0\<rparr>
      else if policy < 15 then ord\<lparr>o_time_in_force := IOC\<rparr>
      else if policy < 20 then ord\<lparr>o_time_in_force := FOK\<rparr>
      else if policy < 25 then ord\<lparr>o_flags := flag_POST_ONLY\<rparr>
      else ord)"

definition drawn_order :: "u64 \<Rightarrow> feed_draw \<Rightarrow> Order" where
  "drawn_order i d = default_order\<lparr>o_id := i, o_side := (if fd_side d = 0 then BUY else SELL), o_type := LIMIT,
     o_time_in_force := GTC, o_price := fd_price d, o_quantity := fd_quantity d\<rparr>"

definition synthetic_next :: "bool \<Rightarrow> u64 \<Rightarrow> feed_draw \<Rightarrow> Order" where
  "synthetic_next advanced i d =
     (let ord = drawn_order i d in if \<not> advanced then ord else apply_policy (fd_policy d) ord)"

section \<open>Orders from daily bars\<close>

text \<open>A price in hundredths, rounded; a double outside the range of \<open>int64_t\<close> has no conversion (undefined behaviour).\<close>

definition truncate_i64 :: "rat \<Rightarrow> int option" where
  "truncate_i64 x = (let i = (if x < 0 then \<lceil>x\<rceil> else \<lfloor>x\<rfloor>) in if is_i64 i then Some i else None)"

definition to_ticks :: "rat \<Rightarrow> int option" where
  "to_ticks price = truncate_i64 (double_signed (double_signed (price * 100) + 1 / 2))"

definition price_range :: "DailyBar \<Rightarrow> (int \<times> int) option" where
  "price_range bar = (case (to_ticks (bar_low bar), to_ticks (bar_high bar)) of
     (Some low_ticks, Some high_ticks) \<Rightarrow> Some (min low_ticks high_ticks, max low_ticks high_ticks)
   | _ \<Rightarrow> None)"

definition volume_weight :: "DailyBar \<Rightarrow> rat" where
  "volume_weight bar = min 1 (double_of (double_of (of_nat (unat (bar_volume bar))) / 100000000))"

definition max_quantity :: "DailyBar \<Rightarrow> u32" where
  "max_quantity bar = of_int \<lfloor>double_of (50 + double_of (volume_weight bar * 450))\<rfloor>"

definition real_draw :: "DailyBar \<Rightarrow> feed_draw \<Rightarrow> bool" where
  "real_draw bar d \<longleftrightarrow> (case price_range bar of None \<Rightarrow> False | Some (lo, hi) \<Rightarrow> lo \<le> fd_price d \<and> fd_price d \<le> hi) \<and>
     fd_side d \<le> 1 \<and> 1 \<le> fd_quantity d \<and> fd_quantity d \<le> max_quantity bar"

definition totalOrders :: "DailyBar list \<Rightarrow> u64 \<Rightarrow> u64" where
  "totalOrders bars orders_per_day = of_nat (length bars) * orders_per_day"

text \<open>\<open>None\<close> where there is no bar.\<close>

definition dayFor :: "DailyBar list \<Rightarrow> u64 \<Rightarrow> u64 \<Rightarrow> DailyBar option" where
  "dayFor bars orders_per_day i =
     (let day_index = unat ((i - 1) div orders_per_day); j = min day_index (length bars - 1)
      in if j < length bars then Some (bars ! j) else None)"

text \<open>The order for a draw from the day's ranges; \<open>None\<close> for undefined behaviour.\<close>

definition real_next :: "DailyBar list \<Rightarrow> u64 \<Rightarrow> u64 \<Rightarrow> feed_draw \<Rightarrow> Order option" where
  "real_next bars orders_per_day i d = do {
     bar \<leftarrow> dayFor bars orders_per_day i;
     (lo, hi) \<leftarrow> price_range bar;
     Some (drawn_order i d)
   }"

section \<open>Sending\<close>

record feed =
  orders_pushed :: u64
  cancels_pushed :: u64
  messages :: "OrderMsg list"

definition new_message :: "Order \<Rightarrow> OrderMsg" where
  "new_message ord = default_msg\<lparr>m_type := MSG_NEW_ORDER, m_order := ord\<rparr>"

definition cancel_message :: "u64 \<Rightarrow> OrderMsg" where
  "cancel_message i = default_msg\<lparr>m_type := MSG_CANCEL_ORDER, m_order := default_order\<lparr>o_id := i\<rparr>\<rparr>"

text \<open>Pushing a message retries until the ring takes it; what is sent is the sequence of messages.\<close>

definition pushMessage :: "OrderMsg \<Rightarrow> feed \<Rightarrow> feed" where
  "pushMessage m f = f\<lparr>messages := messages f @ [m]\<rparr>"

definition sendOrder :: "u64 \<Rightarrow> Order \<Rightarrow> feed \<Rightarrow> feed" where
  "sendOrder cancel_every ord f =
     (let f = pushMessage (new_message ord) f; f = f\<lparr>orders_pushed := orders_pushed f + 1\<rparr>
      in if 0 < cancel_every \<and> orders_pushed f mod cancel_every = 0 then
           let f = pushMessage (cancel_message (max 1 (orders_pushed f - cancel_every div 2))) f
           in f\<lparr>cancels_pushed := cancels_pushed f + 1\<rparr>
         else f)"

definition feed_start :: feed where
  "feed_start = \<lparr>orders_pushed = 0, cancels_pushed = 0, messages = []\<rparr>"

text \<open>The loop over the order numbers, from \<open>i\<close> to the last one; \<open>None\<close> if it does not end or a generator's
  step is undefined.\<close>

partial_function (option) feed_loop :: "u64 \<Rightarrow> (u64 \<Rightarrow> Order option) \<Rightarrow> u64 \<Rightarrow> u64 \<Rightarrow> feed \<Rightarrow> feed option" where
  "feed_loop cancel_every generator n i f =
     (if i \<le> n then do {
        ord \<leftarrow> generator i;
        feed_loop cancel_every generator n (i + 1) (sendOrder cancel_every ord f)
      } else Some f)"

text \<open>What the feed sends, by its settings, the bars it has loaded and the draws; \<open>Inl\<close> where it ends early.\<close>

definition feed_main :: "FeedArgs \<Rightarrow> DailyBar list \<Rightarrow> (u64 \<Rightarrow> feed_draw) \<Rightarrow> (exit + feed) option" where
  "feed_main args bars draws =
     (if fa_real_data args then
        if bars = [] then Some (Inl (Exit 1 (''[feed_handler] could not load real data file '' @ [CHR 0x27] @ fa_data_file args @ [CHR 0x27] @
          '' (or it was empty); real-data mode never falls back to synthetic input'')))
        else map_option Inr (feed_loop (fa_cancel_every args) (\<lambda>i. real_next bars (fa_orders_per_day args) i (draws i))
               (totalOrders bars (fa_orders_per_day args)) 1 feed_start)
      else map_option Inr (feed_loop (fa_cancel_every args) (\<lambda>i. Some (synthetic_next (fa_advanced_orders args) i (draws i)))
             (fa_num_orders args) 1 feed_start))"

section \<open>The stream\<close>

text \<open>The messages for the \<open>k\<close>-th order.\<close>

definition order_messages :: "u64 \<Rightarrow> (u64 \<Rightarrow> Order) \<Rightarrow> nat \<Rightarrow> OrderMsg list" where
  "order_messages cancel_every generator k = new_message (generator (of_nat k)) #
     (if 0 < cancel_every \<and> k mod unat cancel_every = 0
      then [cancel_message (of_nat (max 1 (k - unat cancel_every div 2)))] else [])"

definition new_orders :: "OrderMsg list \<Rightarrow> Order list" where
  "new_orders ms = map m_order (filter (\<lambda>m. m_type m = MSG_NEW_ORDER) ms)"

lemma unat_of_nat_u64: "k < 2 ^ 64 \<Longrightarrow> unat (of_nat k :: u64) = k"
  by (simp add: unsigned_of_nat take_bit_nat_eq_self)

lemma max_word: "of_nat (max a b) = max (of_nat a) (of_nat b :: u64)" if "a < 2 ^ 64" "b < 2 ^ 64"
  using that by (auto simp: max_def word_le_nat_alt unat_of_nat_u64)

lemma sendOrder_step:
  assumes "orders_pushed f = of_nat k" and "Suc k < 2 ^ 64"
  shows "messages (sendOrder cancel_every (generator (of_nat (Suc k))) f) = messages f @ order_messages cancel_every generator (Suc k)"
    "orders_pushed (sendOrder cancel_every ord f) = of_nat (Suc k)"
    "cancels_pushed (sendOrder cancel_every ord f) =
      cancels_pushed f + (if 0 < cancel_every \<and> Suc k mod unat cancel_every = 0 then 1 else 0)"
proof -
  let ?n = "of_nat (Suc k) :: u64"
  have n: "orders_pushed f + 1 = ?n" using assms(1) by simp
  have u: "unat ?n = Suc k" by (rule unat_of_nat_u64 [OF assms(2)])
  have m: "?n mod cancel_every = 0 \<longleftrightarrow> Suc k mod unat cancel_every = 0"
    unfolding word_unat_eq_iff unat_mod_distrib u by simp
  have c: "max 1 (?n - cancel_every div 2) = of_nat (max 1 (Suc k - unat cancel_every div 2))"
    if "0 < cancel_every" "Suc k mod unat cancel_every = 0"
  proof -
    have "unat cancel_every \<le> Suc k" using that(2) by (intro dvd_imp_le) (simp_all add: dvd_eq_mod_eq_0)
    moreover have h: "unat (cancel_every div 2) = unat cancel_every div 2" by (simp add: unat_div_distrib)
    ultimately have le: "unat (cancel_every div 2) \<le> Suc k" by linarith
    then have "?n - cancel_every div 2 = of_nat (Suc k - unat cancel_every div 2)"
      by (simp only: flip: h) (simp add: of_nat_diff)
    moreover have "Suc k - unat cancel_every div 2 < 2 ^ 64" using assms(2) by linarith
    ultimately show ?thesis by (simp add: max_word)
  qed
  show "messages (sendOrder cancel_every (generator ?n) f) = messages f @ order_messages cancel_every generator (Suc k)"
    "orders_pushed (sendOrder cancel_every ord f) = ?n"
    "cancels_pushed (sendOrder cancel_every ord f) =
      cancels_pushed f + (if 0 < cancel_every \<and> Suc k mod unat cancel_every = 0 then 1 else 0)"
    using n m c by (simp_all add: sendOrder_def Let_def pushMessage_def order_messages_def del: of_nat_Suc)
qed

lemma feed_loop_runs:
  fixes generator :: "u64 \<Rightarrow> Order"
  assumes "orders_pushed f = of_nat k" and "k \<le> n" and "Suc n < 2 ^ 64"
    and "\<And>j. k < j \<Longrightarrow> j \<le> n \<Longrightarrow> source (of_nat j) = Some (generator (of_nat j))"
  shows "\<exists>f'. feed_loop cancel_every source (of_nat n) (of_nat (Suc k)) f = Some f' \<and>
    messages f' = messages f @ concat (map (order_messages cancel_every generator) [Suc k..<Suc n]) \<and> orders_pushed f' = of_nat n \<and>
    cancels_pushed f' = cancels_pushed f +
      of_nat (length (filter (\<lambda>j. 0 < cancel_every \<and> j mod unat cancel_every = 0) [Suc k..<Suc n]))"
  using assms
proof (induction "n - k" arbitrary: f k)
  case 0
  then have "k = n" by simp
  moreover have "\<not> (of_nat (Suc n) :: u64) \<le> of_nat n"
    using 0(4) unat_of_nat_u64 [of n] unat_of_nat_u64 [of "Suc n"] by (simp add: word_le_nat_alt del: of_nat_Suc)
  ultimately show ?case using 0(2) by (simp add: feed_loop.simps del: of_nat_Suc)
next
  case (Suc d)
  then have k: "k < n" "Suc k < 2 ^ 64" by simp_all
  then have "(of_nat (Suc k) :: u64) \<le> of_nat n"
    using Suc.prems(3) unat_of_nat_u64 [of n] unat_of_nat_u64 [of "Suc k"] by (simp add: word_le_nat_alt del: of_nat_Suc)
  moreover have "source (of_nat (Suc k)) = Some (generator (of_nat (Suc k)))" using k(1) by (intro Suc.prems(4)) simp_all
  moreover note step = sendOrder_step [OF Suc.prems(1) k(2), of cancel_every]
  moreover have "d = n - Suc k" using Suc.hyps(2) by simp
  note IH = Suc.hyps(1) [OF this step(2) [of "generator (of_nat (Suc k))"] _ Suc.prems(3)]
  moreover have "[Suc k..<Suc n] = Suc k # [Suc (Suc k)..<Suc n]" using k(1) by (simp add: upt_rec [of "Suc k"])
  ultimately show ?case using k(1) Suc.prems(4) by (subst feed_loop.simps) (auto simp: add.commute [of _ 1])
qed

text \<open>A feed for the largest number of orders never stops: the order number wraps around before it exceeds the last one.\<close>

lemma feed_loop_wraps:
  assumes "feed_loop cancel_every generator n i f = Some f'"
  shows "n \<noteq> 0xFFFFFFFFFFFFFFFF"
proof (rule feed_loop.raw_induct [where P = "\<lambda>cancel_every generator n i f f'. n \<noteq> 0xFFFFFFFFFFFFFFFF", OF _ assms])
  fix loop :: "u64 \<Rightarrow> (u64 \<Rightarrow> Order option) \<Rightarrow> u64 \<Rightarrow> u64 \<Rightarrow> feed \<Rightarrow> feed option"
    and cancel_every generator n i f f'
  assume IH: "\<And>cancel_every generator n i f f'. loop cancel_every generator n i f = Some f' \<Longrightarrow> n \<noteq> 0xFFFFFFFFFFFFFFFF"
    and "(if i \<le> n then generator i \<bind> (\<lambda>ord. loop cancel_every generator n (i + 1) (sendOrder cancel_every ord f)) else Some f) = Some f'"
  moreover have "(0xFFFFFFFFFFFFFFFF :: u64) = - 1" by simp
  then have "i \<le> 0xFFFFFFFFFFFFFFFF" using word_order.extremum [of i] by (simp only:)
  ultimately show "n \<noteq> 0xFFFFFFFFFFFFFFFF" by (auto split: if_splits bind_splits)
qed

section \<open>Every order is valid\<close>

lemma synthetic_order:
  assumes "synthetic_draw d" and "i \<noteq> 0"
  shows "validateStatic (synthetic_next advanced i d) = NO_REASON \<and> command_canonical (New (synthetic_next advanced i d)) \<and>
    o_id (synthetic_next advanced i d) = i"
proof -
  have "fd_quantity d \<noteq> 0" using assms(1) by (auto simp: synthetic_draw_def)
  then show ?thesis using assms
    by (auto simp: synthetic_next_def synthetic_draw_def drawn_order_def apply_policy_def validateStatic_def default_order_def
        isValidSide_def isValidOrderType_def isValidTimeInForce_def flag_NONE_def flag_POST_ONLY_def kKnownFlags_def
        hasFlag_def command_canonical_def Let_def is_i64_def intro!: valid_canonical)
qed

lemma multiples_up_to: "0 < c \<Longrightarrow> length (filter (\<lambda>j. j mod c = 0) [Suc 0..<Suc n]) = n div c"
  by (induction n) (simp_all add: div_Suc)

lemma new_messages_of_stream:
  "new_orders (concat (map (order_messages cancel_every generator) ks)) = map (generator \<circ> of_nat) ks"
  by (induction ks) (simp_all add: new_orders_def order_messages_def new_message_def cancel_message_def)

lemma stream_message:
  assumes "m \<in> set (concat (map (order_messages cancel_every generator) ks))"
  shows "(\<exists>k \<in> set ks. m = new_message (generator (of_nat k))) \<or>
    (\<exists>k \<in> set ks. m = cancel_message (of_nat (max 1 (k - unat cancel_every div 2))))"
  using assms by (auto simp: order_messages_def split: if_splits)

text \<open>What a stream is made of, for any generator of numbered orders.\<close>

lemma feed_loop_stream:
  fixes generator :: "u64 \<Rightarrow> Order"
  assumes "unat n < 2 ^ 64 - 1"
    and "\<And>k. 1 \<le> k \<Longrightarrow> k \<le> unat n \<Longrightarrow> source (of_nat k) = Some (generator (of_nat k)) \<and>
      P k (generator (of_nat k)) \<and> o_id (generator (of_nat k)) = of_nat k"
  obtains f where "feed_loop c source n 1 feed_start = Some f" "orders_pushed f = n" "cancels_pushed f = n div c"
    "length (new_orders (messages f)) = unat n"
    "\<forall>k < unat n. P (Suc k) (new_orders (messages f) ! k) \<and> o_id (new_orders (messages f) ! k) = of_nat (Suc k)"
    "\<forall>m \<in> set (messages f). (\<exists>k ord. m = new_message ord \<and> P k ord) \<or> (\<exists>i. m = cancel_message i \<and> 1 \<le> i \<and> i \<le> n)"
proof -
  let ?n = "unat n"
  have n: "Suc ?n < 2 ^ 64" using assms(1) by simp
  from feed_loop_runs [of feed_start 0 ?n source generator c] assms(2) n obtain f where
    f: "feed_loop c source n 1 feed_start = Some f" "orders_pushed f = n"
    and msgs: "messages f = concat (map (order_messages c generator) [1..<Suc ?n])"
    and cancels: "cancels_pushed f = of_nat (length (filter (\<lambda>j. 0 < c \<and> j mod unat c = 0) [1..<Suc ?n]))"
    by (auto simp: feed_start_def Suc_le_eq)
  have "cancels_pushed f = n div c"
  proof (cases "c = 0")
    case True
    then show ?thesis using cancels by simp
  next
    case False
    then have "length (filter (\<lambda>j. 0 < c \<and> j mod unat c = 0) [1..<Suc ?n]) = ?n div unat c"
      using multiples_up_to [of "unat c" ?n] by (simp add: word_gt_0 unat_gt_0)
    then show ?thesis using cancels by (simp flip: unat_div_distrib)
  qed
  moreover have "(\<exists>k ord. m = new_message ord \<and> P k ord) \<or>
      (\<exists>i. m = cancel_message i \<and> 1 \<le> i \<and> i \<le> n)" if "m \<in> set (messages f)" for m
  proof -
    have k: "unat (of_nat k :: u64) = k" if "k \<le> ?n" for k using that n by (intro unat_of_nat_u64) simp
    from stream_message [OF that [unfolded msgs]] consider k where "1 \<le> k" "k \<le> ?n" "m = new_message (generator (of_nat k))"
      | k where "1 \<le> k" "k \<le> ?n" "m = cancel_message (of_nat (max 1 (k - unat c div 2)))" by fastforce
    then show ?thesis
    proof cases
      case 1
      then show ?thesis using assms(2) [of k] by blast
    next
      case 2
      then have "max 1 (k - unat c div 2) \<le> ?n" by simp
      with k [OF this] have "1 \<le> (of_nat (max 1 (k - unat c div 2)) :: u64) \<and> (of_nat (max 1 (k - unat c div 2)) :: u64) \<le> n"
        by (simp add: word_le_nat_alt)
      with 2 show ?thesis by blast
    qed
  qed
  moreover have "new_orders (messages f) = map (generator \<circ> of_nat) [1..<Suc ?n]"
    unfolding msgs new_messages_of_stream ..
  ultimately show ?thesis using f assms(2) by (intro that [of f]) (auto simp del: upt_Suc of_nat_Suc)
qed


text \<open>The largest number is accepted on the command line, and then the feed never ends.\<close>

theorem feed_never_ends:
  "\<exists>args. parseArgs_feed [''--orders'', ''18446744073709551615''] = Inr args \<and> feed_main args bars draws = None"
proof -
  have "parseU64 ''18446744073709551615'' ''--orders'' = Inr 0xFFFFFFFFFFFFFFFF"
    by (simp add: parseU64_def strtoull_def sign_def is_space_def is_digit_def char_code_def decimal_def)
  then have "parseArgs_feed [''--orders'', ''18446744073709551615''] = Inr (default_feed_args\<lparr>fa_num_orders := 0xFFFFFFFFFFFFFFFF\<rparr>)"
    by (simp add: parseArgs_feed_def feed_arg_def with_value_def default_feed_args_def)
  moreover have "feed_loop c g 0xFFFFFFFFFFFFFFFF 1 feed_start = None" for c g
    using feed_loop_wraps [of c g "0xFFFFFFFFFFFFFFFF" 1 feed_start] by (cases "feed_loop c g 0xFFFFFFFFFFFFFFFF 1 feed_start") auto
  ultimately show ?thesis by (simp add: feed_main_def default_feed_args_def)
qed

section \<open>Real data\<close>

text \<open>The range of quantities is never empty: its upper end is between 50 and 500.\<close>

lemma max_quantity_bounds: "50 \<le> unat (max_quantity bar) \<and> unat (max_quantity bar) \<le> 500"
proof -
  let ?w = "volume_weight bar" and ?x = "double_of (50 + double_of (volume_weight bar * 450))"
  have "0 \<le> double_of (double_of (of_nat (unat (bar_volume bar))) / 100000000)"
    by (intro double_of_nonneg divide_nonneg_nonneg of_nat_0_le_iff) simp
  then have w: "0 \<le> ?w" "?w \<le> 1" unfolding volume_weight_def by linarith+
  have "0 \<le> double_of (?w * 450)" using w(1) by (intro double_of_nonneg) simp
  moreover have "double_of (?w * 450) \<le> of_int 450" using w(2) by (intro double_of_le_int) simp_all
  ultimately have "of_int 50 \<le> ?x" "?x \<le> of_int 500"
    by (intro double_of_ge_int double_of_le_int; simp)+
  then have f: "50 \<le> \<lfloor>?x\<rfloor>" "\<lfloor>?x\<rfloor> \<le> 500" by (simp_all add: le_floor_iff floor_le_iff)
  then have "uint (max_quantity bar) = \<lfloor>?x\<rfloor>"
    unfolding max_quantity_def by (subst uint_word_of_int) simp
  with f show ?thesis unfolding unat_eq_nat_uint by linarith
qed

text \<open>Every order number belongs to its day, in order, the same number of orders to each.\<close>

lemma dayFor_exact:
  assumes "1 \<le> k" and "k \<le> length bars * unat orders_per_day" and "length bars * unat orders_per_day < 2 ^ 64"
  shows "(k - 1) div unat orders_per_day < length bars \<and>
    dayFor bars orders_per_day (of_nat k) = Some (bars ! ((k - 1) div unat orders_per_day))"
proof -
  have "k - 1 < length bars * unat orders_per_day" using assms(1,2) by simp
  then have d: "(k - 1) div unat orders_per_day < length bars" by (rule less_mult_imp_div_less)
  have "of_nat k - 1 = (of_nat (k - 1) :: u64)" using assms(1) by (simp add: of_nat_diff)
  moreover have "unat (of_nat (k - 1) :: u64) = k - 1" using assms by (intro unat_of_nat_u64) simp
  ultimately have "unat ((of_nat k - 1) div orders_per_day) = (k - 1) div unat orders_per_day"
    by (simp add: unat_div_distrib)
  with d show ?thesis by (auto simp: dayFor_def Let_def min_def)
qed

text \<open>An order of a day is priced within the day's range; it is valid unless that range reaches down to zero.\<close>

lemma real_order:
  assumes "real_draw bar d" and "price_range bar = Some (lo, hi)" and "0 < lo" and "i \<noteq> 0"
  shows "validateStatic (drawn_order i d) = NO_REASON \<and> lo \<le> o_price (drawn_order i d) \<and> o_price (drawn_order i d) \<le> hi \<and>
    o_quantity (drawn_order i d) \<le> 500"
proof -
  have "fd_quantity d \<noteq> 0" using assms(1) by (auto simp: real_draw_def)
  moreover have "fd_quantity d \<le> 500"
    using assms(1) max_quantity_bounds [of bar] by (auto simp: real_draw_def word_le_nat_alt)
  ultimately show ?thesis using assms
    by (auto simp: real_draw_def drawn_order_def validateStatic_def default_order_def isValidSide_def
        isValidOrderType_def isValidTimeInForce_def flag_NONE_def flag_POST_ONLY_def kKnownFlags_def hasFlag_def)
qed

text \<open>Real data bounds the orders: the feed runs through the days in order, the same number of orders each, and every
  order is a valid one priced between the day's low and its high.\<close>

theorem real_feed_bounded:
  assumes "fa_real_data args" and "bars \<noteq> []" and "length bars * unat (fa_orders_per_day args) < 2 ^ 64 - 1"
    and "\<forall>bar \<in> set bars. \<exists>lo hi. price_range bar = Some (lo, hi) \<and> 0 < lo"
    and "\<forall>i bar. dayFor bars (fa_orders_per_day args) i = Some bar \<longrightarrow> real_draw bar (draws i)"
  shows "\<exists>f os. feed_main args bars draws = Some (Inr f) \<and> new_orders (messages f) = os \<and>
    length os = length bars * unat (fa_orders_per_day args) \<and>
    (\<forall>k < length os. o_id (os ! k) = of_nat (Suc k) \<and> validateStatic (os ! k) = NO_REASON \<and>
      (\<exists>lo hi. price_range (bars ! (k div unat (fa_orders_per_day args))) = Some (lo, hi) \<and>
         lo \<le> o_price (os ! k) \<and> o_price (os ! k) \<le> hi))"
proof -
  let ?d = "fa_orders_per_day args" and ?n = "totalOrders bars (fa_orders_per_day args)"
  let ?P = "\<lambda>(k :: nat) ord. validateStatic ord = NO_REASON \<and>
    (\<exists>lo hi. price_range (bars ! ((k - 1) div unat ?d)) = Some (lo, hi) \<and> lo \<le> o_price ord \<and> o_price ord \<le> hi)"
  have n: "unat ?n = length bars * unat ?d"
    using assms(3) unat_of_nat_u64 [of "length bars * unat ?d"] by (simp add: totalOrders_def)
  then have less: "unat ?n < 2 ^ 64 - 1" using assms(3) by simp
  have g: "real_next bars ?d (of_nat k) (draws (of_nat k)) = Some (drawn_order (of_nat k) (draws (of_nat k))) \<and>
      ?P k (drawn_order (of_nat k) (draws (of_nat k))) \<and> o_id (drawn_order (of_nat k) (draws (of_nat k))) = of_nat k"
    if "1 \<le> k" "k \<le> unat ?n" for k
  proof -
    have "unat (of_nat k :: u64) = k" using that less by (intro unat_of_nat_u64) simp
    then have i: "(of_nat k :: u64) \<noteq> 0" using that(1) by (auto simp: word_unat_eq_iff)
    have day: "(k - 1) div unat ?d < length bars" "dayFor bars ?d (of_nat k) = Some (bars ! ((k - 1) div unat ?d))"
      using dayFor_exact [of k bars ?d] that n assms(3) by simp_all
    from assms(4) nth_mem [OF day(1)] obtain lo hi where r: "price_range (bars ! ((k - 1) div unat ?d)) = Some (lo, hi)" "0 < lo"
      by blast
    from real_order [OF _ r i] assms(5) day(2) r(1) show ?thesis
      by (auto simp: real_next_def) (simp add: drawn_order_def)
  qed
  obtain f where "feed_loop (fa_cancel_every args) (\<lambda>i. real_next bars ?d i (draws i)) ?n 1 feed_start = Some f"
    and os: "length (new_orders (messages f)) = unat ?n"
      "\<forall>k < unat ?n. ?P (Suc k) (new_orders (messages f) ! k) \<and> o_id (new_orders (messages f) ! k) = of_nat (Suc k)"
    by (rule feed_loop_stream [where P = ?P and generator = "\<lambda>i. drawn_order i (draws i)" and
          source = "\<lambda>i. real_next bars ?d i (draws i)" and c = "fa_cancel_every args", OF less g]) blast
  moreover have "length (new_orders (messages f)) = length bars * unat ?d" using os(1) n by simp
  ultimately show ?thesis using assms(1,2) n by (intro exI [of _ f] exI [of _ "new_orders (messages f)"]) (simp add: feed_main_def)
qed

section \<open>From the file to the orders\<close>

text \<open>The feed on a file: the bars are loaded from it, in the mode that reads them.\<close>

definition feed_run :: "FeedArgs \<Rightarrow> string option \<Rightarrow> (u64 \<Rightarrow> feed_draw) \<Rightarrow> (exit + feed) option" where
  "feed_run args file draws =
     (if fa_real_data args then and_then (loadDailyBars file) (\<lambda>bars. feed_main args bars draws) else feed_main args [] draws)"

lemma double_of_near:
  assumes "x = 0 \<or> 1 / 2 ^ 20 \<le> x" and "x \<le> c"
  shows "\<bar>double_of x - x\<bar> \<le> c / 2 ^ 53"
proof (cases "x = 0")
  case True
  then show ?thesis using assms(2) by simp
next
  case False
  then have "\<bar>double_of x - x\<bar> \<le> x / 2 ^ 53" using assms(1) by (intro double_of_error order_trans [OF small_power]) simp
  also have "\<dots> \<le> c / 2 ^ 53" using assms(2) by (simp add: divide_right_mono)
  finally show ?thesis .
qed

text \<open>The rounding of the three operations on doubles does not show: the price in ticks is one nearest to the
  price in the file.\<close>

lemma to_ticks_nearest:
  assumes "n \<le> 10 ^ 15"
  shows "\<exists>t. to_ticks (price_double n) = Some t \<and> \<bar>10000 * t - int n\<bar> \<le> 5000"
proof -
  define v :: rat where "v = of_nat n / 10 ^ 6"
  define p where "p = price_double n"
  define q where "q = double_of (p * 100)"
  define r where "r = double_of (q + 1 / 2)"
  have "of_nat n \<le> (of_nat (10 ^ 15) :: rat)" using assms by (simp only: of_nat_le_iff)
  then have v: "v \<le> 1000000000" "0 \<le> v" by (simp_all add: v_def divide_le_eq)
  have v0: "v = 0 \<or> 1 / 2 ^ 20 \<le> v" by (cases n) (simp_all add: v_def field_simps)
  have p0: "p = 0 \<or> 1 / 2 ^ 21 \<le> p" using price_not_small [of n] by (cases n) (simp_all add: p_def price_double_def)
  have p: "\<bar>p - v\<bar> \<le> 1000000000 / 2 ^ 53"
    using double_of_near [OF v0 v(1)] by (simp add: p_def price_double_def v_def)
  have p1: "p * 100 \<le> 100000000001" using abs_le_D1 [OF p] v by simp
  have q: "\<bar>q - p * 100\<bar> \<le> 100000000001 / 2 ^ 53"
    unfolding q_def by (rule double_of_near [OF _ p1]) (use p0 in auto)
  have "0 \<le> p" using p0 by auto
  then have q0: "0 \<le> q" unfolding q_def by (intro double_of_nonneg) simp
  have r: "\<bar>r - (q + 1 / 2)\<bar> \<le> 100000000003 / 2 ^ 53"
    unfolding r_def by (rule double_of_near) (use q0 abs_le_D1 [OF q] p1 in simp_all)
  have "\<bar>r - (v * 100 + 1 / 2)\<bar> < 1 / 10000" 
    unfolding abs_less_iff using abs_le_D1 [OF p] abs_le_D2 [OF p] abs_le_D1 [OF q] abs_le_D2 [OF q] abs_le_D1 [OF r] abs_le_D2 [OF r]
    by simp
  then have near: "r - (v * 100 + 1 / 2) < 1 / 10000" "v * 100 + 1 / 2 - r < 1 / 10000" unfolding abs_less_iff by simp_all
  have r0: "0 \<le> r" unfolding r_def using q0 by (intro double_of_nonneg) simp
  have "r < of_int (10 ^ 12)" using near v by simp
  then have "is_i64 \<lfloor>r\<rfloor>" using r0 by (simp add: is_i64_def floor_less_iff)
  moreover define t where "t = \<lfloor>r\<rfloor>"
  ultimately have "to_ticks (price_double n) = Some t"
    using r0 q0 \<open>0 \<le> p\<close> by (simp add: to_ticks_def truncate_i64_def double_signed_def p_def q_def r_def Let_def)
  moreover have "10000 * t < int n + 5001" "int n - 5001 < 10000 * t"
  proof -
    have "of_int t \<le> r" "r < of_int t + 1" unfolding t_def by linarith+
    then have "of_int (10000 * t) < (of_int (int n + 5001) :: rat)" "(of_int (int n - 5001) :: rat) < of_int (10000 * t)"
      using near by (simp_all add: v_def)
    then show "10000 * t < int n + 5001" "int n - 5001 < 10000 * t" by (simp_all only: of_int_less_iff)
  qed
  ultimately show ?thesis by (intro exI [of _ t]) simp
qed

lemma row_range:
  assumes "plain_row r" and "5000 < row_low r" and "row_low r \<le> row_high r"
  shows "\<exists>lo hi. price_range (row_bar r) = Some (lo, hi) \<and> 0 < lo \<and>
    int (row_low r) - 5000 \<le> 10000 * lo \<and> 10000 * hi \<le> int (row_high r) + 5000"
proof -
  have "row_low r \<le> 10 ^ 15" "row_high r \<le> 10 ^ 15" using assms(1) by (simp_all add: plain_row_def)
  from to_ticks_nearest [OF this(1)] to_ticks_nearest [OF this(2)] obtain a b where
    "to_ticks (price_double (row_low r)) = Some a" "\<bar>10000 * a - int (row_low r)\<bar> \<le> 5000"
    "to_ticks (price_double (row_high r)) = Some b" "\<bar>10000 * b - int (row_high r)\<bar> \<le> 5000" by blast
  then show ?thesis using assms(2,3)
    by (intro exI [of _ "min a b"] exI [of _ "max a b"]) (auto simp: price_range_def row_bar_def min_def max_def)
qed


section \<open>From the feed to the viewer\<close>

text \<open>If the engine took all that the feed sent and the viewer finished, the viewer has seen the reports and
  trades of running one engine on the feed's messages.\<close>

lemma feed_to_viewer:
  assumes "flow_inv e s" and "sent s = messages f" and "taken s = sent s" and "viewer_finished (region s)"
  shows "run_engine e (map msg_command (messages f)) = Some (results s, mp_engine s) \<and>
    reports_seen s = map fst (results s) \<and> trades_seen s = concat (map snd (results s))"
proof -
  have "\<exists>n x. point s = M_Exit n x" using assms(1,4) by (simp add: flow_inv_def viewer_finished_def)
  with assms show ?thesis by (auto simp: flow_inv_def viewer_finished_def point_defs spsc_empty_contents)
qed

section \<open>Witnesses\<close>

definition steady_draw :: feed_draw where
  "steady_draw = \<lparr>fd_side = 0, fd_price = 10000, fd_quantity = 5, fd_policy = 50\<rparr>"


definition flat_day :: price_row where
  "flat_day = \<lparr>row_date = ''2015-02-17'', row_open = 100000000, row_high = 100000000, row_low = 100000000,
     row_close = 100000000, row_volume = 7, row_rest = []\<rparr>"

lemma flat_day_plain: "plain_row flat_day"
  by (simp add: plain_row_def flat_day_def comma_def newline_def)

lemma flat_day_range: "price_range (row_bar flat_day) = Some (10000, 10000)"
proof -
  have "(100000000 :: nat) \<le> 10 ^ 15" by simp
  from to_ticks_nearest [OF this] obtain t where "to_ticks (price_double 100000000) = Some t" "\<bar>10000 * t - 100000000\<bar> \<le> 5000"
    by auto
  moreover then have "t = 10000" by linarith
  ultimately show ?thesis by (simp add: price_range_def row_bar_def flat_day_def)
qed

lemma steady_draw_real: "real_draw (row_bar flat_day) steady_draw"
  using max_quantity_bounds [of "row_bar flat_day"]
  by (simp add: real_draw_def flat_day_range steady_draw_def word_le_nat_alt)


end
