(* ===== verification/Partitioned_Client.thy ===== *)
theory Partitioned_Client
  imports Feed_Handler Partitioned_System "HOL-Library.Multiset"
begin

text \<open>
  The programs that drive the partitioned engine have one form: producers that meet at a barrier and enqueue
  numbered orders, and a main thread that joins them, waits until the engine is idle and checks the result. Their
  threads interleave with the owners of the shards in any order. What a program is made of is a record; what its run shows
  is proved once, over the locale \<open>numbered_clients\<close>.
\<close>

section \<open>Programs\<close>

text \<open>The engine's shards and queue capacity; the producers, with how many orders each has, their numbers, and the
  order for a draw and a symbol, if the draw is possible; the number of all orders, and the symbols that are checked.\<close>

record client =
  cl_shards :: u64
  cl_capacity :: u64
  cl_producers :: u64
  cl_quota :: "nat \<Rightarrow> nat"
  cl_number :: "nat \<Rightarrow> nat \<Rightarrow> u64"
  cl_input :: "nat \<Rightarrow> nat \<Rightarrow> feed_draw \<Rightarrow> Symbol \<Rightarrow> (Symbol \<times> Order) option"
  cl_total :: u64
  cl_symbols :: "Symbol list"

section \<open>Threads\<close>

text \<open>A producer: before the barrier, at the barrier, or in its loop with the number of orders it has begun to
  enqueue. Its call of \<open>enqueue\<close> is the caller of the same index in the engine. The main thread's call of
  \<open>waitUntilIdle\<close> is the engine's only waiter.\<close>

datatype producer_point = B_New | B_Ready | B_Loop nat

record partitioned_run =
  sys :: system
  points :: "producer_point list"
  ready :: u64
  started :: bool
  ingress_failed :: bool

definition client_start :: "client \<Rightarrow> partitioned_run option" where
  "client_start cl = (case make_partitioned (cl_shards cl) (cl_capacity cl) default_limits 200 of
     Inl e \<Rightarrow> None
   | Inr pe \<Rightarrow> Some \<lparr>sys = part_start pe (unat (cl_producers cl)) 1,
       points = replicate (unat (cl_producers cl)) B_New, ready = 0, started = False, ingress_failed = False\<rparr>)"

text \<open>The steps of the engine that no thread of the program decides: no call begins or returns false, nobody starts
  to wait, and there is no shutdown.\<close>

definition internal :: "system \<Rightarrow> system \<Rightarrow> bool" where
  "internal s s' \<longleftrightarrow> closing s' = closing s \<and> (\<forall>j. waiter_at s j I_Out \<longrightarrow> waiter_at s' j I_Out) \<and>
     (\<forall>j. caller_at s j C_Idle \<longrightarrow> caller_at s' j C_Idle) \<and>
     (\<forall>j c. caller_at s j (C_Failed c) \<longrightarrow> caller_at s' j (C_Failed c))"

definition joined :: "client \<Rightarrow> partitioned_run \<Rightarrow> bool" where
  "joined cl r \<longleftrightarrow> list_all (\<lambda>p. points r ! p = B_Loop (cl_quota cl p)) [0..<length (points r)] \<and>
     list_all (\<lambda>x. x = C_Idle) (callers (sys r))"

inductive client_step :: "client \<Rightarrow> partitioned_run \<Rightarrow> partitioned_run \<Rightarrow> bool" for cl where
  arrive: "p < length (points r) \<Longrightarrow> points r ! p = B_New \<Longrightarrow>
    client_step cl r (r\<lparr>points := (points r)[p := B_Ready], ready := ready r + 1\<rparr>)"
| start: "ready r = cl_producers cl \<Longrightarrow> client_step cl r (r\<lparr>started := True\<rparr>)"
| begin_loop: "p < length (points r) \<Longrightarrow> points r ! p = B_Ready \<Longrightarrow> started r \<Longrightarrow>
    client_step cl r (r\<lparr>points := (points r)[p := B_Loop 0]\<rparr>)"
| enqueue: "p < length (points r) \<Longrightarrow> points r ! p = B_Loop i \<Longrightarrow> i < cl_quota cl p \<Longrightarrow>
    caller_at (sys r) p C_Idle \<Longrightarrow> cl_input cl p i d x = Some (y, ord) \<Longrightarrow> pe_enqueue y ord now = (c, blocking) \<Longrightarrow>
    client_step cl r (r\<lparr>sys := set_caller (sys r) p
        (if pe_accepting (eng (sys r)) then C_Admitted c blocking else C_Failed c),
      points := (points r)[p := B_Loop (Suc i)]\<rparr>)"
| enqueue_failed: "caller_at (sys r) p (C_Failed c) \<Longrightarrow> part_step (sys r) s' \<Longrightarrow> caller_at s' p C_Idle \<Longrightarrow>
    client_step cl r (r\<lparr>sys := s', points := (points r)[p := B_Loop (cl_quota cl p)],
      ingress_failed := True\<rparr>)"
| wait_until_idle: "joined cl r \<Longrightarrow> waiter_at (sys r) 0 I_Out \<Longrightarrow>
    client_step cl r (r\<lparr>sys := set_waiter (sys r) 0 I_Check\<rparr>)"
| engine_runs: "part_step (sys r) s' \<Longrightarrow> internal (sys r) s' \<Longrightarrow> client_step cl r (r\<lparr>sys := s'\<rparr>)"

text \<open>The check at the end.\<close>

definition client_valid :: "client \<Rightarrow> partitioned_run \<Rightarrow> bool" where
  "client_valid cl r = (let stats = pe_stats (eng (sys r)) in
     \<not> ingress_failed r \<and> ps_submitted stats = cl_total cl \<and> ps_processed stats = cl_total cl \<and>
     ps_pending stats = 0 \<and> list_all (pe_validate (eng (sys r))) (cl_symbols cl))"

text \<open>The numbers of all orders.\<close>

definition client_ids :: "client \<Rightarrow> u64 multiset" where
  "client_ids cl = (\<Sum>p < unat (cl_producers cl). mset (map (cl_number cl p) [0..<cl_quota cl p]))"

section \<open>The counters of the engine\<close>

definition unaccounted :: "owner \<Rightarrow> nat" where
  "unaccounted w = (case w of W_Account c r \<Rightarrow> 1 | _ \<Rightarrow> 0)"

definition pushed_caller :: "caller \<Rightarrow> nat" where
  "pushed_caller x = (case x of C_Pushed \<Rightarrow> 1 | _ \<Rightarrow> 0)"

definition pushing :: "system \<Rightarrow> nat" where
  "pushing s = sum_list (map pushed_caller (callers s))"

definition arrivals :: "system \<Rightarrow> nat" where
  "arrivals s = (\<Sum>i < shard_count s. length (arrived s i))"

text \<open>Submitted commands are those that arrived, up to the callers that have not yet counted theirs; processed ones are
  those executed, up to the owners that have not yet accounted for theirs.\<close>

definition stats_inv :: "system \<Rightarrow> bool" where
  "stats_inv s \<longleftrightarrow> pe_submitted (eng s) + of_nat (pushing s) = of_nat (arrivals s) \<and>
     pe_processed (eng s) + of_nat (\<Sum>i < shard_count s. unaccounted (owners s i)) =
       of_nat (\<Sum>i < shard_count s. length (executed s i))"

lemma stats_inv_same:
  assumes "stats_inv s" and "pe_submitted (eng s') = pe_submitted (eng s)" and "pe_processed (eng s') = pe_processed (eng s)"
    and "pe_shard_count (eng s') = pe_shard_count (eng s)"
    and "map pushed_caller (callers s') = map pushed_caller (callers s)" and "arrived s' = arrived s"
    and "executed s' = executed s" and "\<And>i. unaccounted (owners s' i) = unaccounted (owners s i)"
  shows "stats_inv s'"
  using assms by (simp add: stats_inv_def pushing_def arrivals_def shard_count_def)

lemma stats_inv_arrive:
  assumes "stats_inv s" and "caller_at s j x" and "pushed_caller x = 0" and "i < shard_count s"
  shows "stats_inv ((set_caller (set_queue s i q) j C_Pushed)\<lparr>arrived := (arrived s)(i := arrived s i @ [c])\<rparr>)" (is "stats_inv ?s")
proof -
  have "(\<Sum>k < shard_count s. length (((arrived s)(i := arrived s i @ [c])) k)) + length (arrived s i) =
      (\<Sum>k < shard_count s. length (arrived s k)) + length (((arrived s)(i := arrived s i @ [c])) i)"
    by (rule sum_update) (simp_all add: assms(4))
  then have "arrivals ?s = Suc (arrivals s)" by (simp add: arrivals_def set_caller_def set_queue_def set_shard_def shard_count_def)
  moreover have "pushing ?s = Suc (pushing s)"
    using sum_list_swap [of j "callers s" pushed_caller C_Pushed] assms(2,3)
    by (simp add: pushing_def set_caller_def set_queue_def set_shard_def caller_at_def pushed_caller_def)
  moreover have "pe_submitted (eng s) + of_nat (pushing s) = of_nat (arrivals s)" using assms(1) by (simp add: stats_inv_def)
  ultimately show ?thesis using assms(1)
    by (simp add: stats_inv_def system_defs shard_count_def add.commute add.left_commute)
qed

lemma stats_inv_submitted:
  assumes "stats_inv s" and "caller_at s j C_Pushed"
  shows "stats_inv (set_caller (s\<lparr>eng := (eng s)\<lparr>pe_submitted := pe_submitted (eng s) + 1\<rparr>\<rparr>) j C_Idle)" (is "stats_inv ?s")
proof -
  have "pushing s = Suc (pushing ?s)"
    using sum_list_swap [of j "callers s" pushed_caller C_Idle] assms(2)
    by (simp add: pushing_def set_caller_def caller_at_def pushed_caller_def)
  with assms(1) show ?thesis by (simp add: stats_inv_def arrivals_def set_caller_def shard_count_def add.assoc)
qed

lemma stats_inv_run:
  assumes "stats_inv s" and "i < shard_count s" and "owners s i = W_Run c"
  shows "stats_inv ((set_owner (set_shard s i sh) i (W_Account c r))\<lparr>executed := (executed s)(i := executed s i @ [(c, r)])\<rparr>)"
proof -
  let ?w = "(owners s)(i := W_Account c r)" and ?e = "(executed s)(i := executed s i @ [(c, r)])"
  have "(\<Sum>k < shard_count s. unaccounted (?w k)) + unaccounted (owners s i) = (\<Sum>k < shard_count s. unaccounted (owners s k)) + unaccounted (?w i)"
    by (rule sum_update) (simp_all add: assms(2))
  then have "(\<Sum>k < shard_count s. unaccounted (?w k)) = Suc (\<Sum>k < shard_count s. unaccounted (owners s k))"
    using assms(3) by (simp add: unaccounted_def)
  moreover have "(\<Sum>k < shard_count s. length (?e k)) + length (executed s i) = (\<Sum>k < shard_count s. length (executed s k)) + length (?e i)"
    by (rule sum_update) (simp_all add: assms(2))
  then have "(\<Sum>k < shard_count s. length (?e k)) = Suc (\<Sum>k < shard_count s. length (executed s k))" by simp
  ultimately show ?thesis using assms(1)
    unfolding stats_inv_def by (simp add: pushing_def arrivals_def set_owner_def set_shard_def shard_count_def del: of_nat_sum)
qed

lemma stats_inv_account:
  assumes "stats_inv s" and "i < shard_count s" and "owners s i = W_Account c r"
  shows "stats_inv (set_owner (s\<lparr>eng := account c r now (eng s)\<rparr>) i (W_Complete c r))"
proof -
  let ?w = "(owners s)(i := W_Complete c r)"
  have "(\<Sum>k < shard_count s. unaccounted (?w k)) + unaccounted (owners s i) = (\<Sum>k < shard_count s. unaccounted (owners s k)) + unaccounted (?w i)"
    by (rule sum_update) (simp_all add: assms(2))
  then have "(\<Sum>k < shard_count s. unaccounted (owners s k)) = Suc (\<Sum>k < shard_count s. unaccounted (?w k))"
    using assms(3) by (simp add: unaccounted_def)
  then show ?thesis using assms(1)
    unfolding stats_inv_def by (simp add: pushing_def arrivals_def set_owner_def shard_count_def account_def add.assoc del: of_nat_sum)
qed

lemma pushed_update:
  "caller_at s j x \<Longrightarrow> pushed_caller y = pushed_caller x \<Longrightarrow> map pushed_caller ((callers s)[j := y]) = map pushed_caller (callers s)"
  by (simp add: caller_at_def map_update list_update_same_conv)

lemma stats_inv_step:
  assumes "part_step s s'" and "stats_inv s" and "shards_inv s"
  shows "stats_inv s'"
  using assms
proof (induction rule: part_step.induct)
  case (push s j c q)
  then show ?case by (intro stats_inv_arrive [OF push(3,1)] shard_id_less) (simp_all add: pushed_caller_def)
next
  case (try_push s j c q)
  then show ?case by (intro stats_inv_arrive [OF try_push(3,1)] shard_id_less) (simp_all add: pushed_caller_def)
next
  case (submitted s j)
  then show ?case by (intro stats_inv_submitted)
next
  case (run i s c r sh)
  then show ?case by (intro stats_inv_run)
next
  case (account i s c r now)
  then show ?case by (intro stats_inv_account)
qed (erule stats_inv_same; simp add: system_defs pushed_update pushed_caller_def unaccounted_def caller_at_def)+

section \<open>What the program keeps\<close>

definition cmd_id :: "Command \<Rightarrow> u64" where
  "cmd_id c = o_id (c_order c)"

text \<open>The order numbers in the hands of the callers, at the shards, and of the orders a producer has begun to enqueue.\<close>

definition held :: "caller \<Rightarrow> u64 multiset" where
  "held x = (case x of C_Admitted c b \<Rightarrow> {#cmd_id c#} | C_Counted c b \<Rightarrow> {#cmd_id c#} | _ \<Rightarrow> {#})"

definition arrived_ids :: "system \<Rightarrow> u64 multiset" where
  "arrived_ids s = (\<Sum>i < shard_count s. mset (map cmd_id (arrived s i)))"

definition held_ids :: "system \<Rightarrow> u64 multiset" where
  "held_ids s = sum_list (map held (callers s))"

definition begun :: "producer_point \<Rightarrow> nat" where
  "begun x = (case x of B_Loop i \<Rightarrow> i | _ \<Rightarrow> 0)"

definition begun_ids :: "client \<Rightarrow> producer_point list \<Rightarrow> u64 multiset" where
  "begun_ids cl xs = (\<Sum>p < length xs. mset (map (cl_number cl p) [0..<begun (xs ! p)]))"

text \<open>Nobody is refused: the engine accepts commands, its queues are open, and no caller has failed.\<close>

definition served :: "caller \<Rightarrow> bool" where
  "served x = (case x of C_Idle \<Rightarrow> True | C_Admitted c b \<Rightarrow> b | C_Counted c b \<Rightarrow> b | C_Pushed \<Rightarrow> True | _ \<Rightarrow> False)"

definition serving :: "system \<Rightarrow> bool" where
  "serving s \<longleftrightarrow> closing s = S_Out \<and> pe_accepting (eng s) \<and> (\<forall>i < shard_count s. \<not> mq_closed (queue_at s i)) \<and>
     list_all served (callers s)"

lemma served_at: "caller_at s j x \<Longrightarrow> serving s \<Longrightarrow> served x"
  by (auto simp: caller_at_def serving_def list_all_length)

lemma mpmc_keeps_open:
  "mpmc_push q c = Some (b, q') \<Longrightarrow> mq_closed q' = mq_closed q"
  "mpmc_pop q = Some (x, q') \<Longrightarrow> mq_closed q' = mq_closed q"
  by (auto simp: mpmc_push_def mpmc_pop_def mpmc_store_def split: if_splits)

lemma push_accepted:
  assumes "mpmc_push (queue_at s (shard_id s c)) c = Some (b, q)" and "serving s" and "shards_inv s"
  shows b
  using assms shard_id_less [OF assms(3), of c] by (auto simp: mpmc_push_def serving_def split: if_splits)

lemma internal_no_call: "caller_at s j C_Idle \<Longrightarrow> internal s (set_caller s j x) \<Longrightarrow> x = C_Idle"
  by (auto simp: internal_def caller_at_def set_caller_def)

lemma serving_step:
  assumes "part_step s s'" and "internal s s'" and "serving s" and "shards_inv s"
  shows "serving s'"
proof -
  note served = served_at [OF _ assms(3)]
  have callers: "list_all served ((callers s)[j := x])" if "served x" for j x
    using assms(3) that by (simp add: serving_def list_all_update)
  from assms(1) show ?thesis
  proof (cases rule: part_step.cases)
    case (call j c b)
    then show ?thesis using internal_no_call assms(2) by blast
  next
    case (count j c b)
    then show ?thesis using assms(3) served [OF count(2)] callers [of "C_Counted c b" j]
      by (simp add: serving_def system_defs shard_count_def queue_at_def served_def)
  next
    case (push j c q)
    then show ?thesis using mpmc_keeps_open(1) [OF push(3)] shard_id_less [OF assms(4), of c] assms(3,4) callers [of C_Pushed j]
      by (auto simp: serving_def system_defs shard_count_def queue_at_def nth_list_update served_def shards_inv_def)
  next
    case (push_refused j c q)
    then show ?thesis using push_accepted assms(3,4) by blast
  next
    case (submitted j)
    then show ?thesis using assms(3) callers [of C_Idle j]
      by (simp add: serving_def system_defs shard_count_def queue_at_def served_def)
  next
    case (pop i c q)
    then show ?thesis using mpmc_keeps_open(2) [OF pop(4)] assms(3,4)
      by (auto simp: serving_def system_defs shard_count_def queue_at_def nth_list_update shards_inv_def)
  next
    case (pop_end i q)
    then show ?thesis using assms(3) by (auto simp: serving_def mpmc_pop_def split: if_splits)
  next
    case (run i c r sh)
    then show ?thesis using run_command_keeps [OF run(4)] assms(3,4)
      by (auto simp: serving_def system_defs shard_count_def queue_at_def nth_list_update shards_inv_def)
  qed (use assms(2,3) in \<open>auto dest: served simp: served_def serving_def internal_def system_defs shard_count_def queue_at_def\<close>)
qed

lemma held_update:
  "caller_at s j x \<Longrightarrow> sum_list (map held ((callers s)[j := y])) + held x = held_ids s + held y"
  using sum_list_swap [of j "callers s" held y] by (simp add: held_ids_def caller_at_def add.commute)

lemma ids_push:
  assumes "caller_at s j (C_Counted c b)" and "i < shard_count s"
    and s'_def: "s' = (set_caller (set_queue s i q) j C_Pushed)\<lparr>arrived := (arrived s)(i := arrived s i @ [c])\<rparr>"
  shows "arrived_ids s' + held_ids s' = arrived_ids s + held_ids s"
proof -
  have "(\<Sum>k < shard_count s. mset (map cmd_id (((arrived s)(i := arrived s i @ [c])) k))) =
      (\<Sum>k < shard_count s. mset (map cmd_id (arrived s k)) + (if k = i then {#cmd_id c#} else {#}))"
    by (intro sum.cong) simp_all
  then have "arrived_ids s' = arrived_ids s + {#cmd_id c#}"
    using assms(2) by (simp add: sum.distrib arrived_ids_def s'_def system_defs shard_count_def)
  moreover have "held_ids s' + {#cmd_id c#} = held_ids s"
    using held_update [OF assms(1), of C_Pushed] by (simp add: s'_def held_def held_ids_def [of "_\<lparr>arrived := _\<rparr>"] system_defs)
  ultimately show ?thesis by (simp add: ac_simps)
qed

lemma ids_step:
  assumes "part_step s s'" and "internal s s'" and "serving s" and "shards_inv s"
  shows "arrived_ids s' + held_ids s' = arrived_ids s + held_ids s"
proof -
  note served = served_at [OF _ assms(3)]
  from assms(1) show ?thesis
  proof (cases rule: part_step.cases)
    case (call j c b)
    then show ?thesis using internal_no_call assms(2) by blast
  next
    case (count j c b)
    then show ?thesis using held_update [OF count(2), of "C_Counted c b"]
      by (simp add: arrived_ids_def held_ids_def system_defs shard_count_def held_def)
  next
    case (push j c q)
    then show ?thesis using ids_push [OF push(2) shard_id_less [OF assms(4)] push(1)] by simp
  next
    case (push_refused j c q)
    then show ?thesis using push_accepted assms(3,4) by blast
  next
    case (submitted j)
    then show ?thesis using held_update [OF submitted(2), of C_Idle]
      by (simp add: arrived_ids_def held_ids_def system_defs shard_count_def held_def)
  qed (use assms(2,3) in \<open>auto dest: served simp: served_def serving_def internal_def system_defs shard_count_def arrived_ids_def held_ids_def\<close>)
qed

section \<open>Waiting\<close>

lemma waiters_step:
  assumes "part_step s s'"
  shows "length (waiters s') = length (waiters s) \<and>
    (waiter_at s' j I_Done \<longrightarrow> waiter_at s j I_Done \<or> pe_pending (eng s) = 0 \<and> load s' = load s)"
  using assms
  by (induction rule: part_step.induct)
    (auto simp: system_defs waiter_at_def nth_list_update load_def shard_count_def queue_at_def split: if_splits)

text \<open>An engine without callers and without load stays so.\<close>

lemma idle_step:
  assumes "part_step s s'" and "internal s s'" and "list_all (\<lambda>x. x = C_Idle) (callers s)" and "load s = 0" and "serving s"
  shows "load s' = 0"
proof -
  have idle: "caller_at s j x \<Longrightarrow> x = C_Idle" for j x using assms(3) by (auto simp: caller_at_def list_all_length)
  have owner: "busy (owners s i) = 0 \<and> buffer (queue_at s i) = []" if "i < shard_count s" for i
    using assms(4) that by (simp add: load_def)
  show ?thesis using assms(1)
  proof (cases rule: part_step.cases)
    case (pop i c q)
    then show ?thesis using owner [of i] by (auto simp: mpmc_pop_def split: if_splits)
  next
    case (pop_end i q)
    then show ?thesis using assms(5) by (auto simp: mpmc_pop_def serving_def split: if_splits)
  next
    case (finish_notify i)
    then show ?thesis using load_owner [of i "notify_idle s" W_Pop] assms(4) by (simp add: busy_def)
  next
    case (call j c b)
    then show ?thesis using assms(2) by (auto simp: internal_def caller_at_def set_caller_def)
  next
    case (run i c r sh)
    then show ?thesis using owner [of i] by (simp add: busy_def)
  next
    case (account i c r now)
    then show ?thesis using owner [of i] by (simp add: busy_def)
  next
    case (complete i c r)
    then show ?thesis using owner [of i] by (simp add: busy_def)
  next
    case (finish i)
    then show ?thesis using owner [of i] by (simp add: busy_def)
  qed (use assms(4,5) in \<open>auto dest: idle simp: serving_def\<close>)
qed

section \<open>The program's invariant\<close>

text \<open>An owner that is done running a command has executed one; so the load is never more than what arrived.\<close>

definition ran_inv :: "system \<Rightarrow> bool" where
  "ran_inv s \<longleftrightarrow> (\<forall>i. busy (owners s i) \<le> length (in_hand (owners s i)) + length (executed s i))"

lemma ran_inv_step: "part_step s s' \<Longrightarrow> ran_inv s \<Longrightarrow> ran_inv s'"
proof (induction rule: part_step.induct)
  case (account i s c r now)
  then show ?case using account(3) [unfolded ran_inv_def, rule_format, of i]
    by (simp add: ran_inv_def system_defs busy_def in_hand_def)
next
  case (complete i s c r)
  then show ?case using complete(3) [unfolded ran_inv_def, rule_format, of i]
    by (simp add: ran_inv_def system_defs busy_def in_hand_def)
qed (simp_all add: ran_inv_def system_defs busy_def in_hand_def)

lemma load_le_arrivals:
  assumes "shards_inv s" and "ran_inv s" and "list_all (\<lambda>x. x = C_Idle) (callers s)"
  shows "load s \<le> arrivals s"
proof -
  have "length (buffer (queue_at s i)) + busy (owners s i) \<le> length (arrived s i)" if "i < shard_count s" for i
  proof -
    have "arrived s i = map fst (executed s i) @ in_hand (owners s i) @ buffer (queue_at s i)"
      using shards_inv_at [OF assms(1) that] by (simp add: shard_inv_def queue_at_def)
    moreover have "busy (owners s i) \<le> length (executed s i) + length (in_hand (owners s i))"
      using assms(2) by (simp add: ran_inv_def add.commute)
    ultimately show ?thesis by simp
  qed
  then have "(\<Sum>i < shard_count s. length (buffer (queue_at s i)) + busy (owners s i)) \<le> arrivals s"
    unfolding arrivals_def by (intro sum_mono) simp
  moreover have "filter counted_caller (callers s) = []"
    using assms(3) by (auto simp: filter_empty_conv list_all_iff counted_caller_def)
  ultimately show ?thesis by (simp add: load_def)
qed

lemma size_arrived_ids: "size (arrived_ids s) = arrivals s"
  by (simp add: arrived_ids_def arrivals_def size_multiset_sum)

definition client_inv :: "client \<Rightarrow> PartitionedMatchingEngine \<Rightarrow> partitioned_run \<Rightarrow> bool" where
  "client_inv cl pe r \<longleftrightarrow> part_step\<^sup>*\<^sup>* (part_start pe (unat (cl_producers cl)) 1) (sys r) \<and>
     serving (sys r) \<and> stats_inv (sys r) \<and> ran_inv (sys r) \<and> \<not> ingress_failed r \<and>
     length (points r) = unat (cl_producers cl) \<and> length (waiters (sys r)) = 1 \<and>
     arrived_ids (sys r) + held_ids (sys r) = begun_ids cl (points r) \<and>
     (\<not> waiter_at (sys r) 0 I_Out \<longrightarrow> joined cl r) \<and> (waiter_at (sys r) 0 I_Done \<longrightarrow> load (sys r) = 0)"

lemma joined_ids:
  assumes "joined cl r" and "length (points r) = unat (cl_producers cl)"
  shows "begun_ids cl (points r) = client_ids cl"
  unfolding begun_ids_def client_ids_def by (intro sum.cong) (use assms in \<open>auto simp: joined_def list_all_iff begun_def\<close>)

lemma begun_ids_same: "map begun xs = map begun ys \<Longrightarrow> begun_ids cl xs = begun_ids cl ys"
  unfolding begun_ids_def by (intro sum.cong) (auto simp: list_eq_iff_nth_eq)

lemma begun_ids_next:
  assumes "p < length xs" and "xs ! p = B_Loop i"
  shows "begun_ids cl (xs[p := B_Loop (Suc i)]) = begun_ids cl xs + {#cl_number cl p i#}"
proof -
  have "begun_ids cl (xs[p := B_Loop (Suc i)]) =
      (\<Sum>k < length xs. mset (map (cl_number cl k) [0..<begun (xs ! k)]) + (if k = p then {#cl_number cl p i#} else {#}))"
    unfolding begun_ids_def by (intro sum.cong) (use assms in \<open>auto simp: begun_def simp del: mset_upt\<close>)
  then show ?thesis using assms(1) by (simp add: sum.distrib begun_ids_def)
qed

lemma client_inv_step:
  assumes "client_step cl r r'" and "client_inv cl pe r"
    and pe: "make_partitioned (cl_shards cl) (cl_capacity cl) default_limits 200 = Inr pe"
    and total: "size (client_ids cl) < 2 ^ 64"
    and input: "\<And>p i d x y ord. cl_input cl p i d x = Some (y, ord) \<Longrightarrow> i < cl_quota cl p \<Longrightarrow>
      o_id ord = cl_number cl p i \<and> is_i64 (o_price ord)"
  shows "client_inv cl pe r'"
proof -
  let ?s = "sys r" and ?start = "part_start pe (unat (cl_producers cl)) 1"
  note inv = assms(2) [unfolded client_inv_def]
  have "system_inv 200 ?s" using part_reachable_inv [OF pe, of _ _ ?s] inv by (auto simp: word_less_nat_alt)
  then have sh: "shards_inv ?s" and pending: "pending_inv ?s" by (simp_all add: system_inv_def)
  have idle: "joined cl r \<Longrightarrow> caller_at ?s j x \<Longrightarrow> x = C_Idle" for j x
    by (auto simp: joined_def caller_at_def list_all_length)
  have loop: "joined cl r \<Longrightarrow> p < length (points r) \<Longrightarrow> points r ! p = B_Loop (cl_quota cl p)" for p
    by (auto simp: joined_def list_all_iff)
  note reach = rtranclp.rtrancl_into_rtrancl [of part_step ?start ?s]
  show ?thesis using assms(1)
  proof (cases rule: client_step.cases)
    case (arrive p)
    then have "map begun ((points r)[p := B_Ready]) = map begun (points r)"
      by (simp add: map_update list_update_same_conv begun_def)
    moreover have "waiter_at ?s 0 I_Out" using inv loop arrive by fastforce
    ultimately show ?thesis using inv arrive begun_ids_same [of "(points r)[p := B_Ready]" "points r" cl]
      by (simp add: client_inv_def waiter_at_def)
  next
    case start
    then show ?thesis using inv by (auto simp: client_inv_def joined_def)
  next
    case (begin_loop p)
    then have "map begun ((points r)[p := B_Loop 0]) = map begun (points r)"
      by (simp add: map_update list_update_same_conv begun_def)
    moreover have "waiter_at ?s 0 I_Out" using inv loop begin_loop by fastforce
    ultimately show ?thesis using inv begin_loop begun_ids_same [of "(points r)[p := B_Loop 0]" "points r" cl]
      by (simp add: client_inv_def waiter_at_def)
  next
    case (enqueue p i d x y ord now c b)
    let ?s' = "set_caller ?s p (C_Admitted c b)"
    have acc: "pe_accepting (eng ?s)" using inv by (simp add: serving_def)
    have c: "c_type c = NEW_ORDER" "cmd_id c = cl_number cl p i" "b" "c_order c = ord"
      using enqueue(7) input [OF enqueue(6,4)] by (auto simp: pe_enqueue_def order_command_def cmd_id_def)
    then have step: "part_step ?s ?s'"
      using part_step.call [OF enqueue(5) acc] input [OF enqueue(6,4)]
      by (simp add: command_valid_def engine_command_def)
    have "waiter_at ?s 0 I_Out" using inv loop [OF _ enqueue(2)] enqueue(3,4) by fastforce
    then have w: "waiter_at ?s' 0 I_Out" by (simp add: waiter_at_def set_caller_def)
    have "serving ?s'" using inv c(3) by (simp add: serving_def set_caller_def list_all_update served_def shard_count_def queue_at_def)
    moreover have "arrived_ids ?s' + held_ids ?s' = arrived_ids ?s + held_ids ?s + {#cl_number cl p i#}"
      using held_update [OF enqueue(5), of "C_Admitted c b"] c(2)
      by (simp add: held_ids_def [of "_\<lparr>callers := _\<rparr>"] arrived_ids_def held_def set_caller_def shard_count_def)
    ultimately show ?thesis
      using inv reach [OF _ step] stats_inv_step [OF step _ sh] ran_inv_step [OF step] begun_ids_next [OF enqueue(2,3), of cl] w acc enqueue(1)
      by (simp add: client_inv_def) (simp add: waiter_at_def set_caller_def)
  next
    case (enqueue_failed p c s')
    then show ?thesis using served_at [of ?s p] inv by (fastforce simp: served_def)
  next
    case wait_until_idle
    have step: "part_step ?s (set_waiter ?s 0 I_Check)" by (rule part_step.wait) (rule wait_until_idle)
    then show ?thesis using inv reach [OF _ step] stats_inv_step [OF step _ sh] ran_inv_step [OF step] wait_until_idle
      by (simp add: client_inv_def joined_def serving_def set_waiter_def waiter_at_def arrived_ids_def held_ids_def shard_count_def queue_at_def)
  next
    case (engine_runs s')
    have n: "length (callers s') = length (callers ?s)" using part_constants [of ?s s'] engine_runs(2) by blast
    have j: "joined cl (r\<lparr>sys := s'\<rparr>)" if "joined cl r"
      using that engine_runs(3) n by (auto simp: joined_def list_all_length internal_def caller_at_def)
    have "load s' = 0" if "waiter_at s' 0 I_Done"
    proof (cases "waiter_at ?s 0 I_Done")
      case True
      then have "joined cl r" "load ?s = 0" using inv by (auto simp: waiter_at_def)
      then show ?thesis using idle_step [OF engine_runs(2,3)] inv by (simp add: joined_def)
    next
      case False
      then have l: "pe_pending (eng ?s) = 0" "load s' = load ?s" using waiters_step [OF engine_runs(2), of 0] that by auto
      have jo: "joined cl r" using inv engine_runs(3) that by (auto simp: internal_def waiter_at_def)
      then have "load ?s \<le> arrivals ?s" using load_le_arrivals sh inv by (simp add: joined_def)
      also have "arrivals ?s \<le> size (begun_ids cl (points r))"
        using inv by (metis size_arrived_ids size_union le_add1)
      also have "size (begun_ids cl (points r)) = size (client_ids cl)" using joined_ids [OF jo] inv by simp
      finally have "load ?s < 2 ^ 64" using total by simp
      from unat_of_nat_u64 [OF this] show ?thesis using pending l by (simp add: pending_inv_def)
    qed
    then show ?thesis
      using inv reach [OF _ engine_runs(2)] stats_inv_step [OF engine_runs(2) _ sh] ran_inv_step [OF engine_runs(2)] serving_step [OF engine_runs(2,3) _ sh]
        ids_step [OF engine_runs(2,3) _ sh] waiters_step [OF engine_runs(2), of 0] j engine_runs(1,3)
      by (auto simp: client_inv_def internal_def)
  qed
qed

lemma sum_list_zeros: "sum_list (replicate n 0) = (0 :: 'a :: comm_monoid_add)"
  by (induction n) simp_all

lemma client_start_inv:
  assumes "client_start cl = Some r0"
  obtains pe where "make_partitioned (cl_shards cl) (cl_capacity cl) default_limits 200 = Inr pe" "client_inv cl pe r0"
proof -
  from assms obtain pe where pe: "make_partitioned (cl_shards cl) (cl_capacity cl) default_limits 200 = Inr pe"
    and r0: "r0 = \<lparr>sys = part_start pe (unat (cl_producers cl)) 1,
       points = replicate (unat (cl_producers cl)) B_New, ready = 0, started = False, ingress_failed = False\<rparr>"
    by (auto simp: client_start_def split: sum.splits)
  have "pe_submitted pe = 0" using pe by (auto simp: make_partitioned_def split: if_splits sum.splits)
  moreover have "\<not> mq_closed (sh_queue (pe_shards pe ! i))" if "i < unat (cl_shards cl)" for i
    using make_partitioned_ok [OF pe] that by (metis nth_mem)
  ultimately have "client_inv cl pe r0"
    using make_partitioned_ok [OF pe]
    by (auto simp: client_inv_def r0 part_start_def serving_def stats_inv_def ran_inv_def busy_def pushing_def arrivals_def
        pushed_caller_def unaccounted_def served_def shard_count_def queue_at_def list_all_length arrived_ids_def held_ids_def
        held_def begun_ids_def begun_def waiter_at_def sum_list_zeros)
  with pe show thesis by (rule that)
qed

lemma client_reachable_inv:
  assumes "(client_step cl)\<^sup>*\<^sup>* r0 r" and "client_inv cl pe r0"
    and "make_partitioned (cl_shards cl) (cl_capacity cl) default_limits 200 = Inr pe"
    and "size (client_ids cl) < 2 ^ 64"
    and "\<And>p i d x y ord. cl_input cl p i d x = Some (y, ord) \<Longrightarrow> i < cl_quota cl p \<Longrightarrow>
      o_id ord = cl_number cl p i \<and> is_i64 (o_price ord)"
  shows "client_inv cl pe r"
  using assms(1,2) by (induction rule: rtranclp_induct) (simp_all add: client_inv_step [OF _ _ assms(3,4,5)])

section \<open>The verdict\<close>

lemma unaccounted_busy: "busy w = 0 \<Longrightarrow> unaccounted w = 0"
  by (cases w) (simp_all add: busy_def unaccounted_def)

lemma finished_counts:
  assumes "client_inv cl pe r" and "shards_inv (sys r)" and "waiter_at (sys r) 0 I_Done"
  shows "arrived_ids (sys r) = client_ids cl"
    "pe_submitted (eng (sys r)) = of_nat (size (client_ids cl))" "pe_processed (eng (sys r)) = of_nat (size (client_ids cl))"
proof -
  let ?s = "sys r"
  note inv = assms(1) [unfolded client_inv_def]
  have j: "joined cl r" and load: "load ?s = 0" using inv assms(3) by (auto simp: waiter_at_def)
  then have idle: "list_all (\<lambda>x. x = C_Idle) (callers ?s)" by (simp add: joined_def)
  have "held_ids ?s = {#}" "pushing ?s = 0"
    unfolding held_ids_def pushing_def
    by (rule sum_list_all_zero; use idle in \<open>auto simp: list_all_iff held_def pushed_caller_def\<close>)+
  with inv joined_ids [OF j] show ids: "arrived_ids ?s = client_ids cl" by simp
  then have a: "arrivals ?s = size (client_ids cl)" by (metis size_arrived_ids)
  with inv \<open>pushing ?s = 0\<close> show "pe_submitted (eng ?s) = of_nat (size (client_ids cl))" by (simp add: stats_inv_def)
  have "(\<Sum>i < shard_count ?s. unaccounted (owners ?s i)) = 0"
    using no_load_executed [OF assms(2) load] unaccounted_busy by (intro sum.neutral) simp
  moreover have "(\<Sum>i < shard_count ?s. length (executed ?s i)) = arrivals ?s"
    unfolding arrivals_def by (intro sum.cong) (use no_load_executed [OF assms(2) load] in auto)
  ultimately show "pe_processed (eng ?s) = of_nat (size (client_ids cl))" using inv a by (simp add: stats_inv_def)
qed

section \<open>A schedule\<close>

text \<open>Runs are computed from schedules: which thread moves next, and what a producer draws.\<close>

datatype client_event = Arrive nat | Start | Begin nat | Enqueue nat feed_draw Symbol | Caller nat | Owner nat | Wait

definition engine_move :: "system \<Rightarrow> client_event \<Rightarrow> system option" where
  "engine_move s m = (case m of
     Caller j \<Rightarrow>
       if j < length (callers s) then
         (case callers s ! j of
            C_Admitted c b \<Rightarrow> Some (set_caller (s\<lparr>eng := (eng s)\<lparr>pe_pending := pe_pending (eng s) + 1\<rparr>\<rparr>) j (C_Counted c b))
          | C_Counted c b \<Rightarrow>
              if b then
                (case mpmc_push (queue_at s (shard_id s c)) c of
                   Some (True, q) \<Rightarrow> Some ((set_caller (set_queue s (shard_id s c) q) j C_Pushed)
                     \<lparr>arrived := (arrived s)(shard_id s c := arrived s (shard_id s c) @ [c])\<rparr>)
                 | _ \<Rightarrow> None)
              else None
          | C_Pushed \<Rightarrow> Some (set_caller (s\<lparr>eng := (eng s)\<lparr>pe_submitted := pe_submitted (eng s) + 1\<rparr>\<rparr>) j C_Idle)
          | _ \<Rightarrow> None)
       else None
   | Owner i \<Rightarrow>
       if i < shard_count s then
         (case owners s i of
            W_Pop \<Rightarrow> (case mpmc_pop (queue_at s i) of
              Some (Some c, q) \<Rightarrow> Some (set_owner (set_queue s i q) i (W_Run c)) | _ \<Rightarrow> None)
          | W_Run c \<Rightarrow> (case run_command (pe_risk_limits (eng s)) c (pe_shards (eng s) ! i) of
              Some (r, sh) \<Rightarrow> Some ((set_owner (set_shard s i sh) i (W_Account c r))
                \<lparr>executed := (executed s)(i := executed s i @ [(c, r)])\<rparr>)
            | None \<Rightarrow> None)
          | W_Account c r \<Rightarrow> Some (set_owner (s\<lparr>eng := account c r 0 (eng s)\<rparr>) i (W_Complete c r))
          | W_Complete c r \<Rightarrow> Some (set_owner (complete s c r) i W_Finish)
          | W_Finish \<Rightarrow> Some (set_owner (finish_pending s) i (if fst (finishOnePending (eng s)) then W_Notify else W_Pop))
          | W_Notify \<Rightarrow> Some (set_owner (notify_idle s) i W_Pop)
          | W_Done \<Rightarrow> None)
       else None
   | Wait \<Rightarrow> if waiter_at s 0 I_Check \<and> pe_pending (eng s) = 0 then Some (set_waiter s 0 I_Done) else None
   | _ \<Rightarrow> None)"

lemma engine_move_step:
  assumes "engine_move s m = Some s'"
  shows "part_step s s' \<and> internal s s'"
proof (cases m)
  case (Caller j)
  then show ?thesis using assms
    by (auto simp: engine_move_def caller_at_def split: if_splits caller.splits option.splits bool.splits
        intro!: part_step.count part_step.push part_step.submitted)
      (auto simp: internal_def system_defs waiter_at_def caller_at_def nth_list_update)
next
  case (Owner i)
  then show ?thesis using assms part_step.finish [of i s]
    by (auto simp: engine_move_def split: if_splits owner.splits option.splits
        intro: part_step.pop part_step.run part_step.account part_step.complete part_step.finish part_step.finish_notify)
      (auto simp: internal_def system_defs waiter_at_def caller_at_def)
next
  case Wait
  then show ?thesis using assms
    by (auto simp: engine_move_def split: if_splits intro: part_step.wait_idle)
      (auto simp: internal_def system_defs waiter_at_def caller_at_def nth_list_update)
qed (use assms in \<open>simp_all add: engine_move_def\<close>)

definition client_move :: "client \<Rightarrow> client_event \<Rightarrow> partitioned_run \<Rightarrow> partitioned_run option" where
  "client_move cl m r = (case m of
     Arrive p \<Rightarrow> if p < length (points r) \<and> points r ! p = B_New
       then Some (r\<lparr>points := (points r)[p := B_Ready], ready := ready r + 1\<rparr>) else None
   | Start \<Rightarrow> if ready r = cl_producers cl then Some (r\<lparr>started := True\<rparr>) else None
   | Begin p \<Rightarrow> if p < length (points r) \<and> points r ! p = B_Ready \<and> started r
       then Some (r\<lparr>points := (points r)[p := B_Loop 0]\<rparr>) else None
   | Enqueue p d x \<Rightarrow>
       if p < length (points r) \<and> caller_at (sys r) p C_Idle then
         (case points r ! p of
            B_Loop i \<Rightarrow>
              (case cl_input cl p i d x of
                 Some (y, ord) \<Rightarrow>
                   if i < cl_quota cl p then
                     (let (c, blocking) = pe_enqueue y ord 0
                      in Some (r\<lparr>sys := set_caller (sys r) p (if pe_accepting (eng (sys r)) then C_Admitted c blocking else C_Failed c),
                        points := (points r)[p := B_Loop (Suc i)]\<rparr>))
                   else None
               | None \<Rightarrow> None)
          | _ \<Rightarrow> None)
       else None
   | Wait \<Rightarrow> if joined cl r \<and> waiter_at (sys r) 0 I_Out then Some (r\<lparr>sys := set_waiter (sys r) 0 I_Check\<rparr>)
       else map_option (\<lambda>s. r\<lparr>sys := s\<rparr>) (engine_move (sys r) m)
   | _ \<Rightarrow> map_option (\<lambda>s. r\<lparr>sys := s\<rparr>) (engine_move (sys r) m))"

lemma client_move_step:
  assumes "client_move cl m r = Some r'"
  shows "client_step cl r r'"
proof (cases m)
  case (Enqueue p d x)
  then obtain i y ord c b where "points r ! p = B_Loop i" "i < cl_quota cl p" "cl_input cl p i d x = Some (y, ord)"
    "pe_enqueue y ord 0 = (c, b)" "p < length (points r)" "caller_at (sys r) p C_Idle"
    "r' = r\<lparr>sys := set_caller (sys r) p (if pe_accepting (eng (sys r)) then C_Admitted c b else C_Failed c),
        points := (points r)[p := B_Loop (Suc i)]\<rparr>"
    using assms by (auto simp: client_move_def split: producer_point.splits if_splits prod.splits option.splits)
  then show ?thesis using client_step.enqueue [of p r i cl d x y ord 0 c b] by simp
qed (use assms in \<open>auto simp: client_move_def split: if_splits intro: client_step.arrive client_step.start
    client_step.begin_loop client_step.wait_until_idle client_step.engine_runs dest: engine_move_step\<close>)

fun client_moves :: "client \<Rightarrow> client_event list \<Rightarrow> partitioned_run \<Rightarrow> partitioned_run option" where
  "client_moves cl [] r = Some r"
| "client_moves cl (m # ms) r = (case client_move cl m r of None \<Rightarrow> None | Some r' \<Rightarrow> client_moves cl ms r')"

lemma client_moves_run: "client_moves cl ms r = Some r' \<Longrightarrow> (client_step cl)\<^sup>*\<^sup>* r r'"
  by (induction ms arbitrary: r) (auto split: option.splits dest!: client_move_step intro: converse_rtranclp_into_rtranclp)

section \<open>Every such program validates its run\<close>

text \<open>What a program promises: for valid settings the engine can be made, an order has its number and a price in
  range, and the numbers are those from 1 on.\<close>

locale numbered_clients =
  fixes client_of :: "'a \<Rightarrow> client" and valid :: "'a \<Rightarrow> bool"
  assumes engine_made: "valid a \<Longrightarrow>
      \<exists>pe. make_partitioned (cl_shards (client_of a)) (cl_capacity (client_of a)) default_limits 200 = Inr pe"
    and input_numbered: "valid a \<Longrightarrow> cl_input (client_of a) p i d x = Some (y, ord) \<Longrightarrow> i < cl_quota (client_of a) p \<Longrightarrow>
      o_id ord = cl_number (client_of a) p i \<and> is_i64 (o_price ord)"
    and all_numbers: "valid a \<Longrightarrow> client_ids (client_of a) = mset (map of_nat [1..<Suc (unat (cl_total (client_of a)))])"
begin

text \<open>When waiting has ended, the validation passes and every order was executed exactly once.\<close>

lemma run_verdict:
  assumes "valid a" and "unat (cl_total (client_of a)) \<le> 2 ^ 32"
  shows "\<exists>r0. client_start (client_of a) = Some r0 \<and>
    (\<forall>r. (client_step (client_of a))\<^sup>*\<^sup>* r0 r \<and> waiter_at (sys r) 0 I_Done \<longrightarrow> client_valid (client_of a) r \<and>
      (\<Sum>i < shard_count (sys r). mset (map (cmd_id \<circ> fst) (executed (sys r) i))) =
        mset (map of_nat [1..<Suc (unat (cl_total (client_of a)))]))"
proof -
  let ?cl = "client_of a"
  from engine_made [OF assms(1)] obtain r0 where r0: "client_start ?cl = Some r0" by (auto simp: client_start_def)
  have size: "size (client_ids ?cl) = unat (cl_total ?cl)" using all_numbers [OF assms(1)] by (simp del: upt_Suc)
  then have total: "size (client_ids ?cl) < 2 ^ 64" using assms(2) by simp
  from client_start_inv [OF r0] obtain pe where
    pe: "make_partitioned (cl_shards ?cl) (cl_capacity ?cl) default_limits 200 = Inr pe" and "client_inv ?cl pe r0" .
  have "client_valid ?cl r \<and> (\<Sum>i < shard_count (sys r). mset (map (cmd_id \<circ> fst) (executed (sys r) i))) = client_ids ?cl"
    if "(client_step ?cl)\<^sup>*\<^sup>* r0 r" and w: "waiter_at (sys r) 0 I_Done" for r
  proof -
    have inv: "client_inv ?cl pe r"
      by (rule client_reachable_inv [OF that(1) _ pe total input_numbered [OF assms(1)]]) fact
    then have "system_inv 200 (sys r)"
      using part_reachable_inv [OF pe, of _ _ "sys r"] by (auto simp: client_inv_def word_less_nat_alt)
    then have sh: "shards_inv (sys r)" and pending: "pending_inv (sys r)" by (simp_all add: system_inv_def)
    have load: "load (sys r) = 0" using inv w by (simp add: client_inv_def)
    note counts = finished_counts [OF inv sh w]
    have a: "arrivals (sys r) \<le> 2 ^ 32" using arg_cong [OF counts(1), of size] assms(2) size by (simp add: size_arrived_ids)
    have "length (arrived (sys r) i) \<le> arrivals (sys r)" if "i < shard_count (sys r)" for i
      unfolding arrivals_def by (rule member_le_sum) (use that in simp_all)
    then have "list_all (pe_validate (eng (sys r))) (cl_symbols ?cl)"
      using books_validate [OF sh] a by (meson list_all_iff order_trans)
    moreover have "arrived_ids (sys r) = (\<Sum>i < shard_count (sys r). mset (map (cmd_id \<circ> fst) (executed (sys r) i)))"
      unfolding arrived_ids_def by (intro sum.cong) (use no_load_executed [OF sh load] in simp_all)
    moreover have "pe_pending (eng (sys r)) = 0" using pending load by (simp add: pending_inv_def)
    moreover have "pe_submitted (eng (sys r)) = cl_total ?cl" "pe_processed (eng (sys r)) = cl_total ?cl"
      using counts(2,3) size by simp_all
    ultimately show ?thesis
      using counts(1) inv by (simp add: client_valid_def pe_stats_def Let_def client_inv_def)
  qed
  with r0 all_numbers [OF assms(1)] show ?thesis by auto
qed

end

end
