(* ===== verification/Partitioned_Program.thy ===== *)
theory Partitioned_Program
  imports Partitioned_Client
begin

text \<open>
  The program of the partitioned engine, as a program of the form of \<open>Partitioned_Client\<close>: its producers have equal
  numbers of orders, drawn as they go.
\<close>

section \<open>Orders\<close>

definition partitioned_symbols :: "Symbol list" where
  "partitioned_symbols = map (\<lambda>t. make_symbol (Some t))
     [''AAPL'', ''MSFT'', ''GOOG'', ''AMZN'', ''TSLA'', ''NVDA'', ''META'', ''ORCL'']"

text \<open>What the distributions of \<open>generateOrder\<close> can give.\<close>

definition partitioned_draw :: "feed_draw \<Rightarrow> bool" where
  "partitioned_draw d \<longleftrightarrow> fd_side d \<le> 1 \<and> 9950 \<le> fd_price d \<and> fd_price d \<le> 10050 \<and>
     1 \<le> fd_quantity d \<and> fd_quantity d \<le> 250 \<and> fd_policy d \<le> 99"

definition generateOrder :: "u64 \<Rightarrow> feed_draw \<Rightarrow> bool \<Rightarrow> Order" where
  "generateOrder i d advanced =
     (let ord = default_order\<lparr>o_id := i, o_side := (if fd_side d = 0 then BUY else SELL), o_type := LIMIT,
        o_time_in_force := GTC, o_price := fd_price d, o_quantity := fd_quantity d\<rparr>
      in if \<not> advanced then ord
         else if fd_policy d < 5 then ord\<lparr>o_type := MARKET, o_time_in_force := IOC, o_price := 0\<rparr>
         else if fd_policy d < 15 then ord\<lparr>o_time_in_force := IOC\<rparr>
         else if fd_policy d < 20 then ord\<lparr>o_time_in_force := FOK\<rparr>
         else if fd_policy d < 25 then ord\<lparr>o_flags := flag_POST_ONLY\<rparr>
         else ord)"

text \<open>The number of the \<open>i\<close>-th order of a producer, and of all orders.\<close>

definition order_number :: "PartitionedArgs \<Rightarrow> nat \<Rightarrow> nat \<Rightarrow> u64" where
  "order_number args producer_index i =
     (let id_base = of_nat producer_index * pa_orders_per_producer args + 1 in id_base + of_nat i)"

definition total_orders :: "PartitionedArgs \<Rightarrow> u64" where
  "total_orders args = pa_producers args * pa_orders_per_producer args"

section \<open>The program\<close>

definition partitioned_input :: "PartitionedArgs \<Rightarrow> nat \<Rightarrow> nat \<Rightarrow> feed_draw \<Rightarrow> Symbol \<Rightarrow> (Symbol \<times> Order) option" where
  "partitioned_input args producer_index i d symbol =
     (if partitioned_draw d \<and> symbol \<in> set partitioned_symbols
      then Some (symbol, generateOrder (order_number args producer_index i) d (pa_advanced_orders args)) else None)"

definition partitioned_client :: "PartitionedArgs \<Rightarrow> client" where
  "partitioned_client args = \<lparr>cl_shards = pa_shards args, cl_capacity = pa_queue_capacity args, cl_producers = pa_producers args,
     cl_quota = (\<lambda>producer_index. unat (pa_orders_per_producer args)), cl_number = order_number args,
     cl_input = partitioned_input args, cl_total = total_orders args, cl_symbols = partitioned_symbols\<rparr>"

definition program_start :: "PartitionedArgs \<Rightarrow> partitioned_run option" where
  "program_start args = client_start (partitioned_client args)"

definition program_step :: "PartitionedArgs \<Rightarrow> partitioned_run \<Rightarrow> partitioned_run \<Rightarrow> bool" where
  "program_step args = client_step (partitioned_client args)"

definition invariants_ok :: "PartitionedArgs \<Rightarrow> partitioned_run \<Rightarrow> bool" where
  "invariants_ok args r = client_valid (partitioned_client args) r"

definition exit_status :: "PartitionedArgs \<Rightarrow> partitioned_run \<Rightarrow> int" where
  "exit_status args r = (if invariants_ok args r then 0 else 2)"

section \<open>Its orders are numbered\<close>

lemma generateOrder_id [simp]: "o_id (generateOrder i d advanced) = i"
  by (simp add: generateOrder_def Let_def)

lemma generateOrder_valid: "partitioned_draw d \<Longrightarrow> is_i64 (o_price (generateOrder i d advanced))"
  by (auto simp: generateOrder_def partitioned_draw_def is_i64_def Let_def)

lemma order_numbers: "map (order_number args p) [0..<unat (pa_orders_per_producer args)] =
    map of_nat [p * unat (pa_orders_per_producer args) + 1..<Suc p * unat (pa_orders_per_producer args) + 1]"
  by (rule nth_equalityI) (simp_all add: order_number_def Let_def add.commute del: upt_Suc)

lemma all_order_numbers:
  "(\<Sum>p < m. mset (map (order_number args p) [0..<unat (pa_orders_per_producer args)])) =
    mset (map of_nat [1..<Suc (m * unat (pa_orders_per_producer args))])"
proof (induction m)
  case (Suc m)
  let ?n = "unat (pa_orders_per_producer args)"
  have "[1..<Suc (Suc m * ?n)] = [1..<Suc (m * ?n)] @ [m * ?n + 1..<Suc m * ?n + 1]"
    using upt_add_eq_append [of 1 "Suc (m * ?n)" ?n] by (simp add: add.commute)
  then have "mset (map of_nat [1..<Suc (Suc m * ?n)]) =
      mset (map (of_nat :: nat \<Rightarrow> u64) [1..<Suc (m * ?n)]) + mset (map of_nat [m * ?n + 1..<Suc m * ?n + 1])"
    by (simp only: map_append mset_append)
  then show ?case unfolding order_numbers [symmetric] by (simp only: sum.lessThan_Suc Suc.IH)
qed simp

definition partitioned_valid :: "PartitionedArgs \<Rightarrow> bool" where
  "partitioned_valid args \<longleftrightarrow> pa_queue_capacity args \<noteq> 0 \<and> pa_shards args \<noteq> 0 \<and> pa_shards args AND (pa_shards args - 1) = 0 \<and>
     unat (pa_producers args) * unat (pa_orders_per_producer args) < 2 ^ 64"

lemma partitioned_args_valid:
  assumes "parseArgs_partitioned argv = Inr args"
  shows "partitioned_valid args"
proof -
  have f: "pa_producers args \<noteq> 0" "pa_queue_capacity args \<noteq> 0" "pa_shards args \<noteq> 0"
    "pa_shards args AND (pa_shards args - 1) = 0" "pa_orders_per_producer args \<le> 0xFFFFFFFFFFFFFFFF div pa_producers args"
    using assms by (auto simp: parseArgs_partitioned_def not_less split: sum.splits if_splits)
  then have "unat (pa_orders_per_producer args) \<le> 0xFFFFFFFFFFFFFFFF div unat (pa_producers args)"
    by (simp add: word_le_nat_alt unat_div_distrib)
  then have "unat (pa_orders_per_producer args) * unat (pa_producers args) \<le> 0xFFFFFFFFFFFFFFFF"
    using f(1) by (subst (asm) less_eq_div_iff_mult_less_eq) (simp_all add: unat_gt_0)
  with f show ?thesis by (simp add: partitioned_valid_def mult.commute)
qed

lemma unat_total_orders:
  "partitioned_valid args \<Longrightarrow> unat (total_orders args) = unat (pa_producers args) * unat (pa_orders_per_producer args)"
  using unat_of_nat_u64 [of "unat (pa_producers args) * unat (pa_orders_per_producer args)"]
  by (simp add: partitioned_valid_def total_orders_def)

interpretation program: numbered_clients partitioned_client partitioned_valid
proof
  fix args p i d x y ord
  assume valid: "partitioned_valid args"
  then show "\<exists>pe. make_partitioned (cl_shards (partitioned_client args)) (cl_capacity (partitioned_client args)) default_limits 200 = Inr pe"
    by (simp add: partitioned_valid_def partitioned_client_def make_partitioned_def mpmc_make_def)
  show "o_id ord = cl_number (partitioned_client args) p i \<and> is_i64 (o_price ord)"
    if "cl_input (partitioned_client args) p i d x = Some (y, ord)"
    using that generateOrder_valid by (auto simp: partitioned_client_def partitioned_input_def split: if_splits)
  show "client_ids (partitioned_client args) = mset (map of_nat [1..<Suc (unat (cl_total (partitioned_client args)))])"
    using all_order_numbers [of args "unat (pa_producers args)"] unat_total_orders [OF valid]
    by (simp add: client_ids_def partitioned_client_def del: upt_Suc)
qed

section \<open>The verdict\<close>

text \<open>C35: the program validates its run. For every command line it accepts, with up to \<open>2\<^sup>3\<^sup>2\<close> orders in all, the
  program starts; and whatever the draws and the interleaving, when \<open>waitUntilIdle\<close> returns, no producer was
  refused, the counters show every order submitted and processed and none pending, every book passes its
  self-check, so the exit status is zero; and the orders executed are those numbered from 1 on, each exactly once.\<close>

theorem partitioned_validation_passes:
  assumes "parseArgs_partitioned argv = Inr args"
    and "unat (pa_producers args) * unat (pa_orders_per_producer args) \<le> 2 ^ 32"
  shows "\<exists>r0. program_start args = Some r0 \<and>
    (\<forall>r. (program_step args)\<^sup>*\<^sup>* r0 r \<and> waiter_at (sys r) 0 I_Done \<longrightarrow> exit_status args r = 0 \<and>
      (\<Sum>i < shard_count (sys r). mset (map (cmd_id \<circ> fst) (executed (sys r) i))) =
        mset (map of_nat [1..<Suc (unat (total_orders args))]))"
proof -
  note valid = partitioned_args_valid [OF assms(1)]
  have total: "cl_total (partitioned_client args) = total_orders args" by (simp add: partitioned_client_def)
  have "unat (total_orders args) \<le> 2 ^ 32" unfolding unat_total_orders [OF valid] by (rule assms(2))
  from program.run_verdict [OF valid, unfolded total, OF this] show ?thesis
    unfolding program_start_def program_step_def exit_status_def invariants_ok_def by (metis (full_types))
qed

section \<open>Witness\<close>

text \<open>Two producers with one order each, for one shard.\<close>

definition two_producers :: PartitionedArgs where
  "two_producers = default_partitioned_args\<lparr>pa_producers := 2, pa_shards := 1, pa_orders_per_producer := 1\<rparr>"

definition two_orders :: "client_event list" where
  "two_orders = [Arrive 1, Arrive 0, Start, Begin 0, Begin 1,
     Enqueue 1 steady_draw (make_symbol (Some ''MSFT'')), Caller 1, Caller 1,
     Enqueue 0 (steady_draw\<lparr>fd_side := 1\<rparr>) (make_symbol (Some ''MSFT'')), Caller 0, Caller 0, Caller 1, Caller 0] @
     replicate 5 (Owner 0) @ [Wait] @ replicate 6 (Owner 0) @ [Wait]"

lemma two_producers_parsed:
  "parseArgs_partitioned [''--producers'', ''2'', ''--shards'', ''1'', ''--orders-per-producer'', ''1''] = Inr two_producers"
proof -
  have "parseSize ''2'' flag = Inr 2" "parseSize ''1'' flag = Inr 1" for flag
    by (simp_all add: parseSize_def parseU64_partitioned_def strtoull_def sign_def is_space_def is_digit_def char_code_def
        decimal_def word_less_nat_alt)
  then show ?thesis
    by (simp add: parseArgs_partitioned_def partitioned_arg_def with_value_def default_partitioned_args_def two_producers_def
        word_less_nat_alt unat_div_distrib)
qed

lemma two_orders_finish:
  "(case program_start two_producers of None \<Rightarrow> False | Some r0 \<Rightarrow>
     (case client_moves (partitioned_client two_producers) two_orders r0 of None \<Rightarrow> False | Some r \<Rightarrow>
       waiter_at (sys r) 0 I_Done \<and> length (concat (map (res_trades \<circ> snd) (executed (sys r) 0))) = 1))"
  by code_simp

theorem partitioned_validation_passes_witness:
  "\<exists>r0 r. program_start two_producers = Some r0 \<and> (program_step two_producers)\<^sup>*\<^sup>* r0 r \<and> waiter_at (sys r) 0 I_Done \<and>
    exit_status two_producers r = 0"
proof -
  from two_orders_finish obtain r0 r where r: "program_start two_producers = Some r0"
    "client_moves (partitioned_client two_producers) two_orders r0 = Some r" "waiter_at (sys r) 0 I_Done"
    by (auto split: option.splits)
  moreover have "unat (pa_producers two_producers) * unat (pa_orders_per_producer two_producers) \<le> 2 ^ 32"
    by (simp add: two_producers_def)
  ultimately show ?thesis
    using partitioned_validation_passes [OF two_producers_parsed] client_moves_run [OF r(2)] by (auto simp: program_step_def)
qed

end
