(* ===== verification/Fuzz_Target.thy ===== *)
theory Fuzz_Target
  imports Engine_Properties Journal_Codec "HOL-Library.Monad_Syntax"
begin

text \<open>
  The fuzz target: bytes of any kind are cut into commands for one engine, and the program aborts if
  the book's self-check ever fails. Here no input makes it abort, and none makes it read outside its input.
\<close>

unbundle bit_operations_syntax

text \<open>A read outside the input is \<open>None\<close>.\<close>

definition read_byte :: "bytes \<Rightarrow> nat \<Rightarrow> u8 option" where
  "read_byte data p = (if p < length data then Some (data ! p) else None)"

definition readU64 :: "bytes \<Rightarrow> nat \<Rightarrow> u64 option" where
  "readU64 data p = fold (\<lambda>i acc. do { v \<leftarrow> acc; b \<leftarrow> read_byte data (p + i); Some (v OR push_bit (8 * i) (ucast b)) })
     [0..<8] (Some 0)"

definition readU32 :: "bytes \<Rightarrow> nat \<Rightarrow> u32 option" where
  "readU32 data p = fold (\<lambda>i acc. do { v \<leftarrow> acc; b \<leftarrow> read_byte data (p + i); Some (v OR push_bit (8 * i) (ucast b)) })
     [0..<4] (Some 0)"

definition kCommandBytes :: nat where "kCommandBytes = 24"
definition kMaxCommands :: nat where "kMaxCommands = 2048"

definition fuzz_order :: "bytes \<Rightarrow> nat \<Rightarrow> u64 \<Rightarrow> Order option" where
  "fuzz_order data p i = do {
     b9 \<leftarrow> read_byte data (p + 9);
     b10 \<leftarrow> read_byte data (p + 10);
     b11 \<leftarrow> read_byte data (p + 11);
     b12 \<leftarrow> read_byte data (p + 12);
     raw_price \<leftarrow> readU64 data (p + 13);
     quantity \<leftarrow> readU32 data (p + 20);
     let price = sint (raw_price AND 0x7FFFFFFF);
     Some (default_order\<lparr>o_id := i, o_side := Side_of_byte (b9 AND 3), o_type := OrderType_of_byte (b10 AND 3),
       o_time_in_force := TimeInForce_of_byte (b11 AND 3), o_flags := b12 AND 7,
       o_price := (if b9 AND 0x80 \<noteq> 0 then - price else price), o_quantity := quantity\<rparr>)
   }"

text \<open>One command; the result is the engine after it, \<open>None\<close> for undefined behaviour.\<close>

definition fuzz_command :: "bytes \<Rightarrow> nat \<Rightarrow> MatchingEngine \<Rightarrow> MatchingEngine option" where
  "fuzz_command data p e = do {
     opcode \<leftarrow> read_byte data p;
     i \<leftarrow> readU64 data (p + 1);
     if opcode AND 7 = 0 then map_option snd (cancel e i)
     else do {
       ord \<leftarrow> fuzz_order data p i;
       map_option (\<lambda>(rep, e', trades). e') (processOrder e ord [])
     }
   }"

text \<open>The loop: \<open>Some True\<close> for a normal return, \<open>Some False\<close> for the abort.\<close>

fun fuzz_loop :: "bytes \<Rightarrow> nat \<Rightarrow> nat \<Rightarrow> MatchingEngine \<Rightarrow> bool option" where
  "fuzz_loop data i 0 e = Some True"
| "fuzz_loop data i (Suc n) e = do {
     e' \<leftarrow> fuzz_command data (i * kCommandBytes) e;
     if checkInvariants (book e') then fuzz_loop data (Suc i) n e' else Some False
   }"

definition LLVMFuzzerTestOneInput :: "bytes \<Rightarrow> bool option" where
  "LLVMFuzzerTestOneInput data =
     fuzz_loop data 0 (min (length data div kCommandBytes) kMaxCommands) (init_engine default_limits)"

section \<open>No read is out of bounds\<close>

lemma read_byte_in: "p < length data \<Longrightarrow> \<exists>b. read_byte data p = Some b"
  by (simp add: read_byte_def)

lemma fold_reads:
  assumes "\<And>i. i \<in> set is \<Longrightarrow> p + i < length data"
  shows "\<exists>w. fold (\<lambda>i acc. do { v \<leftarrow> acc; b \<leftarrow> read_byte data (p + i); Some (f v i b) }) is (Some w0) = Some w"
  using assms by (induction "is" arbitrary: w0) (auto simp: read_byte_def)

lemma readU64_in: "p + 8 \<le> length data \<Longrightarrow> \<exists>w. readU64 data p = Some w"
  unfolding readU64_def by (rule fold_reads) simp

lemma readU32_in: "p + 4 \<le> length data \<Longrightarrow> \<exists>w. readU32 data p = Some w"
  unfolding readU32_def by (rule fold_reads) simp

text \<open>The reads of the target are the reads of the journal where the bytes are there.\<close>

lemma fold_reads_value:
  assumes "\<And>i. i \<in> set is \<Longrightarrow> p + i < length data"
  shows "fold (\<lambda>i acc. do { v \<leftarrow> acc; b \<leftarrow> read_byte data (p + i); Some (f v i b) }) is (Some w) =
    Some (fold (\<lambda>i v. f v i (data ! (p + i))) is w)"
  using assms by (induction "is" arbitrary: w) (auto simp: read_byte_def)

lemma readU64_getU64: "p + 8 \<le> length data \<Longrightarrow> readU64 data p = Some (getU64 data p)"
  unfolding readU64_def getU64_def by (rule fold_reads_value) simp

section \<open>No input aborts\<close>

lemma fuzz_order_valid:
  assumes "p + kCommandBytes \<le> length data"
  shows "\<exists>ord. fuzz_order data p i = Some ord \<and> command_valid (New ord)"
proof -
  have n: "p + 24 \<le> length data" using assms by (simp add: kCommandBytes_def)
  obtain b9 b10 b11 b12 where b: "read_byte data (p + 9) = Some b9" "read_byte data (p + 10) = Some b10"
    "read_byte data (p + 11) = Some b11" "read_byte data (p + 12) = Some b12"
    using n by (simp add: read_byte_def)
  obtain raw where raw: "readU64 data (p + 13) = Some raw" using readU64_in [of "p + 13" data] n by auto
  obtain qty where qty: "readU32 data (p + 20) = Some qty" using readU32_in [of "p + 20" data] n by auto
  have "uint (raw AND 0x7FFFFFFF) \<le> 0x7FFFFFFF" using word_and_le1 [of raw "0x7FFFFFFF"] by (simp add: word_le_def)
  moreover from this have "sint (raw AND 0x7FFFFFFF) = uint (raw AND 0x7FFFFFFF)"
    unfolding sint_uint by (intro signed_take_bit_int_eq_self) (simp_all add: order.trans [OF _ uint_ge_0])
  ultimately have "0 \<le> sint (raw AND 0x7FFFFFFF) \<and> sint (raw AND 0x7FFFFFFF) \<le> 0x7FFFFFFF" using uint_ge_0 by metis
  with b raw qty show ?thesis by (simp add: fuzz_order_def command_valid_def is_i64_def Let_def)
qed

lemma fuzz_command_ready:
  assumes "engine_ready (Suc n) e" and "p + kCommandBytes \<le> length data"
  shows "\<exists>e'. fuzz_command data p e = Some e' \<and> engine_ready n e'"
proof -
  have k: "p + 24 \<le> length data" using assms(2) by (simp add: kCommandBytes_def)
  obtain opcode where o: "read_byte data p = Some opcode" using k by (simp add: read_byte_def)
  obtain i where i: "readU64 data (p + 1) = Some i" using readU64_in [of "p + 1" data] k by auto
  show ?thesis
  proof (cases "opcode AND 7 = 0")
    case True
    from engine.step_returns [OF assms(1), of "Cancel i"] obtain r e' where
      "apply_command e (Cancel i) = Some (r, e')" "engine_ready n e'" by (auto simp: command_valid_def)
    with True o i show ?thesis by (auto simp: fuzz_command_def apply_command_def)
  next
    case False
    from fuzz_order_valid [OF assms(2)] obtain ord where ord: "fuzz_order data p i = Some ord" "command_valid (New ord)" by blast
    from engine.step_returns [OF assms(1) ord(2)] obtain r e' where
      "apply_command e (New ord) = Some (r, e')" "engine_ready n e'" by blast
    with False o i ord show ?thesis by (auto simp: fuzz_command_def apply_command_def)
  qed
qed

lemma fuzz_loop_passes:
  assumes "engine_ready n e" and "(i + n) * kCommandBytes \<le> length data"
  shows "fuzz_loop data i n e = Some True"
  using assms
proof (induction n arbitrary: i e)
  case (Suc n)
  have "i * kCommandBytes + kCommandBytes \<le> length data" using Suc.prems(2) by (simp add: algebra_simps)
  from fuzz_command_ready [OF Suc.prems(1) this] obtain e' where
    e': "fuzz_command data (i * kCommandBytes) e = Some e'" "engine_ready n e'" by blast
  then have "checkInvariants (book e')" using engine_ok_checkInvariants by (auto simp: engine_ready_def)
  then show ?case using e' Suc.IH [of e' "Suc i"] Suc.prems(2) by simp
qed simp

text \<open>C36: no input makes the fuzz target abort. Whatever bytes it is given, it reads only its input, the engine never
  fails, and the book passes its self-check after every command.\<close>

theorem fuzz_target_passes: "LLVMFuzzerTestOneInput data = Some True"
proof -
  let ?n = "min (length data div kCommandBytes) kMaxCommands"
  have "engine_ready ?n (init_engine default_limits)" by (rule init_engine_ready) (simp add: kMaxCommands_def)
  moreover have "(0 + ?n) * kCommandBytes \<le> length data"
    using le_trans [OF mult_le_mono1 [OF min.cobounded1] div_times_less_eq_dividend] by (simp only: add_0)
  ultimately show ?thesis unfolding LLVMFuzzerTestOneInput_def by (rule fuzz_loop_passes)
qed

end
