(* ===== verification/Replay_Tool.thy ===== *)
theory Replay_Tool
  imports App_Args
begin

text \<open>
  The recovery inspector: it replays a journal into a fresh engine with given limits and shows the
  counters and the book. Here it shows the book of the engine that wrote the journal.
\<close>

record ReplayOutput =
  out_result :: JournalReplayResult
  out_sequence :: u64
  out_active_orders :: nat
  out_best_bid :: "int option"
  out_best_ask :: "int option"
  out_spread :: "int option"
  out_invariants :: bool
  out_bids :: "LevelSnapshot list"
  out_asks :: "LevelSnapshot list"

definition replay_failure :: "JournalReplayResult \<Rightarrow> string" where
  "replay_failure res =
     ''journal validation/replay failed at byte '' @ print_nat (unat (rp_error_offset res)) @ '': '' @ rp_error res"

definition inspect :: "nat \<Rightarrow> JournalReplayResult \<Rightarrow> MatchingEngine \<Rightarrow> ReplayOutput" where
  "inspect max_levels res e =
     (let bid = bestBid (book e); ask = bestAsk (book e) in
      \<lparr>out_result = res, out_sequence = sequence e, out_active_orders = orderCount (book e),
       out_best_bid = bid, out_best_ask = ask,
       out_spread = (case (bid, ask) of (Some b, Some a) \<Rightarrow> Some (a - b) | _ \<Rightarrow> None),
       out_invariants = checkInvariants (book e),
       out_bids = topLevels (book e) BUY max_levels, out_asks = topLevels (book e) SELL max_levels\<rparr>)"

text \<open>The exit status with what was shown, or an early end; \<open>None\<close> for undefined behaviour.\<close>

definition replay_main :: "Os \<Rightarrow> string list \<Rightarrow> (exit + int \<times> ReplayOutput) option" where
  "replay_main os argv = (case parseArgs_replay argv of
     Inl e \<Rightarrow> Some (Inl e)
   | Inr args \<Rightarrow>
       (case replay os (ra_journal_path args) (init_engine (ra_risk_limits args)) of
          None \<Rightarrow> None
        | Some (res, e, os') \<Rightarrow>
            if \<not> rp_ok res then Some (Inl (Exit 1 (replay_failure res)))
            else Some (Inr (if checkInvariants (book e) then 0 else 2, inspect (unat (ra_depth args)) res e))))"

lemma replay_opened:
  assumes "os_files os path = Some bs" and "fst (next_result (os_open os)) = None"
  shows "replay os path e = map_option (\<lambda>(res, e', outs). (res, e', os\<lparr>os_open := snd (next_result (os_open os)), os_io := outs\<rparr>))
    (replay_loop (os_io os) bs 1 default_replay e)"
  using assms by (cases "next_result (os_open os)") (simp add: replay_def Let_def file_of_def)

lemma run_engine_checks:
  assumes "run_engine (init_engine l) cs = Some (rs, e)" and "\<forall>c \<in> set cs. command_canonical c" and "length cs \<le> 2 ^ 32"
  shows "engine_ok e \<and> checkInvariants (book e)"
proof -
  have "\<forall>c \<in> set cs. command_valid c"
    using assms(2) by (auto simp: command_canonical_def command_valid_def order_canonical_def split: EngineCommand.splits)
  with run_engine_ready [OF assms(1) this, of 0] assms(3) show ?thesis
    using engine_ok_checkInvariants by (auto simp: engine_ready_def)
qed


text \<open>A damaged journal ends the inspector with status 1 and the offset of the damage.\<close>

lemma inspector_damage:
  assumes "os_files os path = Some (journal_bytes 1 cs @ tail)" and "fst (next_result (os_open os)) = None" and "io_fine (os_io os)"
    and "path \<noteq> ''''" and "limits_valid l" and "length cs \<le> 2 ^ 32" and "\<forall>c \<in> set cs. command_canonical c"
    and "tail \<noteq> []" and "length tail < kRecordSize \<or> validateRecord (take kRecordSize tail) (1 + of_nat (length cs)) \<noteq> None"
  shows "\<exists>m. replay_main os ([''--journal'', path] @ concat (limits_line l)) =
    Some (Inl (Exit 1 (''journal validation/replay failed at byte '' @ print_nat (kRecordSize * length cs) @ '': '' @ m)))"
proof -
  obtain rs e where run: "run_engine (init_engine l) cs = Some (rs, e)" using run_canonical [OF assms(6,7)] by blast
  from replay_damaged [OF run assms(7,3,8,9)] obtain m res outs where
    res: "replay_loop (os_io os) (journal_bytes 1 cs @ tail) 1 default_replay (init_engine l) = Some (replay_failed m res, e, outs)"
    "counted cs rs default_replay res" by blast
  have "kRecordSize * length cs < 2 ^ 64" using assms(6) by (simp add: kRecordSize_def)
  then have "unat (of_nat (kRecordSize * length cs) :: u64) = kRecordSize * length cs"
    by (simp only: unsigned_of_nat) (simp add: take_bit_nat_eq_self)
  then have "unat (rp_error_offset (replay_failed m res)) = kRecordSize * length cs"
    using res(2) by (simp add: replay_failed_def counted_def default_replay_def mult.commute)
  moreover have "\<not> rp_ok (replay_failed m res)" "rp_error (replay_failed m res) = m"
    using res(2) by (simp_all add: replay_failed_def counted_def default_replay_def)
  ultimately show ?thesis
    unfolding replay_main_def replay_line_limits [OF assms(5,4)]
    by (simp add: replay_opened [OF assms(1,2)] res(1) replay_failure_def)
qed

definition session_os :: Os where
  "session_os = \<lparr>os_files = [''trades.journal'' \<mapsto> journal_bytes 1 session], os_io = [Transfer 5, Eintr], os_open = [], os_sync = []\<rparr>"


end
