(* ===== verification/Market_Viewer.thy ===== *)
theory Market_Viewer
  imports App_Args
begin

text \<open>
  The viewer: what it counts and the line it shows for the book. The line is read from the header, where a
  missing quote is a special value; here is when the line shows the engine's book, and when it does not.
\<close>

record viewer =
  v_trades_seen :: u64
  v_reports_seen :: u64
  v_rejected_seen :: u64

definition view_trade :: "Trade \<Rightarrow> viewer \<Rightarrow> viewer" where
  "view_trade t v = v\<lparr>v_trades_seen := v_trades_seen v + 1\<rparr>"

definition view_report :: "ExecutionReport \<Rightarrow> viewer \<Rightarrow> viewer" where
  "view_report rep v = (let v = v\<lparr>v_reports_seen := v_reports_seen v + 1\<rparr> in
     if \<not> accepted rep then v\<lparr>v_rejected_seen := v_rejected_seen v + 1\<rparr> else v)"

definition viewer_start :: viewer where
  "viewer_start = \<lparr>v_trades_seen = 0, v_reports_seen = 0, v_rejected_seen = 0\<rparr>"

text \<open>The texts for bid, ask and spread.\<close>

definition book_line :: "SharedHeader \<Rightarrow> string \<times> string \<times> string" where
  "book_line h =
     (let bid = best_bid h; ask = best_ask h; has_bid = (bid \<noteq> kNoBid); has_ask = (ask \<noteq> kNoAsk)
      in (if has_bid then print_int bid else ''-'', if has_ask then print_int ask else ''-'',
          if has_bid \<and> has_ask then print_int (ask - bid) else ''-''))"

definition engine_age_ms :: "u64 \<Rightarrow> u64 \<Rightarrow> u64" where
  "engine_age_ms current_ns engine_heartbeat =
     (if engine_heartbeat \<le> current_ns then (current_ns - engine_heartbeat) div 1000000 else 0)"

section \<open>The line shows the book\<close>

definition quote_text :: "int option \<Rightarrow> string" where
  "quote_text q = (case q of None \<Rightarrow> ''-'' | Some p \<Rightarrow> print_int p)"

lemma best_bid_positive:
  assumes "engine_ok e" and "bestBid (book e) = Some p"
  shows "0 < p \<and> is_i64 p"
proof -
  have bok: "book_ok (book e)" using assms(1) by (simp add: engine_ok_def)
  then obtain x xs where x: "resting (book e) BUY = x # xs" "p = o_price x"
    using assms(2) best_price_resting [OF bok] by (auto split: list.splits)
  have "0 < o_price x" using resting_order_ok [OF bok, of BUY x] x(1) by (simp add: order_ok_def)
  moreover have "is_i64 (o_price x)" using assms(1) x(1) by (auto simp: engine_ok_def book_orders_def)
  ultimately show ?thesis using x(2) by simp
qed

lemma published_quotes:
  assumes "published e h" and "engine_ok e" and "bestAsk (book e) \<noteq> Some kNoAsk"
  shows "book_line h = (quote_text (bestBid (book e)), quote_text (bestAsk (book e)), quote_text (spread (book e)))"
proof -
  have "bestBid (book e) \<noteq> Some kNoBid" using best_bid_positive [OF assms(2), of kNoBid] by (auto simp: kNoBid_def)
  with assms(1,3) show ?thesis
    by (auto simp: published_def book_line_def quote_text_def spread_def Let_def split: option.splits)
qed

text \<open>The bid and the ask are two separate loads, and may come from two updates. Whatever two books they come from,
  the subtraction does not overflow.\<close>

lemma line_spread_in_range:
  assumes "published e h" and "published e' h'" and "engine_ok e" and "engine_ok e'"
    and "bestBid (book e) = Some b" and "bestAsk (book e') = Some a" and "0 < a" and "is_i64 a"
  shows "is_i64 (best_ask h' - best_bid h)"
  using assms best_bid_positive [OF assms(3,5)] by (auto simp: published_def is_i64_def)

text \<open>An offer at the largest price there is, which the default limits allow, is published as no offer at all.\<close>

theorem largest_ask_hidden:
  "case processOrder (init_engine default_limits) (limit_order 1 SELL (2 ^ 63 - 1) 1) [] of
     None \<Rightarrow> False
   | Some (rep, e, ts) \<Rightarrow> accepted rep \<and> bestAsk (book e) = Some (2 ^ 63 - 1) \<and>
       (case book_line (publishBook e default_header) of (bid, ask, spr) \<Rightarrow> ask = ''-'')"
  by code_simp

section \<open>The counters\<close>

lemma view_reports:
  "fold view_report reps v = v\<lparr>v_reports_seen := v_reports_seen v + of_nat (length reps),
     v_rejected_seen := v_rejected_seen v + of_nat (length (filter (\<lambda>r. \<not> accepted r) reps))\<rparr>"
  by (induction reps arbitrary: v) (simp_all add: view_report_def Let_def ac_simps)

lemma view_trades: "fold view_trade ts v = v\<lparr>v_trades_seen := v_trades_seen v + of_nat (length ts)\<rparr>"
  by (induction ts arbitrary: v) (simp_all add: view_trade_def ac_simps)

text \<open>The viewer's summary is exact. When the viewer has finished, its counters of trades, reports and
  rejections are those of the engine's run, from the engine's start in this process on.\<close>

theorem viewer_summary_exact:
  assumes "engine_start created sz now args os = Some (Inr (e, j, r, os1))"
    and "(main_step args)\<^sup>*\<^sup>* (main_start e j r os1) s" and "viewer_finished (region s)"
  shows "\<exists>rs. run_engine e (map msg_command (taken s)) = Some (rs, mp_engine s) \<and>
    fold view_report (reports_seen s) (fold view_trade (trades_seen s) viewer_start) =
      \<lparr>v_trades_seen = of_nat (length (concat (map snd rs))), v_reports_seen = of_nat (length rs),
       v_rejected_seen = of_nat (length (filter (\<lambda>r. \<not> accepted (fst r)) rs))\<rparr>"
proof -
  have inv: "flow_inv e s" by (rule reachable_flow_inv [OF assms(1,2)])
  then have "\<exists>n x. point s = M_Exit n x" using assms(3) by (simp add: flow_inv_def viewer_finished_def)
  with inv assms(3) have "reports_seen s = map fst (results s)" "trades_seen s = concat (map snd (results s))"
    and "run_engine e (map msg_command (taken s)) = Some (results s, mp_engine s)"
    by (auto simp: flow_inv_def viewer_finished_def point_defs spsc_empty_contents)
  then show ?thesis by (simp add: view_reports view_trades viewer_start_def filter_map comp_def)
qed

end
