(* ===== verification/Shared_Memory.thy ===== *)
theory Shared_Memory
  imports Lob_Prelude
begin

text \<open>
  The objects that own a shared mapping: creating, opening, closing, moving and destroying them over an
  operating system in which every call that can fail may fail. A system has its files with their
  sizes, the open descriptors and the mappings; descriptors and addresses are numbers.
\<close>

section \<open>The operating system\<close>

record MapOs =
  mo_sizes :: "string \<rightharpoonup> u64"
  mo_fds :: "nat \<rightharpoonup> string"
  mo_maps :: "nat set"
  mo_fresh :: nat
  mo_failing :: "bool list"

definition next_fails :: "MapOs \<Rightarrow> bool \<times> MapOs" where
  "next_fails os = (case mo_failing os of [] \<Rightarrow> (False, os) | b # bs \<Rightarrow> (b, os\<lparr>mo_failing := bs\<rparr>))"

definition new_fd :: "string \<Rightarrow> MapOs \<Rightarrow> nat option \<times> MapOs" where
  "new_fd path os = (Some (mo_fresh os), os\<lparr>mo_fds := (mo_fds os)(mo_fresh os \<mapsto> path), mo_fresh := Suc (mo_fresh os)\<rparr>)"

text \<open>Opening with \<open>O_CREAT\<close> and \<open>O_TRUNC\<close>, and opening a file that must exist.\<close>

definition sys_create :: "string \<Rightarrow> MapOs \<Rightarrow> nat option \<times> MapOs" where
  "sys_create path os = (let (fails, os) = next_fails os in
     if fails then (None, os) else new_fd path (os\<lparr>mo_sizes := (mo_sizes os)(path \<mapsto> 0)\<rparr>))"

definition sys_open :: "string \<Rightarrow> MapOs \<Rightarrow> nat option \<times> MapOs" where
  "sys_open path os = (let (fails, os) = next_fails os in
     if fails \<or> mo_sizes os path = None then (None, os) else new_fd path os)"

definition sys_ftruncate :: "nat \<Rightarrow> u64 \<Rightarrow> MapOs \<Rightarrow> bool \<times> MapOs" where
  "sys_ftruncate fd n os = (let (fails, os) = next_fails os in
     if fails then (False, os)
     else (True, case mo_fds os fd of None \<Rightarrow> os | Some path \<Rightarrow> os\<lparr>mo_sizes := (mo_sizes os)(path \<mapsto> n)\<rparr>))"

definition sys_fstat :: "nat \<Rightarrow> MapOs \<Rightarrow> u64 option \<times> MapOs" where
  "sys_fstat fd os = (let (fails, os) = next_fails os in
     (if fails then None else Option.bind (mo_fds os fd) (mo_sizes os), os))"

text \<open>A mapping of no bytes is refused.\<close>

definition sys_mmap :: "u64 \<Rightarrow> MapOs \<Rightarrow> nat option \<times> MapOs" where
  "sys_mmap n os = (let (fails, os) = next_fails os in
     if fails \<or> n = 0 then (None, os)
     else (Some (mo_fresh os), os\<lparr>mo_maps := insert (mo_fresh os) (mo_maps os), mo_fresh := Suc (mo_fresh os)\<rparr>))"

definition sys_munmap :: "nat \<Rightarrow> MapOs \<Rightarrow> MapOs" where
  "sys_munmap a os = os\<lparr>mo_maps := mo_maps os - {a}\<rparr>"

definition sys_close :: "nat \<Rightarrow> MapOs \<Rightarrow> MapOs" where
  "sys_close fd os = os\<lparr>mo_fds := (mo_fds os)(fd := None)\<rparr>"

section \<open>The objects\<close>

record SharedMemoryRegion =
  rg_addr :: "nat option"
  rg_size :: u64
  rg_fd :: "nat option"

definition unmapped :: SharedMemoryRegion where
  "unmapped = \<lparr>rg_addr = None, rg_size = 0, rg_fd = None\<rparr>"

definition is_mapped :: "SharedMemoryRegion \<Rightarrow> bool" where
  "is_mapped r \<longleftrightarrow> rg_addr r \<noteq> None"

definition close_region :: "SharedMemoryRegion \<Rightarrow> MapOs \<Rightarrow> SharedMemoryRegion \<times> MapOs" where
  "close_region r os =
     (let (r, os) = (case rg_addr r of
            None \<Rightarrow> (r, os) | Some a \<Rightarrow> (r\<lparr>rg_addr := None, rg_size := 0\<rparr>, sys_munmap a os))
      in case rg_fd r of None \<Rightarrow> (r, os) | Some fd \<Rightarrow> (r\<lparr>rg_fd := None\<rparr>, sys_close fd os))"

definition map_common :: "nat \<Rightarrow> u64 \<Rightarrow> SharedMemoryRegion \<Rightarrow> MapOs \<Rightarrow> bool \<times> SharedMemoryRegion \<times> MapOs" where
  "map_common fd n r os = (let (addr, os) = sys_mmap n os in
     case addr of
       None \<Rightarrow> (False, r, sys_close fd os)
     | Some a \<Rightarrow> (True, r\<lparr>rg_fd := Some fd, rg_addr := Some a, rg_size := n\<rparr>, os))"

definition create_region :: "string \<Rightarrow> u64 \<Rightarrow> SharedMemoryRegion \<Rightarrow> MapOs \<Rightarrow> bool \<times> SharedMemoryRegion \<times> MapOs" where
  "create_region path n r os =
     (let (r, os) = close_region r os; (fd, os) = sys_create path os in
      case fd of
        None \<Rightarrow> (False, r, os)
      | Some fd \<Rightarrow>
          let (ok, os) = sys_ftruncate fd n os in
          if \<not> ok then (False, r, sys_close fd os) else map_common fd n r os)"

definition open_region :: "string \<Rightarrow> u64 \<Rightarrow> SharedMemoryRegion \<Rightarrow> MapOs \<Rightarrow> bool \<times> SharedMemoryRegion \<times> MapOs" where
  "open_region path n r os =
     (let (r, os) = close_region r os; (fd, os) = sys_open path os in
      case fd of
        None \<Rightarrow> (False, r, os)
      | Some fd \<Rightarrow>
          let (st_size, os) = sys_fstat fd os in
          (case st_size of
             None \<Rightarrow> (False, r, sys_close fd os)
           | Some sz \<Rightarrow> if sz < n then (False, r, sys_close fd os) else map_common fd n r os))"

text \<open>Moving: the new owner and the old one.\<close>

definition move_region :: "SharedMemoryRegion \<Rightarrow> SharedMemoryRegion \<times> SharedMemoryRegion" where
  "move_region other = (\<lparr>rg_addr = rg_addr other, rg_size = rg_size other, rg_fd = rg_fd other\<rparr>,
     other\<lparr>rg_addr := None, rg_size := 0, rg_fd := None\<rparr>)"

definition move_assign_region ::
  "SharedMemoryRegion \<Rightarrow> SharedMemoryRegion \<Rightarrow> MapOs \<Rightarrow> SharedMemoryRegion \<times> SharedMemoryRegion \<times> MapOs" where
  "move_assign_region r other os =
     (let (r, os) = close_region r os; (r, other) = move_region other in (r, other, os))"

text \<open>That the file does not exist is not a failure.\<close>

definition remove_file :: "string \<Rightarrow> MapOs \<Rightarrow> bool \<times> MapOs" where
  "remove_file path os = (let (fails, os) = next_fails os in
     if fails then (False, os) else (True, os\<lparr>mo_sizes := (mo_sizes os)(path := None)\<rparr>))"

section \<open>A program with any number of objects\<close>

datatype region_op =
    Default | Create nat string u64 | Open nat string u64 | Close nat
  | Move_Construct nat | Move_Assign nat nat | Destroy nat | Remove string

text \<open>An operation on an object that is not there does nothing; an object is not moved onto itself, as the code
  checks.\<close>

fun region_step :: "region_op \<Rightarrow> SharedMemoryRegion list \<times> MapOs \<Rightarrow> SharedMemoryRegion list \<times> MapOs" where
  "region_step Default (rs, os) = (rs @ [unmapped], os)"
| "region_step (Create i path n) (rs, os) =
     (if i < length rs then let (ok, r, os) = create_region path n (rs ! i) os in (rs[i := r], os) else (rs, os))"
| "region_step (Open i path n) (rs, os) =
     (if i < length rs then let (ok, r, os) = open_region path n (rs ! i) os in (rs[i := r], os) else (rs, os))"
| "region_step (Close i) (rs, os) =
     (if i < length rs then let (r, os) = close_region (rs ! i) os in (rs[i := r], os) else (rs, os))"
| "region_step (Move_Construct j) (rs, os) =
     (if j < length rs then let (r, other) = move_region (rs ! j) in (rs[j := other] @ [r], os) else (rs, os))"
| "region_step (Move_Assign i j) (rs, os) =
     (if i < length rs \<and> j < length rs \<and> i \<noteq> j
      then let (r, other, os) = move_assign_region (rs ! i) (rs ! j) os in (rs[i := r, j := other], os) else (rs, os))"
| "region_step (Destroy i) (rs, os) =
     (if i < length rs then let (r, os) = close_region (rs ! i) os in (take i rs @ drop (Suc i) rs, os) else (rs, os))"
| "region_step (Remove path) (rs, os) = (rs, snd (remove_file path os))"

definition region_run :: "region_op list \<Rightarrow> MapOs \<Rightarrow> SharedMemoryRegion list \<times> MapOs" where
  "region_run ops os = fold region_step ops ([], os)"

section \<open>Nothing leaks, nothing is closed twice\<close>

definition has_fd :: "nat \<Rightarrow> SharedMemoryRegion \<Rightarrow> nat" where
  "has_fd fd r = (if rg_fd r = Some fd then 1 else 0)"

definition has_map :: "nat \<Rightarrow> SharedMemoryRegion \<Rightarrow> nat" where
  "has_map a r = (if rg_addr r = Some a then 1 else 0)"

definition live_fd :: "nat \<Rightarrow> MapOs \<Rightarrow> nat" where
  "live_fd fd os = (if mo_fds os fd = None then 0 else 1)"

definition live_map :: "nat \<Rightarrow> MapOs \<Rightarrow> nat" where
  "live_map a os = (if a \<in> mo_maps os then 1 else 0)"

definition fresh_ok :: "MapOs \<Rightarrow> bool" where
  "fresh_ok os \<longleftrightarrow> (\<forall>i \<ge> mo_fresh os. mo_fds os i = None \<and> i \<notin> mo_maps os)"

text \<open>What an operation on one object does to the system's resources is what it does to the object's.\<close>

definition conserves :: "SharedMemoryRegion \<Rightarrow> MapOs \<Rightarrow> SharedMemoryRegion \<Rightarrow> MapOs \<Rightarrow> bool" where
  "conserves r os r' os' \<longleftrightarrow> fresh_ok os' \<and>
     (\<forall>i. live_fd i os' + has_fd i r = live_fd i os + has_fd i r' \<and> live_map i os' + has_map i r = live_map i os + has_map i r')"

definition owns_live :: "SharedMemoryRegion \<Rightarrow> MapOs \<Rightarrow> bool" where
  "owns_live r os \<longleftrightarrow> (\<forall>fd. rg_fd r = Some fd \<longrightarrow> mo_fds os fd \<noteq> None) \<and> (\<forall>a. rg_addr r = Some a \<longrightarrow> a \<in> mo_maps os)"

lemmas resource_defs = conserves_def owns_live_def has_fd_def has_map_def live_fd_def live_map_def fresh_ok_def

lemma next_fails_fields:
  "next_fails os = (b, os') \<Longrightarrow> mo_fds os' = mo_fds os \<and> mo_maps os' = mo_maps os \<and> mo_fresh os' = mo_fresh os \<and>
    mo_sizes os' = mo_sizes os"
  by (auto simp: next_fails_def split: list.splits)

lemma close_conserves:
  assumes "close_region r os = (r', os')" and "owns_live r os" and "fresh_ok os"
  shows "conserves r os r' os' \<and> rg_addr r' = None \<and> rg_fd r' = None"
  using assms
  by (cases "rg_addr r"; cases "rg_fd r")
    (auto simp: close_region_def resource_defs sys_munmap_def sys_close_def Let_def)

lemma conserves_trans:
  assumes "conserves r os r' os'" and "conserves r' os' r'' os''"
  shows "conserves r os r'' os''"
  unfolding conserves_def
proof (intro conjI allI)
  fix i
  have "live_fd i os' + has_fd i r = live_fd i os + has_fd i r'" "live_fd i os'' + has_fd i r' = live_fd i os' + has_fd i r''"
    "live_map i os' + has_map i r = live_map i os + has_map i r'" "live_map i os'' + has_map i r' = live_map i os' + has_map i r''"
    using assms by (simp_all add: conserves_def)
  then show "live_fd i os'' + has_fd i r = live_fd i os + has_fd i r''" "live_map i os'' + has_map i r = live_map i os + has_map i r''"
    by linarith+
qed (use assms(2) in \<open>simp add: conserves_def\<close>)

text \<open>Mapping an open file: the descriptor ends up in the object or is closed again.\<close>

lemma map_common_conserves:
  assumes "map_common fd n r os = (ok, r', os')" and "rg_addr r = None" and "rg_fd r = None" and "fresh_ok os"
    and "mo_fds os fd \<noteq> None"
  shows "conserves r (sys_close fd os) r' os' \<and> (\<not> ok \<longrightarrow> r' = r)"
proof -
  obtain b os1 where f: "next_fails os = (b, os1)" by (cases "next_fails os")
  from next_fails_fields [OF f] assms show ?thesis
    by (auto simp: map_common_def sys_mmap_def f resource_defs sys_close_def Let_def split: if_splits)
qed

lemma opened_fields:
  assumes "new_fd path os = (Some fd, os')" and "fresh_ok os"
  shows "fresh_ok os' \<and> mo_fds os' fd = Some path \<and> mo_fds (sys_close fd os') = mo_fds os \<and> mo_maps os' = mo_maps os"
  using assms by (auto simp: new_fd_def resource_defs sys_close_def)

lemma conserves_cong:
  "conserves r os0 r' os' \<Longrightarrow> mo_fds os0 = mo_fds os \<Longrightarrow> mo_maps os0 = mo_maps os \<Longrightarrow> conserves r os r' os'"
  by (simp add: conserves_def live_fd_def live_map_def)

lemma conserves_same:
  "fresh_ok os' \<Longrightarrow> mo_fds os' = mo_fds os \<Longrightarrow> mo_maps os' = mo_maps os \<Longrightarrow> conserves r os r os'"
  by (simp add: conserves_def live_fd_def live_map_def)

lemma fresh_ok_cong: "fresh_ok os \<Longrightarrow> mo_fds os' = mo_fds os \<Longrightarrow> mo_maps os' = mo_maps os \<Longrightarrow> mo_fresh os' = mo_fresh os \<Longrightarrow> fresh_ok os'"
  by (simp add: fresh_ok_def)

definition same_resources :: "MapOs \<Rightarrow> MapOs \<Rightarrow> bool" where
  "same_resources os os' \<longleftrightarrow> mo_fds os' = mo_fds os \<and> mo_maps os' = mo_maps os \<and> mo_fresh os' = mo_fresh os"

lemma same_fresh: "same_resources os os' \<Longrightarrow> fresh_ok os \<Longrightarrow> fresh_ok os'"
  using fresh_ok_cong by (auto simp: same_resources_def)

text \<open>The common course of \<open>create\<close> and \<open>open\<close>: a descriptor is opened, the file examined or sized, and then mapped
  or the descriptor closed.\<close>

lemma acquire_conserves:
  assumes "rg_addr r = None" and "rg_fd r = None" and "fresh_ok os" and "same_resources os os1"
    and "new_fd path os1 = (Some fd, os2)" and "same_resources os2 os3"
    and "(if good then map_common fd n r os3 else (False, r, sys_close fd os3)) = (ok, r', os')"
  shows "conserves r os r' os' \<and> (\<not> ok \<longrightarrow> r' = r)"
proof -
  note k = opened_fields [OF assms(5) same_fresh [OF assms(4,3)]]
  have f3: "fresh_ok os3" using same_fresh [OF assms(6)] k by blast
  have same: "mo_fds (sys_close fd os3) = mo_fds os" "mo_maps (sys_close fd os3) = mo_maps os"
    using assms(4,6) k by (simp_all add: sys_close_def same_resources_def)
  show ?thesis
  proof (cases good)
    case True
    then have "map_common fd n r os3 = (ok, r', os')" using assms(7) by simp
    from map_common_conserves [OF this assms(1,2) f3] k assms(6) show ?thesis
      using conserves_cong [OF _ same] by (auto simp: same_resources_def)
  next
    case False
    then have "r' = r" "os' = sys_close fd os3" using assms(7) by auto
    moreover have "fresh_ok (sys_close fd os3)" using f3 by (auto simp: fresh_ok_def sys_close_def)
    ultimately show ?thesis using conserves_same [OF _ same] by simp
  qed
qed

lemma calls_keep:
  "next_fails os = (b, os') \<Longrightarrow> same_resources os os'" "sys_ftruncate fd n os = (t, os') \<Longrightarrow> same_resources os os'"
  "sys_fstat fd os = (z, os') \<Longrightarrow> same_resources os os'"
  using next_fails_fields
  by (fastforce simp: same_resources_def sys_ftruncate_def sys_fstat_def split: prod.splits if_splits option.splits)+

lemma failed_open_keeps: "fresh_ok os \<Longrightarrow> same_resources os os' \<Longrightarrow> conserves r os r os'"
  using same_fresh by (intro conserves_same) (auto simp: same_resources_def)

lemma create_conserves:
  assumes "create_region path n r os = (ok, r', os')" and "owns_live r os" and "fresh_ok os"
  shows "conserves r os r' os' \<and> (\<not> ok \<longrightarrow> \<not> is_mapped r' \<and> rg_fd r' = None)"
proof -
  obtain r1 os1 where c: "close_region r os = (r1, os1)" by (cases "close_region r os")
  note closed = close_conserves [OF c assms(2,3)]
  then have f1: "fresh_ok os1" by (simp add: conserves_def)
  obtain b os2 where n2: "next_fails os1 = (b, os2)" by (cases "next_fails os1")
  let ?os = "os2\<lparr>mo_sizes := (mo_sizes os2)(path \<mapsto> 0)\<rparr>"
  obtain fd os3 where o: "new_fd path ?os = (Some fd, os3)" by (simp add: new_fd_def)
  obtain good os4 where t: "sys_ftruncate fd n os3 = (good, os4)" by (cases "sys_ftruncate fd n os3")
  have "conserves r1 os1 r' os' \<and> (\<not> ok \<longrightarrow> r' = r1)"
  proof (cases b)
    case True
    with assms(1) c n2 have "r' = r1" "os' = os2" by (auto simp: create_region_def sys_create_def)
    then show ?thesis using failed_open_keeps [OF f1 calls_keep(1) [OF n2]] by simp
  next
    case False
    have "same_resources os1 ?os" using calls_keep(1) [OF n2] by (simp add: same_resources_def)
    moreover from assms(1) c n2 False o t have
      "(if good then map_common fd n r1 os4 else (False, r1, sys_close fd os4)) = (ok, r', os')"
      by (simp add: create_region_def sys_create_def split: if_splits)
    ultimately show ?thesis using acquire_conserves [OF _ _ f1 _ o calls_keep(2) [OF t]] closed by blast
  qed
  with closed conserves_trans show ?thesis by (auto simp: is_mapped_def)
qed

lemma open_conserves:
  assumes "open_region path n r os = (ok, r', os')" and "owns_live r os" and "fresh_ok os"
  shows "conserves r os r' os' \<and> (\<not> ok \<longrightarrow> \<not> is_mapped r' \<and> rg_fd r' = None)"
proof -
  obtain r1 os1 where c: "close_region r os = (r1, os1)" by (cases "close_region r os")
  note closed = close_conserves [OF c assms(2,3)]
  then have f1: "fresh_ok os1" by (simp add: conserves_def)
  obtain b os2 where n2: "next_fails os1 = (b, os2)" by (cases "next_fails os1")
  obtain fd os3 where o: "new_fd path os2 = (Some fd, os3)" by (simp add: new_fd_def)
  obtain z os4 where t: "sys_fstat fd os3 = (z, os4)" by (cases "sys_fstat fd os3")
  have "conserves r1 os1 r' os' \<and> (\<not> ok \<longrightarrow> r' = r1)"
  proof (cases "b \<or> mo_sizes os2 path = None")
    case True
    with assms(1) c n2 have "r' = r1" "os' = os2" by (auto simp: open_region_def sys_open_def)
    then show ?thesis using failed_open_keeps [OF f1 calls_keep(1) [OF n2]] by simp
  next
    case False
    from assms(1) c n2 False o t have
      "(if (\<exists>sz. z = Some sz \<and> \<not> sz < n) then map_common fd n r1 os4 else (False, r1, sys_close fd os4)) = (ok, r', os')"
      by (auto simp: open_region_def sys_open_def split: option.splits if_splits)
    then show ?thesis using acquire_conserves [OF _ _ f1 calls_keep(1) [OF n2] o calls_keep(3) [OF t]] closed by blast
  qed
  with closed conserves_trans show ?thesis by (auto simp: is_mapped_def)
qed

section \<open>Ownership\<close>

text \<open>Every open descriptor and every mapping belongs to exactly one object, and an object has both or neither.\<close>

definition owned :: "SharedMemoryRegion list \<times> MapOs \<Rightarrow> bool" where
  "owned s \<longleftrightarrow> fresh_ok (snd s) \<and>
     (\<forall>i. sum_list (map (has_fd i) (fst s)) = live_fd i (snd s) \<and> sum_list (map (has_map i) (fst s)) = live_map i (snd s))"

lemma owned_live:
  assumes "owned (rs, os)" and "i < length rs"
  shows "owns_live (rs ! i) os"
proof -
  have "has_fd k (rs ! i) \<le> live_fd k os" "has_map k (rs ! i) \<le> live_map k os" for k
    using assms member_le_sum_list [of "has_fd k (rs ! i)" "map (has_fd k) rs"]
      member_le_sum_list [of "has_map k (rs ! i)" "map (has_map k) rs"] by (auto simp: owned_def)
  then show ?thesis by (fastforce simp: owns_live_def has_fd_def has_map_def live_fd_def live_map_def split: if_splits)
qed

lemma owned_update:
  assumes "owned (rs, os)" and "i < length rs" and "conserves (rs ! i) os r os'"
  shows "owned (rs[i := r], os')"
proof -
  have "sum_list (map (has_fd k) (rs[i := r])) = live_fd k os'" "sum_list (map (has_map k) (rs[i := r])) = live_map k os'" for k
  proof -
    have "sum_list (map (has_fd k) rs) = live_fd k os" "sum_list (map (has_map k) rs) = live_map k os"
      "live_fd k os' + has_fd k (rs ! i) = live_fd k os + has_fd k r" "live_map k os' + has_map k (rs ! i) = live_map k os + has_map k r"
      using assms(1,3) by (simp_all add: owned_def conserves_def)
    then show "sum_list (map (has_fd k) (rs[i := r])) = live_fd k os'" "sum_list (map (has_map k) (rs[i := r])) = live_map k os'"
      using sum_list_swap [OF assms(2), of "has_fd k" r] sum_list_swap [OF assms(2), of "has_map k" r] by linarith+
  qed
  then show ?thesis using assms(3) by (simp add: owned_def conserves_def)
qed

lemma sum_list_without:
  fixes f :: "'a \<Rightarrow> nat"
  assumes "i < length xs" and "f (xs ! i) = 0"
  shows "sum_list (map f (take i xs @ drop (Suc i) xs)) = sum_list (map f xs)"
proof -
  have "sum_list (map f xs) = sum_list (map f (take i xs @ xs ! i # drop (Suc i) xs))"
    using id_take_nth_drop [OF assms(1)] by simp
  then show ?thesis using assms(2) by simp
qed

lemma owned_step:
  assumes "owned (rs, os)"
  shows "owned (region_step op (rs, os))"
proof -
  have fresh: "fresh_ok os" using assms by (simp add: owned_def)
  note live = owned_live [OF assms]
  show ?thesis
  proof (cases op)
    case Default
    then show ?thesis using assms by (simp add: owned_def unmapped_def has_fd_def has_map_def)
  next
    case (Create i path n)
    then show ?thesis using assms owned_update [OF assms] create_conserves live fresh by (auto simp: Let_def split: prod.splits)
  next
    case (Open i path n)
    then show ?thesis using assms owned_update [OF assms] open_conserves live fresh by (auto simp: Let_def split: prod.splits)
  next
    case (Close i)
    then show ?thesis using assms owned_update [OF assms] close_conserves live fresh by (auto simp: Let_def split: prod.splits)
  next
    case (Move_Construct j)
    show ?thesis
    proof (cases "j < length rs")
      case True
      let ?r = "fst (move_region (rs ! j))" and ?o = "snd (move_region (rs ! j))"
      have m: "has_fd i ?r = has_fd i (rs ! j)" "has_map i ?r = has_map i (rs ! j)" "has_fd i ?o = 0" "has_map i ?o = 0" for i
        by (simp_all add: move_region_def has_fd_def has_map_def)
      have "sum_list (map (has_fd i) (rs[j := ?o] @ [?r])) = sum_list (map (has_fd i) rs)"
        "sum_list (map (has_map i) (rs[j := ?o] @ [?r])) = sum_list (map (has_map i) rs)" for i
        using sum_list_swap [OF True, of "has_fd i" ?o] sum_list_swap [OF True, of "has_map i" ?o] m by simp_all
      then show ?thesis using assms True Move_Construct by (simp add: owned_def Let_def split_beta)
    next
      case False
      then show ?thesis using assms Move_Construct by simp
    qed
  next
    case (Move_Assign i j)
    show ?thesis
    proof (cases "i < length rs \<and> j < length rs \<and> i \<noteq> j")
      case True
      obtain r1 os1 where c: "close_region (rs ! i) os = (r1, os1)" by (cases "close_region (rs ! i) os")
      note cl = close_conserves [OF c live fresh]
      let ?r = "fst (move_region (rs ! j))" and ?o = "snd (move_region (rs ! j))" and ?rs = "rs[i := r1]"
      have m: "has_fd k ?r = has_fd k (rs ! j)" "has_map k ?r = has_map k (rs ! j)" "has_fd k ?o = 0" "has_map k ?o = 0"
        "has_fd k r1 = 0" "has_map k r1 = 0" for k
        using cl True by (simp_all add: move_region_def has_fd_def has_map_def)
      have own: "owned (?rs, os1)" using owned_update [OF assms] cl True by blast
      have "sum_list (map f (rs[i := ?r, j := ?o])) = sum_list (map f ?rs)"
        if "f ?r = f (rs ! j)" "f ?o = 0" "f r1 = 0" for f :: "SharedMemoryRegion \<Rightarrow> nat"
        using sum_list_swap [of i ?rs f ?r] sum_list_swap [of j "rs[i := ?r]" f ?o] True that by simp
      then show ?thesis using own True Move_Assign m c
        by (simp add: owned_def move_assign_region_def Let_def split_beta)
    next
      case False
      then show ?thesis using assms Move_Assign by auto
    qed
  next
    case (Destroy i)
    show ?thesis
    proof (cases "i < length rs")
      case True
      obtain r1 os1 where c: "close_region (rs ! i) os = (r1, os1)" by (cases "close_region (rs ! i) os")
      note cl = close_conserves [OF c live [OF True] fresh]
      have own: "owned (rs[i := r1], os1)" using owned_update [OF assms True] cl by blast
      have "take i rs @ drop (Suc i) rs = take i (rs[i := r1]) @ drop (Suc i) (rs[i := r1])" by simp
      moreover have "has_fd k r1 = 0" "has_map k r1 = 0" for k using cl by (simp_all add: has_fd_def has_map_def)
      ultimately show ?thesis using own True Destroy c sum_list_without [of i "rs[i := r1]"] by (simp add: owned_def)
    next
      case False
      then show ?thesis using assms Destroy by simp
    qed
  next
    case (Remove path)
    obtain b os1 where n: "next_fails os = (b, os1)" by (cases "next_fails os")
    from next_fails_fields [OF n] assms n Remove show ?thesis
      by (auto simp: remove_file_def owned_def fresh_ok_def live_fd_def live_map_def)
  qed
qed

text \<open>C40: no descriptor and no mapping leaks, and none is released twice. Whatever a program does with any number
  of region objects, and whichever system calls fail, every open descriptor and every mapping belongs to
  exactly one object, so that closing or destroying the objects releases all of them, each once.\<close>

theorem regions_own_exactly:
  assumes "region_run ops \<lparr>mo_sizes = files, mo_fds = Map.empty, mo_maps = {}, mo_fresh = 0, mo_failing = failing\<rparr> = (rs, os)"
  shows "(\<forall>i. length (filter (\<lambda>r. rg_fd r = Some i) rs) = (if mo_fds os i = None then 0 else 1)) \<and>
    (\<forall>i. length (filter (\<lambda>r. rg_addr r = Some i) rs) = (if i \<in> mo_maps os then 1 else 0))"
proof -
  have "owned (fold region_step ops s)" if "owned s" for s
    using that
  proof (induction ops arbitrary: s)
    case (Cons op ops)
    then show ?case using owned_step [of "fst s" "snd s" op] by simp
  qed simp
  from this [of "([], \<lparr>mo_sizes = files, mo_fds = Map.empty, mo_maps = {}, mo_fresh = 0, mo_failing = failing\<rparr>)"] assms
  have own: "owned (rs, os)" by (simp add: region_run_def owned_def fresh_ok_def live_fd_def live_map_def)
  have "length (filter (\<lambda>r. rg_fd r = Some i) rs) = sum_list (map (has_fd i) rs)"
    "length (filter (\<lambda>r. rg_addr r = Some i) rs) = sum_list (map (has_map i) rs)" for i
    by (induction rs) (simp_all add: has_fd_def has_map_def)
  with own show ?thesis by (simp add: owned_def live_fd_def live_map_def)
qed

definition region_demo :: "region_op list" where
  "region_demo = [Default, Default, Create 0 ''a'' 64, Open 1 ''a'' 64, Open 1 ''a'' 128, Move_Assign 1 0, Destroy 0]"

theorem regions_own_exactly_witness:
  "\<exists>rs os. region_run region_demo \<lparr>mo_sizes = Map.empty, mo_fds = Map.empty, mo_maps = {}, mo_fresh = 0, mo_failing = []\<rparr> = (rs, os) \<and>
    length (filter (\<lambda>r. rg_fd r = Some 0) rs) = 1 \<and> length (filter (\<lambda>r. rg_fd r = Some 2) rs) = 0"
proof -
  obtain rs os where run: "region_run region_demo
      \<lparr>mo_sizes = Map.empty, mo_fds = Map.empty, mo_maps = {}, mo_fresh = 0, mo_failing = []\<rparr> = (rs, os)" by fastforce
  have "mo_fds os 0 \<noteq> None \<and> mo_fds os 2 = None"
    using run by (simp add: region_run_def region_demo_def unmapped_def create_region_def open_region_def close_region_def
        sys_create_def sys_open_def sys_ftruncate_def sys_fstat_def sys_mmap_def sys_close_def sys_munmap_def new_fd_def
        next_fails_def map_common_def move_assign_region_def move_region_def Let_def) auto
  with run regions_own_exactly [OF run] show ?thesis by (intro exI [of _ rs] exI [of _ os]) simp
qed

end
