(* ===== verification/Deployment.thy ===== *)
theory Deployment
  imports Feed_Handler Market_Viewer Shared_Memory
begin

text \<open>
  The three processes together. The engine sets up the region; the feed and the viewer open it, wait until it
  is ready and check its protocol; then the feed sends its messages and the viewer follows the trades and the
  reports until the engine has ended. Every process takes its steps in any order with the others. The steps of
  the feed and the viewer are steps of the main loop's environment, so that what holds of the main loop
  holds here.
\<close>

section \<open>Opening the region\<close>

text \<open>The attempts to open the region, with what the other processes do to the files before each of them.\<close>

function attach_loop ::
  "string \<Rightarrow> u64 \<Rightarrow> (nat \<Rightarrow> MapOs \<Rightarrow> MapOs) \<Rightarrow> nat \<Rightarrow> SharedMemoryRegion \<Rightarrow> MapOs \<Rightarrow>
   bool \<times> nat \<times> SharedMemoryRegion \<times> MapOs" where
  "attach_loop path sz others attempt r os =
     (if is_mapped r then (True, attempt, r, os)
      else let (ok, r, os) = open_region path sz r (others attempt os)
           in if ok then (True, attempt, r, os)
              else if 200 < attempt then (False, attempt, r, os)
              else attach_loop path sz others (Suc attempt) r os)"
  by pat_completeness auto
termination by (relation "measure (\<lambda>(path, sz, others, attempt, r, os). 202 - attempt)") auto

declare attach_loop.simps [simp del]

lemma open_unmapped:
  assumes "open_region path sz r os = (ok, r', os')" and "rg_addr r = None" and "rg_fd r = None"
  shows "if ok then is_mapped r' \<and> rg_size r' = sz \<and> sz \<noteq> 0 else r' = r"
  using assms
  by (auto simp: open_region_def close_region_def map_common_def sys_mmap_def is_mapped_def Let_def
      split: prod.splits option.splits if_splits)

text \<open>There are at most 202 attempts; the region is mapped after one that succeeds, and nothing is held after the last
  one.\<close>

lemma attach_loop_result:
  assumes "attach_loop path sz others k r os = (ok, n, r', os')" and "rg_addr r = None" and "rg_fd r = None" and "k \<le> 201"
  shows "k \<le> n \<and> n \<le> 201 \<and> (if ok then is_mapped r' \<and> rg_size r' = sz else r' = r \<and> n = 201)"
  using assms
proof (induction path sz others k r os rule: attach_loop.induct)
  case (1 path sz others k r os)
  obtain ok1 r1 os1 where o: "open_region path sz r (others k os) = (ok1, r1, os1)" by (cases "open_region path sz r (others k os)")
  note opened = open_unmapped [OF o "1.prems"(2,3)]
  have r: "\<not> is_mapped r" using "1.prems"(2) by (simp add: is_mapped_def)
  show ?case
  proof (cases "ok1 \<or> 200 < k")
    case True
    then show ?thesis using "1.prems"(1,4) o opened r by (subst (asm) attach_loop.simps) (auto split: if_splits)
  next
    case False
    then have "attach_loop path sz others (Suc k) r os1 = (ok, n, r', os')"
      using "1.prems"(1) o opened r by (subst (asm) attach_loop.simps) simp
    with "1.IH" [OF r o [symmetric] refl] False opened "1.prems"(2-4) show ?thesis by simp
  qed
qed

text \<open>A client that finds the file, large enough, at one of its attempts is attached, if no call fails.\<close>

lemma open_present:
  assumes "mo_sizes os path = Some n" and "sz \<le> n" and "0 < sz" and "mo_failing os = []" and "rg_addr r = None" and "rg_fd r = None"
  shows "\<exists>r' os'. open_region path sz r os = (True, r', os')"
  using assms
  by (auto simp: open_region_def close_region_def sys_open_def sys_fstat_def sys_mmap_def map_common_def next_fails_def new_fd_def Let_def)

lemma attach_loop_attaches:
  assumes "k \<le> a" and "a \<le> 201" and "rg_addr r = None" and "rg_fd r = None" and "0 < sz"
    and "\<And>os. mo_failing (others a os) = [] \<and> (\<exists>n. mo_sizes (others a os) path = Some n \<and> sz \<le> n)"
  shows "\<exists>n r' os'. attach_loop path sz others k r os = (True, n, r', os') \<and> n \<le> a"
  using assms(1)
proof (induction "a - k" arbitrary: k os)
  case 0
  then have "k = a" by simp
  moreover from assms(6) obtain n where "mo_sizes (others a os) path = Some n" "sz \<le> n" "mo_failing (others a os) = []" by blast
  from open_present [OF this(1,2) assms(5) this(3) assms(3,4)] obtain r' os' where
    "open_region path sz r (others a os) = (True, r', os')" by blast
  ultimately show ?case using assms(3) by (subst attach_loop.simps) (auto simp: is_mapped_def)
next
  case (Suc d)
  then have k: "\<not> 200 < k" "d = a - Suc k" "Suc k \<le> a" using assms(2) by simp_all
  obtain ok1 r1 os1 where o: "open_region path sz r (others k os) = (ok1, r1, os1)" by (cases "open_region path sz r (others k os)")
  show ?case
  proof (cases ok1)
    case True
    then show ?thesis using o assms(3) k(3) by (subst attach_loop.simps) (auto simp: is_mapped_def)
  next
    case False
    then have "r1 = r" using open_unmapped [OF o assms(3,4)] by simp
    with Suc.hyps(1) [OF k(2,3), of os1] o False k(1) assms(3) show ?thesis by (subst attach_loop.simps) (auto simp: is_mapped_def)
  qed
qed

section \<open>The processes\<close>

text \<open>Where a client is while it attaches: before an attempt; waiting for the region to be ready; before the check of
  the protocol; connected; given up.\<close>

datatype attach_point = A_Open nat | A_Wait | A_Check | A_Connected | A_Gone

text \<open>The next point, from the region the file holds, if it is there, and whether a call fails.\<close>

fun attach_next :: "u64 \<Rightarrow> SharedRegion option \<Rightarrow> bool \<Rightarrow> attach_point \<Rightarrow> attach_point" where
  "attach_next sz file fails (A_Open attempt) =
     (if file \<noteq> None \<and> \<not> fails then A_Wait else if 200 < attempt then A_Gone else A_Open (Suc attempt))"
| "attach_next sz file fails A_Wait = (case file of
     None \<Rightarrow> A_Wait | Some r \<Rightarrow> if state (header r) \<noteq> region_state_code READY then A_Wait else A_Check)"
| "attach_next sz file fails A_Check = (case file of
     None \<Rightarrow> A_Gone | Some r \<Rightarrow> if protocol_matches sz (header r) then A_Connected else A_Gone)"
| "attach_next sz file fails A_Connected = A_Connected"
| "attach_next sz file fails A_Gone = A_Gone"

datatype feed_point = F_Attach attach_point | F_Send "OrderMsg list" | F_Exit "int option"

text \<open>The viewer: draining the trades, draining the reports, showing the book, each with whether it got anything in
  this round; then the three tests of its exit, in their order.\<close>

datatype viewer_point =
    V_Attach attach_point | V_Trades bool | V_Reports bool | V_Book bool
  | V_Done | V_Empty_Trades | V_Empty_Reports | V_Leave | V_Exit int

datatype stage = Absent | Created | Running

record deployment =
  stage_at :: stage
  proc :: process
  feed_at :: feed_point
  viewer_at :: viewer_point
  counts :: viewer

text \<open>What the file of the region holds: nothing, the region as it is made, the region the engine works on.\<close>

definition file_region :: "deployment \<Rightarrow> SharedRegion option" where
  "file_region d = (case stage_at d of Absent \<Rightarrow> None | Created \<Rightarrow> Some default_region | Running \<Rightarrow> Some (region (proc d)))"

definition status_of_exit :: "exit \<Rightarrow> int option" where
  "status_of_exit e = (case e of Exit n m \<Rightarrow> Some n | Uncaught m \<Rightarrow> None)"

definition in_header :: "(SharedHeader \<Rightarrow> SharedHeader) \<Rightarrow> process \<Rightarrow> process" where
  "in_header f s = s\<lparr>region := (region s)\<lparr>header := f (header (region s))\<rparr>\<rparr>"

text \<open>The feed, with the messages it will send or the way it ends when it cannot make them.\<close>

inductive feed_step :: "u64 \<Rightarrow> exit + OrderMsg list \<Rightarrow> deployment \<Rightarrow> deployment \<Rightarrow> bool" for sz input where
  attach: "feed_at d = F_Attach p \<Longrightarrow> p \<noteq> A_Connected \<Longrightarrow> p \<noteq> A_Gone \<Longrightarrow>
    feed_step sz input d (d\<lparr>feed_at := F_Attach (attach_next sz (file_region d) fails p)\<rparr>)"
| gone: "feed_at d = F_Attach A_Gone \<Longrightarrow> feed_step sz input d (d\<lparr>feed_at := F_Exit (Some 1)\<rparr>)"
| connected: "feed_at d = F_Attach A_Connected \<Longrightarrow>
    feed_step sz input d (d\<lparr>proc := in_header (\<lambda>h. h\<lparr>producer_heartbeat_ns := t\<rparr>) (proc d),
      feed_at := (case input of Inl e \<Rightarrow> F_Exit (status_of_exit e) | Inr ms \<Rightarrow> F_Send ms)\<rparr>)"
| push: "feed_at d = F_Send (m # ms) \<Longrightarrow> spsc_try_push (order_queue (region (proc d))) m = Some q \<Longrightarrow>
    feed_step sz input d (d\<lparr>proc := (proc d)\<lparr>region := (region (proc d))\<lparr>order_queue := q\<rparr>, sent := sent (proc d) @ [m]\<rparr>,
      feed_at := F_Send ms\<rparr>)"
| heartbeat: "feed_at d = F_Send ms \<Longrightarrow>
    feed_step sz input d (d\<lparr>proc := in_header (\<lambda>h. h\<lparr>producer_heartbeat_ns := t\<rparr>) (proc d)\<rparr>)"
| finished: "feed_at d = F_Send [] \<Longrightarrow>
    feed_step sz input d (d\<lparr>proc := in_header (\<lambda>h. h\<lparr>producer_done := 1, producer_heartbeat_ns := t\<rparr>) (proc d),
      feed_at := F_Exit (Some 0)\<rparr>)"

inductive viewer_step :: "u64 \<Rightarrow> deployment \<Rightarrow> deployment \<Rightarrow> bool" for sz where
  attach: "viewer_at d = V_Attach p \<Longrightarrow> p \<noteq> A_Connected \<Longrightarrow> p \<noteq> A_Gone \<Longrightarrow>
    viewer_step sz d (d\<lparr>viewer_at := V_Attach (attach_next sz (file_region d) fails p)\<rparr>)"
| gone: "viewer_at d = V_Attach A_Gone \<Longrightarrow> viewer_step sz d (d\<lparr>viewer_at := V_Exit 1\<rparr>)"
| connected: "viewer_at d = V_Attach A_Connected \<Longrightarrow>
    viewer_step sz d (d\<lparr>proc := in_header (\<lambda>h. h\<lparr>viewer_heartbeat_ns := t\<rparr>) (proc d), counts := viewer_start,
      viewer_at := V_Trades False\<rparr>)"
| trade: "viewer_at d = V_Trades got \<Longrightarrow> spsc_try_pop (trade_queue (region (proc d))) = Some (x, q) \<Longrightarrow>
    viewer_step sz d (d\<lparr>proc := (proc d)\<lparr>region := (region (proc d))\<lparr>trade_queue := q\<rparr>, trades_seen := trades_seen (proc d) @ [x]\<rparr>,
      counts := view_trade x (counts d), viewer_at := V_Trades True\<rparr>)"
| no_trade: "viewer_at d = V_Trades got \<Longrightarrow> spsc_try_pop (trade_queue (region (proc d))) = None \<Longrightarrow>
    viewer_step sz d (d\<lparr>viewer_at := V_Reports got\<rparr>)"
| report: "viewer_at d = V_Reports got \<Longrightarrow> spsc_try_pop (report_queue (region (proc d))) = Some (x, q) \<Longrightarrow>
    viewer_step sz d (d\<lparr>proc := (proc d)\<lparr>region := (region (proc d))\<lparr>report_queue := q\<rparr>, reports_seen := reports_seen (proc d) @ [x]\<rparr>,
      counts := view_report x (counts d), viewer_at := V_Reports True\<rparr>)"
| no_report: "viewer_at d = V_Reports got \<Longrightarrow> spsc_try_pop (report_queue (region (proc d))) = None \<Longrightarrow>
    viewer_step sz d (d\<lparr>viewer_at := V_Book got\<rparr>)"
| book: "viewer_at d = V_Book got \<Longrightarrow> p = proc d \<or> p = in_header (\<lambda>h. h\<lparr>viewer_heartbeat_ns := t\<rparr>) (proc d) \<Longrightarrow>
    viewer_step sz d (d\<lparr>proc := p, viewer_at := (if got then V_Trades False else V_Done)\<rparr>)"
| engine_done: "viewer_at d = V_Done \<Longrightarrow>
    viewer_step sz d (d\<lparr>viewer_at := (if engine_done (header (region (proc d))) \<noteq> 0 then V_Empty_Trades else V_Trades False)\<rparr>)"
| empty_trades: "viewer_at d = V_Empty_Trades \<Longrightarrow>
    viewer_step sz d (d\<lparr>viewer_at := (if spsc_empty (trade_queue (region (proc d))) then V_Empty_Reports else V_Trades False)\<rparr>)"
| empty_reports: "viewer_at d = V_Empty_Reports \<Longrightarrow>
    viewer_step sz d (d\<lparr>viewer_at := (if spsc_empty (report_queue (region (proc d))) then V_Leave else V_Trades False)\<rparr>)"
| leave: "viewer_at d = V_Leave \<Longrightarrow>
    viewer_step sz d (d\<lparr>proc := in_header (\<lambda>h. h\<lparr>viewer_heartbeat_ns := t\<rparr>) (proc d), viewer_at := V_Exit 0\<rparr>)"

inductive deploy_step :: "u64 \<Rightarrow> EngineArgs \<Rightarrow> exit + OrderMsg list \<Rightarrow> deployment \<Rightarrow> deployment \<Rightarrow> bool" for sz args input where
  create: "stage_at d = Absent \<Longrightarrow> deploy_step sz args input d (d\<lparr>stage_at := Created\<rparr>)"
| ready: "stage_at d = Created \<Longrightarrow> deploy_step sz args input d (d\<lparr>stage_at := Running\<rparr>)"
| engine: "stage_at d = Running \<Longrightarrow> engine_step args (proc d) p \<Longrightarrow> deploy_step sz args input d (d\<lparr>proc := p\<rparr>)"
| feed: "feed_step sz input d d' \<Longrightarrow> deploy_step sz args input d d'"
| viewer: "viewer_step sz d d' \<Longrightarrow> deploy_step sz args input d d'"

definition deploy_start :: "process \<Rightarrow> deployment" where
  "deploy_start p = \<lparr>stage_at = Absent, proc = p, feed_at = F_Attach (A_Open 0), viewer_at = V_Attach (A_Open 0), counts = viewer_start\<rparr>"

section \<open>They are the environment of the main loop\<close>

lemma in_header_main:
  "main_step args s (in_header (\<lambda>h. h\<lparr>producer_heartbeat_ns := t\<rparr>) s)"
  "main_step args s (in_header (\<lambda>h. h\<lparr>producer_done := 1, producer_heartbeat_ns := t\<rparr>) s)"
  "main_step args s (in_header (\<lambda>h. h\<lparr>viewer_heartbeat_ns := t\<rparr>) s)"
  using main_step.feed_header [where s = s and d = "producer_done (header (region s))" and t = t]
    main_step.feed_header [where s = s and d = 1 and t = t] main_step.view_header [where s = s and t = t] by (simp_all add: in_header_def)

definition feed_ready :: "exit + OrderMsg list \<Rightarrow> deployment \<Rightarrow> bool" where
  "feed_ready input d \<longleftrightarrow> (case feed_at d of
     F_Attach p \<Rightarrow> sent (proc d) = []
   | F_Send ms \<Rightarrow> input = Inr (sent (proc d) @ ms)
   | F_Exit n \<Rightarrow> if n = Some 0 then input = Inr (sent (proc d)) else sent (proc d) = [])"

definition input_ok :: "exit + OrderMsg list \<Rightarrow> bool" where
  "input_ok input \<longleftrightarrow> (case input of Inl e \<Rightarrow> status_of_exit e \<noteq> Some 0 | Inr ms \<Rightarrow> \<forall>m \<in> set ms. command_canonical (msg_command m))"

lemma deploy_simulates:
  assumes "deploy_step sz args input d d'" and "feed_ready input d" and "input_ok input"
  shows "proc d' = proc d \<or> main_step args (proc d) (proc d')"
  using assms(1)
proof cases
  case (engine p)
  then show ?thesis by (simp add: main_step.engine)
next
  case feed
  then show ?thesis
  proof cases
    case (push m ms q)
    then have "command_canonical (msg_command m)" using assms(2,3) by (auto simp: feed_ready_def input_ok_def)
    with main_step.feed [OF push(3)] push(1) show ?thesis by simp
  qed (simp_all add: in_header_main)
next
  case viewer
  then show ?thesis
  proof cases
    case (trade got x q)
    then show ?thesis using main_step.view_trade [OF trade(3)] by simp
  next
    case (report got x q)
    then show ?thesis using main_step.view_report [OF report(3)] by simp
  qed (auto simp: in_header_main)
qed simp_all

section \<open>What the clients know\<close>

lemma engine_keeps_protocol:
  assumes "engine_step args s s'"
  shows "magic (header (region s')) = magic (header (region s)) \<and> version (header (region s')) = version (header (region s)) \<and>
    region_size (header (region s')) = region_size (header (region s)) \<and> state (header (region s')) = state (header (region s)) \<and>
    sent s' = sent s \<and> trades_seen s' = trades_seen s \<and> reports_seen s' = reports_seen s"
  using assms by cases (simp_all add: publishBook_def count_message_def mark_done_def)

text \<open>An engine that has ended takes no step.\<close>

lemma ended_engine: "engine_step args s s' \<Longrightarrow> point s \<noteq> M_Exit n x"
  by (cases rule: engine_step.cases) auto

definition counters_exact :: "deployment \<Rightarrow> bool" where
  "counters_exact d \<longleftrightarrow> counts d = \<lparr>v_trades_seen = of_nat (length (trades_seen (proc d))),
     v_reports_seen = of_nat (length (reports_seen (proc d))),
     v_rejected_seen = of_nat (length (filter (\<lambda>r. \<not> accepted r) (reports_seen (proc d))))\<rparr>"

definition attached :: "attach_point \<Rightarrow> bool" where
  "attached p \<longleftrightarrow> p = A_Check \<or> p = A_Connected"

definition viewer_knows :: "deployment \<Rightarrow> bool" where
  "viewer_knows d \<longleftrightarrow> (let r = region (proc d); ended = (engine_done (header r) \<noteq> 0);
       trades = spsc_contents (trade_queue r); reports = spsc_contents (report_queue r)
     in case viewer_at d of
       V_Attach p \<Rightarrow> trades_seen (proc d) = [] \<and> reports_seen (proc d) = []
     | V_Empty_Trades \<Rightarrow> ended
     | V_Empty_Reports \<Rightarrow> ended \<and> trades = []
     | V_Leave \<Rightarrow> ended \<and> trades = [] \<and> reports = []
     | V_Exit n \<Rightarrow> n = 0 \<longrightarrow> ended \<and> trades = [] \<and> reports = []
     | _ \<Rightarrow> True)"

definition protocol_inv :: "u64 \<Rightarrow> deployment \<Rightarrow> bool" where
  "protocol_inv sz d \<longleftrightarrow> protocol_matches sz (header (region (proc d))) \<and>
     (stage_at d \<noteq> Running \<longrightarrow>
        (case feed_at d of F_Attach p \<Rightarrow> \<not> attached p | F_Send ms \<Rightarrow> False | F_Exit n \<Rightarrow> n = Some 1) \<and>
        (case viewer_at d of V_Attach p \<Rightarrow> \<not> attached p | V_Exit n \<Rightarrow> n = 1 | _ \<Rightarrow> False))"

definition deploy_inv :: "u64 \<Rightarrow> exit + OrderMsg list \<Rightarrow> MatchingEngine \<Rightarrow> deployment \<Rightarrow> bool" where
  "deploy_inv sz input e d \<longleftrightarrow> flow_inv e (proc d) \<and> feed_ready input d \<and> counters_exact d \<and> viewer_knows d \<and> protocol_inv sz d"

lemma in_header_fields [simp]:
  "order_queue (region (in_header f s)) = order_queue (region s)" "trade_queue (region (in_header f s)) = trade_queue (region s)"
  "report_queue (region (in_header f s)) = report_queue (region s)" "sent (in_header f s) = sent s"
  "trades_seen (in_header f s) = trades_seen s" "reports_seen (in_header f s) = reports_seen s"
  "header (region (in_header f s)) = f (header (region s))" "point (in_header f s) = point s" "results (in_header f s) = results s"
  "mp_engine (in_header f s) = mp_engine s" "taken (in_header f s) = taken s"
  by (simp_all add: in_header_def)

lemma default_not_ready: "state (header default_region) \<noteq> region_state_code READY"
  by (simp add: default_region_def default_header_def region_state_code_def)

lemma attach_before_running:
  assumes "stage_at d \<noteq> Running" and "\<not> attached p"
  shows "\<not> attached (attach_next sz (file_region d) fails p)"
  using assms default_not_ready by (cases p; cases "stage_at d") (auto simp: attached_def file_region_def)

lemma feed_step_inv:
  assumes "feed_step sz input d d'" and "deploy_inv sz input e d" and "input_ok input"
  shows "feed_ready input d' \<and> counters_exact d' \<and> viewer_knows d' \<and> protocol_inv sz d'"
  using assms(1)
proof cases
  case (attach p fails)
  with assms(2) attach_before_running [of d p sz fails] show ?thesis
    by (auto simp: deploy_inv_def feed_ready_def counters_exact_def viewer_knows_def protocol_inv_def Let_def
        split: feed_point.splits viewer_point.splits)
next
  case (push m ms q)
  with assms(2) show ?thesis
    by (auto simp: deploy_inv_def feed_ready_def counters_exact_def viewer_knows_def protocol_inv_def Let_def split: viewer_point.splits)
next
  case (connected t)
  with assms(2,3) show ?thesis
    by (auto simp: deploy_inv_def feed_ready_def counters_exact_def viewer_knows_def protocol_inv_def protocol_matches_def attached_def
        input_ok_def Let_def split: viewer_point.splits sum.splits)
qed (use assms(2) in \<open>auto simp: deploy_inv_def feed_ready_def counters_exact_def viewer_knows_def protocol_inv_def protocol_matches_def
    Let_def split: viewer_point.splits\<close>)

lemma viewer_step_inv:
  assumes "viewer_step sz d d'" and "deploy_inv sz input e d"
  shows "feed_ready input d' \<and> counters_exact d' \<and> viewer_knows d' \<and> protocol_inv sz d'"
  using assms(1)
proof cases
  case (attach p fails)
  with assms(2) attach_before_running [of d p sz fails] show ?thesis
    by (auto simp: deploy_inv_def feed_ready_def counters_exact_def viewer_knows_def protocol_inv_def Let_def
        split: feed_point.splits viewer_point.splits)
next
  case (trade got x q)
  with assms(2) show ?thesis
    by (auto simp: deploy_inv_def feed_ready_def counters_exact_def viewer_knows_def protocol_inv_def view_trade_def Let_def
        split: feed_point.splits)
next
  case (report got x q)
  with assms(2) show ?thesis
    by (auto simp: deploy_inv_def feed_ready_def counters_exact_def viewer_knows_def protocol_inv_def view_report_def Let_def
        split: feed_point.splits)
next
  case (connected t)
  with assms(2) show ?thesis
    by (auto simp: deploy_inv_def feed_ready_def counters_exact_def viewer_knows_def protocol_inv_def protocol_matches_def attached_def
        viewer_start_def Let_def split: feed_point.splits)
qed (use assms(2) in \<open>auto simp: deploy_inv_def feed_ready_def counters_exact_def viewer_knows_def protocol_inv_def protocol_matches_def
    spsc_empty_contents Let_def split: feed_point.splits if_splits\<close>)

lemma engine_step_inv:
  assumes "engine_step args (proc d) p" and "stage_at d = Running" and "deploy_inv sz input e d"
  shows "feed_ready input (d\<lparr>proc := p\<rparr>) \<and> counters_exact (d\<lparr>proc := p\<rparr>) \<and> viewer_knows (d\<lparr>proc := p\<rparr>) \<and> protocol_inv sz (d\<lparr>proc := p\<rparr>)"
proof -
  have "engine_done (header (region (proc d))) = 0"
    using ended_engine [OF assms(1)] assms(3) by (auto simp: deploy_inv_def flow_inv_def)
  with engine_keeps_protocol [OF assms(1)] assms(2,3) show ?thesis
    by (auto simp: deploy_inv_def feed_ready_def counters_exact_def viewer_knows_def protocol_inv_def protocol_matches_def Let_def
        split: viewer_point.splits feed_point.splits)
qed

lemma deploy_step_inv:
  assumes "deploy_step sz args input d d'" and "deploy_inv sz input e d" and "input_ok input"
  shows "deploy_inv sz input e d'"
proof -
  have "flow_inv e (proc d')"
    using deploy_simulates [OF assms(1) _ assms(3)] assms(2) flow_inv_step by (auto simp: deploy_inv_def)
  moreover have "feed_ready input d' \<and> counters_exact d' \<and> viewer_knows d' \<and> protocol_inv sz d'"
    using assms(1)
  proof cases
    case feed
    then show ?thesis using feed_step_inv assms(2,3) by blast
  next
    case viewer
    then show ?thesis using viewer_step_inv assms(2) by blast
  next
    case (engine p)
    then show ?thesis using engine_step_inv assms(2) by blast
  qed (use assms(2) in \<open>auto simp: deploy_inv_def feed_ready_def counters_exact_def viewer_knows_def protocol_inv_def Let_def
      split: feed_point.splits viewer_point.splits\<close>)
  ultimately show ?thesis by (simp add: deploy_inv_def)
qed

lemma deploy_start_inv:
  assumes "engine_start created sz now args os = Some (Inr (e, j, r, os1))"
  shows "deploy_inv sz input e (deploy_start (main_start e j r os1))"
proof -
  from assms obtain res where r: "r = start_region sz now res e"
    by (auto simp: engine_start_def Let_def split: option.splits prod.splits if_splits)
  with flow_inv_start start_region_protocol show ?thesis
    by (simp add: deploy_inv_def deploy_start_def feed_ready_def counters_exact_def viewer_knows_def protocol_inv_def attached_def
        main_start_def viewer_start_def)
qed

lemma deploy_reachable:
  assumes "engine_start created sz now args os = Some (Inr (e, j, r, os1))" and "input_ok input"
    and "(deploy_step sz args input)\<^sup>*\<^sup>* (deploy_start (main_start e j r os1)) d"
  shows "deploy_inv sz input e d \<and> (main_step args)\<^sup>*\<^sup>* (main_start e j r os1) (proc d)"
  using assms(3)
proof (induction rule: rtranclp_induct)
  case base
  then show ?case using deploy_start_inv [OF assms(1)] by (simp add: deploy_start_def)
next
  case (step d d')
  then have "proc d' = proc d \<or> main_step args (proc d) (proc d')"
    using deploy_simulates [OF step(2) _ assms(2)] by (simp add: deploy_inv_def)
  with step deploy_step_inv [OF step(2) _ assms(2)] show ?case by (auto intro: rtranclp.rtrancl_into_rtrancl)
qed

section \<open>Properties\<close>


section \<open>The viewer ends\<close>

text \<open>What the viewer still has to do once the engine has ended: a bound for its steps.\<close>

definition viewer_work :: "deployment \<Rightarrow> nat" where
  "viewer_work d =
     (let r = region (proc d); trades = length (spsc_contents (trade_queue r)); reports = length (spsc_contents (report_queue r));
          late = (\<lambda>n. if n = 0 then 0 else 20)
      in 10 * (trades + reports) + (case viewer_at d of
           V_Attach p \<Rightarrow> 500
         | V_Trades got \<Rightarrow> (if got then 10 else 7)
         | V_Reports got \<Rightarrow> (if got then 9 else 6) + late trades
         | V_Book got \<Rightarrow> (if got then 8 else 5) + late (trades + reports)
         | V_Done \<Rightarrow> 4 + late (trades + reports)
         | V_Empty_Trades \<Rightarrow> 3 + late (trades + reports)
         | V_Empty_Reports \<Rightarrow> 2 + late (trades + reports)
         | V_Leave \<Rightarrow> 1 + late (trades + reports)
         | V_Exit n \<Rightarrow> 0))"

lemma viewer_work_decreases:
  assumes "viewer_step sz d d'" and "deploy_inv sz input e d" and "engine_done (header (region (proc d))) \<noteq> 0"
    and "\<And>p. viewer_at d \<noteq> V_Attach p"
  shows "viewer_work d' < viewer_work d"
proof -
  have ok: "spsc_ok (trade_queue (region (proc d)))" "spsc_ok (report_queue (region (proc d)))"
    using assms(2) by (simp_all add: deploy_inv_def flow_inv_def region_ok_def)
  have ne: "\<not> spsc_empty q \<Longrightarrow> spsc_contents q \<noteq> []" for q :: "'a SPSCQueue"
    by (auto simp: spsc_empty_def spsc_contents_def unat_eq_0)
  from assms(1) show ?thesis
  proof cases
    case (trade got x q)
    with try_pop_some [OF ok(1) trade(3)] show ?thesis by (simp add: viewer_work_def Let_def)
  next
    case (report got x q)
    with try_pop_some [OF ok(2) report(3)] show ?thesis by (simp add: viewer_work_def Let_def)
  next
    case (no_trade got)
    with spsc.pop_empty [OF ok(1)] show ?thesis by (simp add: viewer_work_def Let_def)
  next
    case (no_report got)
    with spsc.pop_empty [OF ok(2)] show ?thesis by (simp add: viewer_work_def Let_def)
  next
    case empty_trades
    with ne [of "trade_queue (region (proc d))"] show ?thesis by (simp add: viewer_work_def Let_def)
  next
    case empty_reports
    with ne [of "report_queue (region (proc d))"] show ?thesis by (simp add: viewer_work_def Let_def)
  qed (use assms(3,4) in \<open>auto simp: viewer_work_def Let_def\<close>)
qed

lemma viewer_not_stuck:
  assumes "\<And>n. viewer_at d \<noteq> V_Exit n" 
  shows "\<exists>d'. viewer_step sz d d'"
proof (cases "viewer_at d")
  case (V_Attach p)
  then show ?thesis
    using viewer_step.attach [OF V_Attach] viewer_step.gone [of d] viewer_step.connected [of d] by (cases p) blast+
next
  case (V_Trades got)
  then show ?thesis using viewer_step.trade [OF V_Trades] viewer_step.no_trade [OF V_Trades]
    by (cases "spsc_try_pop (trade_queue (region (proc d)))") fast+
next
  case (V_Reports got)
  then show ?thesis using viewer_step.report [OF V_Reports] viewer_step.no_report [OF V_Reports]
    by (cases "spsc_try_pop (report_queue (region (proc d)))") fast+
qed (use assms viewer_step.book [where p = "proc d"] viewer_step.engine_done viewer_step.empty_trades viewer_step.empty_reports
    viewer_step.leave in blast)+

text \<open>A run in which the viewer takes so many steps, and the others any number.\<close>

inductive counted_run :: "u64 \<Rightarrow> EngineArgs \<Rightarrow> exit + OrderMsg list \<Rightarrow> nat \<Rightarrow> deployment \<Rightarrow> deployment \<Rightarrow> bool"
  for sz args input where
  none: "counted_run sz args input 0 d d"
| viewer: "counted_run sz args input k d d' \<Longrightarrow> viewer_step sz d' d'' \<Longrightarrow> counted_run sz args input (Suc k) d d''"
| other: "counted_run sz args input k d d' \<Longrightarrow> deploy_step sz args input d' d'' \<Longrightarrow> \<not> viewer_step sz d' d'' \<Longrightarrow>
    counted_run sz args input k d d''"

definition viewing :: "deployment \<Rightarrow> bool" where
  "viewing d \<longleftrightarrow> engine_done (header (region (proc d))) \<noteq> 0 \<and>
     (case viewer_at d of V_Attach p \<Rightarrow> False | V_Exit n \<Rightarrow> n = 0 | _ \<Rightarrow> True)"

lemma viewing_step:
  assumes "viewer_step sz d d'" and "viewing d"
  shows "viewing d'"
  using assms by cases (auto simp: viewing_def split: if_splits)

lemma other_keeps_work:
  assumes "deploy_step sz args input d d'" and "\<not> viewer_step sz d d'" and "viewing d" and "deploy_inv sz input e d"
  shows "viewing d' \<and> viewer_work d' = viewer_work d"
  using assms(1)
proof cases
  case (engine p)
  then show ?thesis using ended_engine [of args "proc d" p] assms(3,4) by (auto simp: viewing_def deploy_inv_def flow_inv_def)
next
  case feed
  then show ?thesis by cases (use assms(3) in \<open>auto simp: viewing_def viewer_work_def Let_def\<close>)
qed (use assms(2,3) in \<open>auto simp: viewing_def viewer_work_def Let_def\<close>)

lemma counted_run_work:
  assumes "counted_run sz args input k d d'" and "deploy_inv sz input e d" and "input_ok input" and "viewing d"
  shows "k + viewer_work d' \<le> viewer_work d \<and> viewing d' \<and> deploy_inv sz input e d'"
  using assms
proof (induction rule: counted_run.induct)
  case (viewer k d d' d'')
  then have IH: "k + viewer_work d' \<le> viewer_work d" "viewing d'" "deploy_inv sz input e d'" by simp_all
  then have "viewer_work d'' < viewer_work d'"
    using viewer_work_decreases [OF viewer(2) IH(3)] by (auto simp: viewing_def split: viewer_point.splits)
  with IH viewing_step [OF viewer(2)] deploy_step_inv [OF deploy_step.viewer [OF viewer(2)] IH(3)] viewer.prems(2) show ?case by simp
next
  case (other k d d' d'')
  then have IH: "k + viewer_work d' \<le> viewer_work d" "viewing d'" "deploy_inv sz input e d'" by simp_all
  with other_keeps_work [OF other(2,3)] deploy_step_inv [OF other(2)] other.prems(2) show ?case by fastforce
qed simp

lemma viewer_reaches_exit:
  assumes "deploy_inv sz input e d" and "input_ok input" and "viewing d"
  shows "\<exists>d'. (deploy_step sz args input)\<^sup>*\<^sup>* d d' \<and> viewer_at d' = V_Exit 0"
  using assms
proof (induction "viewer_work d" arbitrary: d rule: less_induct)
  case less
  show ?case
  proof (cases "viewer_at d = V_Exit 0")
    case False
    then obtain d1 where d1: "viewer_step sz d d1"
      using viewer_not_stuck [of d sz] less.prems(3) by (auto simp: viewing_def split: viewer_point.splits)
    then have "viewer_work d1 < viewer_work d"
      using viewer_work_decreases [OF d1 less.prems(1)] less.prems(3) by (auto simp: viewing_def split: viewer_point.splits)
    with less.hyps [OF this deploy_step_inv [OF deploy_step.viewer [OF d1]]] less.prems viewing_step [OF d1] obtain d' where
      "(deploy_step sz args input)\<^sup>*\<^sup>* d1 d'" "viewer_at d' = V_Exit 0" by blast
    then show ?thesis
      using converse_rtranclp_into_rtranclp [of "deploy_step sz args input", OF deploy_step.viewer [OF d1]] by blast
  qed auto
qed

text \<open>C32: the viewer ends. Once the engine has announced its end and the viewer has connected, the viewer can always take
  a step until it exits, and takes only so many, whatever the feed still does; the exit is a good one.\<close>

theorem viewer_ends:
  assumes "engine_start created sz now args os = Some (Inr (e, j, r, os1))" and "input_ok input"
    and "(deploy_step sz args input)\<^sup>*\<^sup>* (deploy_start (main_start e j r os1)) d" and "viewing d"
    and "counted_run sz args input k d d'"
  shows "k \<le> viewer_work d \<and> (viewer_at d' = V_Exit 0 \<or> (\<exists>d''. viewer_step sz d' d'')) \<and>
    (k = viewer_work d \<longrightarrow> viewer_at d' = V_Exit 0)"
proof -
  have inv: "deploy_inv sz input e d" using deploy_reachable [OF assms(1-3)] by blast
  note run = counted_run_work [OF assms(5) inv assms(2,4)]
  have ex: "viewer_at d' = V_Exit 0 \<or> (\<exists>d''. viewer_step sz d' d'')"
    using viewer_not_stuck [of d' sz] run by (auto simp: viewing_def split: viewer_point.splits)
  moreover have "viewer_at d' = V_Exit 0" if "k = viewer_work d"
  proof (rule ccontr)
    assume "viewer_at d' \<noteq> V_Exit 0"
    then obtain d'' where "viewer_step sz d' d''" using ex by blast
    from counted_run_work [OF counted_run.viewer [OF assms(5) this] inv assms(2,4)] that show False by simp
  qed
  ultimately show ?thesis using run by simp
qed

section \<open>When the engine stops polling\<close>

text \<open>A poll that finds nothing after the feed has ended: the engine has taken everything.\<close>

lemma poll_after_feed:
  assumes "deploy_inv sz input e d" and "feed_at d = F_Exit (Some 0)" and "point (proc d) = M_Poll"
    and "spsc_try_pop (order_queue (region (proc d))) = None"
  shows "input = Inr (taken (proc d))"
  using assms spsc.pop_empty [of "order_queue (region (proc d))"]
  by (simp add: deploy_inv_def flow_inv_def region_ok_def feed_ready_def point_defs)

definition quiet_args :: EngineArgs where
  "quiet_args = demo_args\<lparr>ea_journal_path := ''''\<rparr>"

definition one_cancel :: OrderMsg where
  "one_cancel = \<lparr>m_type = MSG_CANCEL_ORDER, m_order = default_order\<rparr>"

lemma quiet_start:
  "\<exists>e r. engine_start True 4096 0 quiet_args fresh_os = Some (Inr (e, closed_journal, r, fresh_os)) \<and>
     region_ok r \<and> spsc_contents (order_queue r) = [] \<and> length (q_buffer (order_queue r)) = 2 ^ 16 \<and>
     spsc_contents (trade_queue r) = [] \<and> spsc_contents (report_queue r) = [] \<and>
     state (header r) = region_state_code READY \<and> protocol_matches 4096 (header r)"
  using default_region_ok default_region_empty start_region_protocol [of 4096 0 default_replay "init_engine default_limits"]
  by (simp add: engine_start_def quiet_args_def demo_args_def start_region_def region_ok_def Let_def publishBook_def)
    (simp add: default_region_def spsc_init_def kOrderQueueCapacity_def)

text \<open>The feed connects and sends its only message between the engine's poll and its look at the feed's state.\<close>

lemma feed_connects:
  assumes "stage_at d = Running" and "feed_at d = F_Attach (A_Open 0)" and "state (header (region (proc d))) = region_state_code READY"
    and "protocol_matches sz (header (region (proc d)))"
  shows "(deploy_step sz args (Inr ms))\<^sup>*\<^sup>* d
    (d\<lparr>proc := in_header (\<lambda>h. h\<lparr>producer_heartbeat_ns := 0\<rparr>) (proc d), feed_at := F_Send ms\<rparr>)"
proof -
  let ?S = "deploy_step sz args (Inr ms)" and ?at = "\<lambda>p. d\<lparr>feed_at := F_Attach p\<rparr>"
  have f: "file_region (?at p) = Some (region (proc d))" for p using assms(1) by (simp add: file_region_def)
  have "?S (?at (A_Open 0)) (?at A_Wait)" "?S (?at A_Wait) (?at A_Check)" "?S (?at A_Check) (?at A_Connected)"
    using deploy_step.feed [OF feed_step.attach [of "?at (A_Open 0)" "A_Open 0" sz "Inr ms" False]]
      deploy_step.feed [OF feed_step.attach [of "?at A_Wait" A_Wait sz "Inr ms" False]]
      deploy_step.feed [OF feed_step.attach [of "?at A_Check" A_Check sz "Inr ms" False]] f assms(3,4) by simp_all
  moreover have "?S (?at A_Connected) (d\<lparr>proc := in_header (\<lambda>h. h\<lparr>producer_heartbeat_ns := 0\<rparr>) (proc d), feed_at := F_Send ms\<rparr>)"
    using deploy_step.feed [OF feed_step.connected [of "?at A_Connected" sz "Inr ms" 0]] by simp
  moreover have "?at (A_Open 0) = d" using assms(2) by simp
  ultimately show ?thesis by (metis (no_types, lifting) rtranclp.rtrancl_into_rtrancl rtranclp.rtrancl_refl)
qed

lemma late_send:
  assumes "stage_at d = Running" "feed_at d = F_Attach (A_Open 0)" "state (header (region (proc d))) = region_state_code READY"
    "protocol_matches 4096 (header (region (proc d)))" "point (proc d) = M_Empty" "mp_journal (proc d) = closed_journal"
    "sent (proc d) = []" "taken (proc d) = []" "spsc_try_push (order_queue (region (proc d))) one_cancel = Some q"
  shows "\<exists>d'. (deploy_step 4096 quiet_args (Inr [one_cancel]))\<^sup>*\<^sup>* d d' \<and>
    feed_at d' = F_Exit (Some 0) \<and> point (proc d') = M_Exit 0 None \<and> sent (proc d') = [one_cancel] \<and> taken (proc d') = []"
proof -
  let ?S = "deploy_step 4096 quiet_args (Inr [one_cancel])"
  define d1 where "d1 = d\<lparr>proc := in_header (\<lambda>h. h\<lparr>producer_heartbeat_ns := 0\<rparr>) (proc d), feed_at := F_Send [one_cancel]\<rparr>"
  have conn: "?S\<^sup>*\<^sup>* d d1" unfolding d1_def by (rule feed_connects) (use assms in simp_all)
  have d1: "stage_at d1 = Running" "feed_at d1 = F_Send [one_cancel]" "order_queue (region (proc d1)) = order_queue (region (proc d))"
    "point (proc d1) = M_Empty" "mp_journal (proc d1) = closed_journal" "sent (proc d1) = []" "taken (proc d1) = []"
    using assms by (simp_all add: d1_def in_header_def)
  define d2 where "d2 = d1\<lparr>proc := (proc d1)\<lparr>region := (region (proc d1))\<lparr>order_queue := q\<rparr>, sent := sent (proc d1) @ [one_cancel]\<rparr>,
      feed_at := F_Send []\<rparr>"
  have s2: "?S d1 d2" unfolding d2_def by (intro deploy_step.feed feed_step.push) (use assms(9) d1 in simp_all)
  have d2: "stage_at d2 = Running" "feed_at d2 = F_Send []" "point (proc d2) = M_Empty" "mp_journal (proc d2) = closed_journal"
    "sent (proc d2) = [one_cancel]" "taken (proc d2) = []"
    using d1 by (simp_all add: d2_def)
  define d3 where "d3 = d2\<lparr>proc := in_header (\<lambda>h. h\<lparr>producer_done := 1, producer_heartbeat_ns := 0\<rparr>) (proc d2), feed_at := F_Exit (Some 0)\<rparr>"
  have s3: "?S d2 d3" unfolding d3_def by (intro deploy_step.feed feed_step.finished) (rule d2)
  have d3: "stage_at d3 = Running" "feed_at d3 = F_Exit (Some 0)" "point (proc d3) = M_Empty" "mp_journal (proc d3) = closed_journal"
    "sent (proc d3) = [one_cancel]" "taken (proc d3) = []" "producer_done (header (region (proc d3))) \<noteq> 0"
    using d2 by (simp_all add: d3_def in_header_def)
  define d4 where "d4 = d3\<lparr>proc := (proc d3)\<lparr>point := M_Leave\<rparr>\<rparr>"
  have s4: "?S d3 d4" unfolding d4_def
    by (intro deploy_step.engine engine_step.idle_exit) (use d3 in \<open>simp_all add: quiet_args_def demo_args_def\<close>)
  have d4: "stage_at d4 = Running" "feed_at d4 = F_Exit (Some 0)" "point (proc d4) = M_Leave" "mp_journal (proc d4) = closed_journal"
    "sent (proc d4) = [one_cancel]" "taken (proc d4) = []"
    using d3 by (simp_all add: d4_def)
  let ?p = "(proc d4)\<lparr>mp_journal := mp_journal (proc d4), mp_os := mp_os (proc d4), region := mark_done 0 (region (proc d4)),
    point := M_Exit (if True then 0 else 2) None\<rparr>"
  have "engine_step quiet_args (proc d4) ?p"
    by (rule engine_step.leave [OF d4(3)]) (simp add: final_sync_def d4(4) closed_journal_def isOpen_def)
  then have s5: "?S d4 (d4\<lparr>proc := ?p\<rparr>)" by (rule deploy_step.engine [OF d4(1)])
  have "?S\<^sup>*\<^sup>* d1 (d4\<lparr>proc := ?p\<rparr>)"
    by (rule converse_rtranclp_into_rtranclp [of ?S, OF s2], rule converse_rtranclp_into_rtranclp [of ?S, OF s3],
        rule converse_rtranclp_into_rtranclp [of ?S, OF s4], rule r_into_rtranclp [of ?S, OF s5])
  from rtranclp_trans [OF conn this] d4 show ?thesis by fastforce
qed

text \<open>An idle exit can lose messages: a feed that ends well and an engine that ends well, on its own, with the feed's
  message still in the ring.\<close>

theorem idle_exit_loses_message:
  "\<exists>e j r os1 d. engine_start True 4096 0 quiet_args fresh_os = Some (Inr (e, j, r, os1)) \<and>
     (deploy_step 4096 quiet_args (Inr [one_cancel]))\<^sup>*\<^sup>* (deploy_start (main_start e j r os1)) d \<and>
     feed_at d = F_Exit (Some 0) \<and> point (proc d) = M_Exit 0 None \<and> sent (proc d) = [one_cancel] \<and> taken (proc d) = []"
proof -
  from quiet_start obtain e r where st: "engine_start True 4096 0 quiet_args fresh_os = Some (Inr (e, closed_journal, r, fresh_os))"
    and r: "region_ok r" "spsc_contents (order_queue r) = []" "length (q_buffer (order_queue r)) = 2 ^ 16"
      "state (header r) = region_state_code READY" "protocol_matches 4096 (header r)" by blast
  let ?S = "deploy_step 4096 quiet_args (Inr [one_cancel])"
  define p where "p = main_start e closed_journal r fresh_os"
  have ok: "spsc_ok (order_queue r)" using r(1) by (simp add: region_ok_def)
  have "spsc_try_pop (order_queue (region p)) = None" using spsc.pop_empty [OF ok] r(2) by (simp add: p_def main_start_def)
  then have e1: "engine_step quiet_args p (p\<lparr>point := M_Empty\<rparr>)" by (intro engine_step.poll_empty) (simp_all add: p_def main_start_def)
  define d where "d = (deploy_start p)\<lparr>stage_at := Running, proc := p\<lparr>point := M_Empty\<rparr>\<rparr>"
  have "?S (deploy_start p) ((deploy_start p)\<lparr>stage_at := Created\<rparr>)" by (intro deploy_step.create) (simp add: deploy_start_def)
  moreover have "?S ((deploy_start p)\<lparr>stage_at := Created\<rparr>) ((deploy_start p)\<lparr>stage_at := Running\<rparr>)"
    using deploy_step.ready [of "(deploy_start p)\<lparr>stage_at := Created\<rparr>"] by simp
  moreover have "?S ((deploy_start p)\<lparr>stage_at := Running\<rparr>) d"
    using deploy_step.engine [of "(deploy_start p)\<lparr>stage_at := Running\<rparr>" quiet_args "p\<lparr>point := M_Empty\<rparr>"] e1
    by (simp add: d_def deploy_start_def)
  ultimately have run: "?S\<^sup>*\<^sup>* (deploy_start p) d" by (metis (no_types, lifting) rtranclp.rtrancl_into_rtrancl rtranclp.rtrancl_refl)
  have "spsc_try_push (order_queue r) one_cancel \<noteq> None" using spsc.push_full [OF ok] r(2,3) by simp
  then obtain q where "spsc_try_push (order_queue r) one_cancel = Some q" by blast
  then have "\<exists>d'. ?S\<^sup>*\<^sup>* d d' \<and> feed_at d' = F_Exit (Some 0) \<and> point (proc d') = M_Exit 0 None \<and>
      sent (proc d') = [one_cancel] \<and> taken (proc d') = []"
    by (intro late_send) (use r in \<open>simp_all add: d_def deploy_start_def p_def main_start_def\<close>)
  with run st show ?thesis unfolding p_def by (meson rtranclp_trans)
qed

section \<open>Witnesses\<close>

lemma viewer_connects:
  assumes "stage_at d = Running" and "viewer_at d = V_Attach (A_Open 0)" and "state (header (region (proc d))) = region_state_code READY"
    and "protocol_matches sz (header (region (proc d)))"
  shows "(deploy_step sz args input)\<^sup>*\<^sup>* d
    (d\<lparr>proc := in_header (\<lambda>h. h\<lparr>viewer_heartbeat_ns := 0\<rparr>) (proc d), counts := viewer_start, viewer_at := V_Trades False\<rparr>)"
proof -
  let ?S = "deploy_step sz args input" and ?at = "\<lambda>p. d\<lparr>viewer_at := V_Attach p\<rparr>"
  have f: "file_region (?at p) = Some (region (proc d))" for p using assms(1) by (simp add: file_region_def)
  have "?S (?at (A_Open 0)) (?at A_Wait)" "?S (?at A_Wait) (?at A_Check)" "?S (?at A_Check) (?at A_Connected)"
    using deploy_step.viewer [OF viewer_step.attach [of "?at (A_Open 0)" "A_Open 0" sz False]]
      deploy_step.viewer [OF viewer_step.attach [of "?at A_Wait" A_Wait sz False]]
      deploy_step.viewer [OF viewer_step.attach [of "?at A_Check" A_Check sz False]] f assms(3,4) by simp_all
  moreover have "?S (?at A_Connected) (d\<lparr>proc := in_header (\<lambda>h. h\<lparr>viewer_heartbeat_ns := 0\<rparr>) (proc d), counts := viewer_start,
      viewer_at := V_Trades False\<rparr>)"
    using deploy_step.viewer [OF viewer_step.connected [of "?at A_Connected" sz 0]] by simp
  moreover have "?at (A_Open 0) = d" using assms(2) by simp
  ultimately show ?thesis by (metis (no_types, lifting) rtranclp.rtrancl_into_rtrancl rtranclp.rtrancl_refl)
qed

text \<open>The engine is stopped at once, and the viewer connects.\<close>

lemma quiet_viewing:
  "\<exists>e j r os1 d. engine_start True 4096 0 quiet_args fresh_os = Some (Inr (e, j, r, os1)) \<and>
     (deploy_step 4096 quiet_args (Inr []))\<^sup>*\<^sup>* (deploy_start (main_start e j r os1)) d \<and> viewing d"
proof -
  from quiet_start obtain e r where st: "engine_start True 4096 0 quiet_args fresh_os = Some (Inr (e, closed_journal, r, fresh_os))"
    and r: "state (header r) = region_state_code READY" "protocol_matches 4096 (header r)" by blast
  let ?S = "deploy_step 4096 quiet_args (Inr [])"
  define p where "p = main_start e closed_journal r fresh_os"
  define p1 where "p1 = p\<lparr>point := M_Leave\<rparr>"
  define p2 where "p2 = p1\<lparr>mp_journal := mp_journal p1, mp_os := mp_os p1, region := mark_done 0 (region p1),
    point := M_Exit (if True then 0 else 2) None\<rparr>"
  let ?d = "(deploy_start p)\<lparr>stage_at := Running\<rparr>"
  have e: "engine_step quiet_args p p1" "engine_step quiet_args p1 p2" unfolding p2_def
    by (unfold p1_def, rule engine_step.stop, simp add: p_def main_start_def)
      (rule engine_step.leave, simp_all add: p1_def p_def main_start_def final_sync_def closed_journal_def isOpen_def)
  have "?S (deploy_start p) ((deploy_start p)\<lparr>stage_at := Created\<rparr>)" by (intro deploy_step.create) (simp add: deploy_start_def)
  moreover have "?S ((deploy_start p)\<lparr>stage_at := Created\<rparr>) ?d"
    using deploy_step.ready [of "(deploy_start p)\<lparr>stage_at := Created\<rparr>"] by simp
  moreover have "?S ?d (?d\<lparr>proc := p1\<rparr>)" "?S (?d\<lparr>proc := p1\<rparr>) (?d\<lparr>proc := p2\<rparr>)"
    using deploy_step.engine [of ?d quiet_args p1] deploy_step.engine [of "?d\<lparr>proc := p1\<rparr>" quiet_args p2] e
    by (simp_all add: deploy_start_def)
  ultimately have run: "?S\<^sup>*\<^sup>* (deploy_start p) (?d\<lparr>proc := p2\<rparr>)"
    by (metis (no_types, lifting) rtranclp.rtrancl_into_rtrancl rtranclp.rtrancl_refl)
  have d: "stage_at (?d\<lparr>proc := p2\<rparr>) = Running" "viewer_at (?d\<lparr>proc := p2\<rparr>) = V_Attach (A_Open 0)"
    "state (header (region (proc (?d\<lparr>proc := p2\<rparr>)))) = region_state_code READY"
    "protocol_matches 4096 (header (region (proc (?d\<lparr>proc := p2\<rparr>))))"
    using r by (simp_all add: deploy_start_def p2_def p1_def p_def main_start_def mark_done_def protocol_matches_def)
  from rtranclp_trans [OF run viewer_connects [OF d]] have "?S\<^sup>*\<^sup>* (deploy_start p) (?d\<lparr>proc := in_header (\<lambda>h. h\<lparr>viewer_heartbeat_ns := 0\<rparr>) p2,
      counts := viewer_start, viewer_at := V_Trades False\<rparr>)" by simp
  moreover have "viewing (?d\<lparr>proc := in_header (\<lambda>h. h\<lparr>viewer_heartbeat_ns := 0\<rparr>) p2, counts := viewer_start, viewer_at := V_Trades False\<rparr>)"
    by (simp add: viewing_def p2_def mark_done_def)
  ultimately show ?thesis using st unfolding p_def by blast
qed


theorem viewer_ends_witness:
  "\<exists>d :: deployment. viewing d \<and> (\<forall>k d'. counted_run 4096 quiet_args (Inr []) k d d' \<longrightarrow> k \<le> viewer_work d)"
proof -
  from quiet_viewing obtain e j r os1 d where st: "engine_start True 4096 0 quiet_args fresh_os = Some (Inr (e, j, r, os1))"
    and d: "(deploy_step 4096 quiet_args (Inr []))\<^sup>*\<^sup>* (deploy_start (main_start e j r os1)) d" "viewing d" by blast
  have ok: "input_ok (Inr [])" by (simp add: input_ok_def)
  from viewer_ends [OF st ok d] d(2) show ?thesis by blast
qed

end
