(* ===== verification/Benchmark_Stats.thy ===== *)
theory Benchmark_Stats
  imports Doubles
begin

text \<open>
  The statistics of the benchmarks over a list of latency samples. A \<open>long double\<close> has a significand of 64 bits.
\<close>

record LatencyStats =
  st_count :: u64
  st_mean_ns :: rat
  st_min_ns :: u64
  st_p50_ns :: u64
  st_p95_ns :: u64
  st_p99_ns :: u64
  st_p999_ns :: u64
  st_max_ns :: u64

definition default_stats :: LatencyStats where
  "default_stats = \<lparr>st_count = 0, st_mean_ns = 0, st_min_ns = 0, st_p50_ns = 0, st_p95_ns = 0, st_p99_ns = 0,
     st_p999_ns = 0, st_max_ns = 0\<rparr>"

text \<open>The percentile of a sorted list.\<close>

definition pct :: "u64 list \<Rightarrow> rat \<Rightarrow> u64" where
  "pct samples p =
     (let n = length samples; idx = nat \<lfloor>double_of (p * double_of (of_nat n))\<rfloor>
      in samples ! (if n \<le> idx then n - 1 else idx))"

text \<open>The samples come back sorted.\<close>

definition computeStats :: "u64 list \<Rightarrow> LatencyStats \<times> u64 list" where
  "computeStats samples_ns =
     (if samples_ns = [] then (default_stats, samples_ns)
      else let xs = sort samples_ns; n = length xs;
               sum = foldl (\<lambda>s v. long_double_of (s + of_nat (unat v))) 0 xs
           in (\<lparr>st_count = of_nat n, st_mean_ns = double_of (long_double_of (sum / long_double_of (of_nat n))),
                st_min_ns = hd xs, st_p50_ns = pct xs (double_of (50 / 100)), st_p95_ns = pct xs (double_of (95 / 100)),
                st_p99_ns = pct xs (double_of (99 / 100)), st_p999_ns = pct xs (double_of (999 / 1000)), st_max_ns = last xs\<rparr>,
               xs))"

section \<open>The statistics are samples\<close>

lemma pct_sample:
  assumes "xs \<noteq> []"
  shows "pct xs p \<in> set xs"
  using assms by (auto simp: pct_def Let_def intro!: nth_mem)

lemma sorted_hd_last: "sorted xs \<Longrightarrow> x \<in> set xs \<Longrightarrow> hd xs \<le> x \<and> x \<le> last xs"
  by (induction xs) (auto simp: last_ConsR)

text \<open>Minimum, maximum and percentiles are samples; the percentiles lie between the minimum and the maximum,
  which bound all samples.\<close>

theorem stats_are_samples:
  assumes "xs \<noteq> []" and "computeStats xs = (st, ys)"
  shows "ys = sort xs \<and> {st_min_ns st, st_p50_ns st, st_p95_ns st, st_p99_ns st, st_p999_ns st, st_max_ns st} \<subseteq> set xs \<and>
    (\<forall>x \<in> set xs. st_min_ns st \<le> x \<and> x \<le> st_max_ns st)"
proof -
  let ?ys = "sort xs"
  have y: "?ys \<noteq> []" "set ?ys = set xs" using assms(1) by (auto simp flip: set_empty)
  have st: "st_min_ns st = hd ?ys" "st_max_ns st = last ?ys" "ys = ?ys" "st_p50_ns st = pct ?ys (double_of (50 / 100))"
    "st_p95_ns st = pct ?ys (double_of (95 / 100))" "st_p99_ns st = pct ?ys (double_of (99 / 100))"
    "st_p999_ns st = pct ?ys (double_of (999 / 1000))"
    using assms by (auto simp: computeStats_def Let_def)
  have "pct ?ys p \<in> set xs" for p using pct_sample [OF y(1)] y(2) by blast
  moreover have "hd ?ys \<in> set xs" "last ?ys \<in> set xs" using hd_in_set [OF y(1)] last_in_set [OF y(1)] y(2) by blast+
  moreover have "\<forall>x \<in> set xs. hd ?ys \<le> x \<and> x \<le> last ?ys" using sorted_hd_last [of ?ys] y(2) by auto
  ultimately show ?thesis by (simp add: st)
qed

text \<open>The nearest rank, as the comment at the function defines it.\<close>

definition nearest_rank :: "u64 list \<Rightarrow> rat \<Rightarrow> u64" where
  "nearest_rank samples p = samples ! (nat \<lceil>p * of_nat (length samples)\<rceil> - 1)"

lemma double_of_half: "double_of (50 / 100) = 1 / 2"
proof -
  have f: "\<lfloor>(50 / 100 :: rat) * 2 ^ Suc e\<rfloor> = 2 ^ e" for e by simp
  have u: "unit_at p (Suc e) (50 / 100) = 2 ^ (Suc e - p) / 2 ^ Suc e" for p e
    unfolding unit_at_def f by (simp add: nat_power_eq bit_width_power)
  have "Suc 1073 = 1074" by simp
  with u [of 53 1073] have "unit_at 53 1074 (50 / 100) = 2 ^ (1074 - 53) / 2 ^ 1074" by (simp only:)
  also have "\<dots> = 1 / 2 ^ 53" by (simp add: power_diff)
  finally have "unit_at 53 1074 (50 / 100) = 1 / 2 ^ 53" .
  then show ?thesis unfolding double_of_def rounded_def by (simp only:) (simp add: round_even_def)
qed

text \<open>For an even number of samples the reported median is the sample above the nearest rank.\<close>

theorem median_above_nearest_rank:
  "pct [10, 20, 30, 40] (double_of (50 / 100)) = 30 \<and> nearest_rank [10, 20, 30, 40] (50 / 100) = 20"
proof -
  have "double_of 4 = 4" "double_of 2 = 2" using double_of_int [of 4] double_of_int [of 2] by simp_all
  then have "pct [10, 20, 30, 40] (double_of (50 / 100)) = [10, 20, 30, 40] ! 2"
    unfolding pct_def double_of_half Let_def by simp
  then show ?thesis by (simp add: nearest_rank_def)
qed

end
