(* ===== verification/Spec2Isabelle.thy ===== *)
theory Spec2Isabelle
  imports Engine_Properties Journal_Properties Spsc_Queue Partitioned_System Engine_Process Sharded_Engine
    Partitioned_Program Fuzz_Target Replay_Tool Deployment Benchmark_Stats
begin

text \<open>
  A verification development of the limit order book: a matching engine with price-time priority, its
  journal, the queues that connect threads and processes, and the programs built from them. All paths are
  below \<open>src/\<close>.

  \<^bold>\<open>The program.\<close> An order book (\<open>include/order_book.hpp\<close>, \<open>src/order_book.cpp\<close>) keeps resting orders in two
  maps of price levels and an index by order id. The matching engine (\<open>src/matching_engine.cpp\<close>) checks a
  command, asks the risk manager (\<open>src/risk_manager.cpp\<close>), matches it against the book and gives a report. The
  journal (\<open>src/journal.cpp\<close>) writes each command before it is applied and replays a file into an engine. Three
  deployments use the engine. In the first, a feed (\<open>apps/feed_handler.cpp\<close>), an engine process
  (\<open>apps/matching_engine_main.cpp\<close>) and a viewer (\<open>apps/market_viewer.cpp\<close>) share a mapping
  (\<open>src/shared_memory.cpp\<close>, \<open>include/shared_types.hpp\<close>) with three single-producer single-consumer rings
  (\<open>include/spsc_queue.hpp\<close>). In the second (\<open>include/partitioned_engine.hpp\<close>,
  \<open>apps/partitioned_matching_main.cpp\<close>) each shard of the symbols has a bounded queue
  (\<open>include/mpmc_queue.hpp\<close>) and one owner thread. In the third (\<open>include/sharded_engine.hpp\<close>,
  \<open>apps/mpmc_matching_main.cpp\<close>) workers share one queue and lock the shard of a symbol.

  \<^bold>\<open>Conventions.\<close> Unsigned integers are words of their width; \<open>int64_t\<close> values are integers with the range
  predicate \<open>is_i64\<close>; enumerations read from bytes have a constructor for bytes that are no enumerator. The
  result \<open>None\<close> is undefined behaviour, a failed assertion, or a call that would block, as the definition
  says. A \<open>std::map\<close> is an association list in key order, an iterator into a list the number of a node.
  A double is the rational it denotes, and every operation rounds to the nearest double, ties to even. Threads and processes are \<open>inductive\<close> step relations over
  records with a program point per thread, and ghost histories where a property speaks of the past; the
  operating system is a script of outcomes, and a random distribution gives any value of its range.

  \<^bold>\<open>Theories, sources and what is shown.\<close>
  \<^item> \<open>Lob_Prelude\<close>: integer types, lists updated by index, association lists, conservation of sums.
  \<^item> \<open>Order_Types\<close> (\<open>include/order.hpp\<close>, \<open>trade.hpp\<close>, \<open>execution_report.hpp\<close>): messages and their checks.
  \<^item> \<open>Price_Levels\<close>, \<open>Order_Book\<close>: one side of the book over the locale \<open>price_order\<close>, interpreted for both
    comparators; every member function of the book, and that each keeps the invariant \<open>book_ok\<close>.
  \<^item> \<open>Risk_Manager\<close>, \<open>Matching_Engine\<close>: the checks and \<open>processOrder\<close>, \<open>cancel\<close> with the matching loop.
  \<^item> \<open>Priority_Spec\<close>, \<open>Engine_Refinement\<close>: the abstract specification of price-time priority on lists of
    orders, and that book and loop implement it.
  \<^item> \<open>Book_Check\<close>, \<open>Engine_Correct\<close>, \<open>Engine_Commands\<close>, \<open>Engine_Properties\<close>: the self-check is exact; what a
    command does on every branch; sequences of commands over the locale \<open>command_machine\<close>; the properties
    of fills, reports, limits, cancels, ids and sequence numbers.
  \<^item> \<open>Journal_Codec\<close>, \<open>Journal_Io\<close>, \<open>Journal\<close>, \<open>Journal_Properties\<close>: records with their CRC-32, system calls that
    may be short, interrupted or fail, open, append, scan and replay; replay is running the commands, damage
    is found at its offset, and appends are all or a prefix.
  \<^item> \<open>Bounded_Queue\<close>, \<open>Spsc_Queue\<close>, \<open>Mpmc_Queue\<close>: the locale \<open>bounded_queue\<close> and its two interpretations; the ring
    at the level of loads and stores, the locked queue with sleeping and notifying threads: order, capacity,
    absence of data races and of lost wake-ups.
  \<^item> \<open>Symbols\<close>, \<open>Trade_Log\<close>, \<open>Latency_Histogram\<close> (headers of the same names): keys and hashes, the bounded history,
    percentiles as tight bounds.
  \<^item> \<open>Partitioned_Engine\<close>, \<open>Partitioned_System\<close>: the engine's pieces and its threads; each symbol's results are
    those of one engine run on its commands in the order of arrival, idle means done, shutdown drains.
    \<open>Partitioned_Program\<close>: the program with its producers and its final validation, which always passes.
  \<^item> \<open>Sharded_Engine\<close>: engine, workers and program; serializable per symbol, every run ends.
  \<^item> \<open>Shared_Memory\<close>, \<open>Shared_Types\<close>, \<open>Engine_Process\<close>: the mapping objects own exactly what is open; the protocol;
    the engine process between feed and viewer, with recovery after a crash at any step.
  \<^item> \<open>Deployment\<close>: the three processes together, attaching included: the viewer's account is exact, and it ends once the
    engine has.
  \<^item> \<open>Doubles\<close>, \<open>Csv_Reader\<close> (\<open>include/csv_reader.hpp\<close>): rounding; the table of daily prices, lines, fields and numbers.
  \<^item> \<open>Cli\<close>, \<open>App_Args\<close>: number conversions, the argument loop and the command line of every program in \<open>apps/\<close>.
  \<^item> \<open>Feed_Handler\<close>, \<open>Market_Viewer\<close>, \<open>Replay_Tool\<close>, \<open>Fuzz_Target\<close>, \<open>Benchmark_Stats\<close>: the feed's stream, the viewer's
    counters and book line, the recovery inspector (\<open>apps/journal_replay_main.cpp\<close>), the fuzz target
    (\<open>fuzz/fuzz_matching_engine.cpp\<close>) and the statistics of \<open>include/benchmark.hpp\<close>.

  \<^bold>\<open>Bounds.\<close> Statements over runs ask for at most \<open>2\<^sup>3\<^sup>2\<close> commands or orders where the code's 64-bit counters and
  32-bit trade counts must not wrap; the same bound on resting orders keeps the sums of 32-bit quantities
  below \<open>2\<^sup>6\<^sup>4\<close>. The trade log's depth is below its largest value, for the code compares the length after
  appending. Prices read from a table are at most
  a thousand million, so that the rounding of doubles stays below a tick. No definition uses fuel; the loop of the feed, which can run forever, is a partial
  function, and so its end is a theorem.

  \<^bold>\<open>Not modelled.\<close> Console output and its layout, and sleeping: they decide nothing the properties
  speak of. \<open>std::stod\<close> on hexadecimal numbers, infinities and the like. \<open>src/timestamp.cpp\<close>: times are arguments. The programs in \<open>benchmarks/\<close>: they time
  the components above and print. The memory orders of the atomics: steps are sequentially consistent. The
  handling of a thread that fails to start in the constructor of the partitioned engine. In the partitioned
  engine, the log, counter and latency updates after a command are one step; each is atomic by itself and no
  property speaks of the moments between them.
\<close>

end
